(* ===== verification/KV_Prelude.thy ===== *)
theory KV_Prelude
  imports Main "HOL-Library.Word" "HOL-Library.List_Lexorder" "HOL-Library.Sublist" "HOL-Library.Code_Target_Numeral"
begin

text \<open>
  The vocabulary every component shares: bytes and machine words, the little-endian codecs that
  \<^verbatim>\<open>to_le_bytes\<close>/\<^verbatim>\<open>from_le_bytes\<close> compute, the result type of fallible code with its bind, Rust's
  checked and saturating arithmetic on \<^verbatim>\<open>u64\<close>, slices, and the ordered map \<open>omap\<close> that stands for
  \<^verbatim>\<open>BTreeMap\<close> (and for \<^verbatim>\<open>FxHashMap\<close> wherever the code does not depend on the iteration order).
\<close>

section \<open>Bytes, words and results\<close>

type_synonym byte = "8 word"
type_synonym bytes = "byte list"
type_synonym u8 = "8 word"
type_synonym u32 = "32 word"
type_synonym u64 = "64 word"

named_theorems codec_simps \<open>width and round-trip facts of the byte codecs\<close>
named_theorems res_simps \<open>facts that push a result through \<open>rbind\<close>\<close>

abbreviation u32_max :: nat where
  "u32_max \<equiv> 4294967295"

abbreviation u64_max :: nat where
  "u64_max \<equiv> 18446744073709551615"

text \<open>\<open>rbind\<close> is the \<^verbatim>\<open>?\<close> operator: an error returns at once, a value flows on.\<close>

definition rbind :: "'e + 'a \<Rightarrow> ('a \<Rightarrow> 'e + 'b) \<Rightarrow> 'e + 'b" where
  "rbind r f = (case r of Inl e \<Rightarrow> Inl e | Inr x \<Rightarrow> f x)"

text \<open>\<^verbatim>\<open>Option::ok_or\<close>.\<close>

definition ok_or :: "'a option \<Rightarrow> 'e \<Rightarrow> 'e + 'a" where
  "ok_or x e = (case x of None \<Rightarrow> Inl e | Some y \<Rightarrow> Inr y)"

text \<open>\<^verbatim>\<open>iter().map(f).collect::<Result<Vec<_>, _>>()\<close>: the first error wins.\<close>

fun collect_results :: "('a \<Rightarrow> 'e + 'b) \<Rightarrow> 'a list \<Rightarrow> 'e + 'b list" where
  "collect_results f [] = Inr []"
| "collect_results f (x # xs) =
     rbind (f x) (\<lambda>y. rbind (collect_results f xs) (\<lambda>ys. Inr (y # ys)))"

text \<open>\<^verbatim>\<open>buf.get(off..off + n)\<close> and the panicking subslice where the bounds are known to hold.\<close>

definition subslice :: "bytes \<Rightarrow> nat \<Rightarrow> nat \<Rightarrow> bytes" where
  "subslice b off n = take n (drop off b)"

definition get_slice :: "bytes \<Rightarrow> nat \<Rightarrow> nat \<Rightarrow> bytes option" where
  "get_slice b off n = (if off + n \<le> length b then Some (subslice b off n) else None)"

definition starts_with :: "bytes \<Rightarrow> bytes \<Rightarrow> bool" where
  "starts_with s p \<longleftrightarrow> take (length p) s = p"

text \<open>Rust's integer operations on \<^verbatim>\<open>u64\<close>: \<open>None\<close> or a clamp where the sum leaves the range.\<close>

definition checked_add64 :: "u64 \<Rightarrow> u64 \<Rightarrow> u64 option" where
  "checked_add64 a b = (if unat a + unat b \<le> u64_max then Some (a + b) else None)"

definition checked_mul64 :: "u64 \<Rightarrow> u64 \<Rightarrow> u64 option" where
  "checked_mul64 a b = (if unat a * unat b \<le> u64_max then Some (a * b) else None)"

definition saturating_sub64 :: "u64 \<Rightarrow> u64 \<Rightarrow> u64" where
  "saturating_sub64 a b = (if b \<le> a then a - b else 0)"

text \<open>ASCII literals of the source, \<^verbatim>\<open>b"..."\<close>.\<close>

definition ascii :: "string \<Rightarrow> bytes" where
  "ascii s = map (\<lambda>c. of_nat (of_char c)) s"

section \<open>Little-endian codecs\<close>

fun le_of_nat :: "nat \<Rightarrow> nat \<Rightarrow> bytes" where
  "le_of_nat 0 x = []"
| "le_of_nat (Suc n) x = of_nat (x mod 256) # le_of_nat n (x div 256)"

fun nat_of_le :: "bytes \<Rightarrow> nat" where
  "nat_of_le [] = 0"
| "nat_of_le (b # bs) = unat b + 256 * nat_of_le bs"

definition u32_to_le :: "u32 \<Rightarrow> bytes" where
  "u32_to_le w = le_of_nat 4 (unat w)"

definition u64_to_le :: "u64 \<Rightarrow> bytes" where
  "u64_to_le w = le_of_nat 8 (unat w)"

definition u32_from_le :: "bytes \<Rightarrow> u32" where
  "u32_from_le b = of_nat (nat_of_le b)"

definition u64_from_le :: "bytes \<Rightarrow> u64" where
  "u64_from_le b = of_nat (nat_of_le b)"

section \<open>Facts about results, slices and codecs\<close>

lemma rbind_simps [simp, res_simps]: "rbind (Inl e) f = Inl e" "rbind (Inr x) f = f x"
  by (simp_all add: rbind_def)

lemma rbind_eq_Inr: "rbind r f = Inr y \<longleftrightarrow> (\<exists>x. r = Inr x \<and> f x = Inr y)"
  by (cases r) auto

lemma rbind_eq_Inl: "rbind r f = Inl e \<longleftrightarrow> r = Inl e \<or> (\<exists>x. r = Inr x \<and> f x = Inl e)"
  by (cases r) auto

lemma rbind_split: "P (rbind r f) \<longleftrightarrow> (\<forall>e. r = Inl e \<longrightarrow> P (Inl e)) \<and> (\<forall>x. r = Inr x \<longrightarrow> P (f x))"
  by (cases r) auto

lemma ok_or_simps [simp, res_simps]: "ok_or None e = Inl e" "ok_or (Some x) e = Inr x"
  by (simp_all add: ok_or_def)

lemma collect_results_map:
  "(\<And>x. x \<in> set xs \<Longrightarrow> f x = Inr (g x)) \<Longrightarrow> collect_results f xs = Inr (map g xs)"
  by (induction xs) auto

lemma collect_results_length: "collect_results f xs = Inr ys \<Longrightarrow> length ys = length xs"
  by (induction xs arbitrary: ys) (auto simp: rbind_eq_Inr)

lemma length_subslice [simp]: "off + n \<le> length b \<Longrightarrow> length (subslice b off n) = n"
  by (simp add: subslice_def)

lemma subslice_append_left: "off + n \<le> length a \<Longrightarrow> subslice (a @ b) off n = subslice a off n"
  by (simp add: subslice_def)

lemma subslice_append_right: "subslice (a @ b) (length a + off) n = subslice b off n"
  by (simp add: subslice_def)

lemma subslice_append_eq: "off = length a \<Longrightarrow> n = length b \<Longrightarrow> subslice (a @ b @ c) off n = b"
  by (simp add: subslice_def)

lemma subslice_0 [simp]: "subslice b off 0 = []"
  by (simp add: subslice_def)

lemma subslice_slice: "i + m \<le> n \<Longrightarrow> subslice (subslice b off n) i m = subslice b (off + i) m"
  by (simp add: subslice_def take_drop min_def add.commute add.left_commute)

lemma subslice_all: "length b = n \<Longrightarrow> subslice b 0 n = b"
  by (simp add: subslice_def)

lemma starts_with_append [simp]: "starts_with (p @ s) p"
  by (simp add: starts_with_def)

lemma starts_with_iff: "starts_with s p \<longleftrightarrow> (\<exists>t. s = p @ t)"
  unfolding starts_with_def by (metis append_eq_conv_conj append_take_drop_id)

lemma length_le_of_nat [simp, codec_simps]: "length (le_of_nat n x) = n"
  by (induction n arbitrary: x) auto

lemma unat_byte_of_nat: "unat (of_nat (x mod 256) :: byte) = x mod 256"
  by (simp add: unat_of_nat)

lemma nat_of_le_of_nat: "nat_of_le (le_of_nat n x) = x mod 256 ^ n"
proof (induction n arbitrary: x)
  case 0
  show ?case by simp
next
  case (Suc n)
  have "nat_of_le (le_of_nat (Suc n) x) = x mod 256 + 256 * (x div 256 mod 256 ^ n)"
    using Suc.IH[of "x div 256"] unat_byte_of_nat[of x] by simp
  also have "\<dots> = x mod (256 * 256 ^ n)"
    by (simp add: mod_mult2_eq)
  finally show ?case by simp
qed

lemma nat_of_le_less: "nat_of_le b < 256 ^ length b"
proof (induction b)
  case Nil
  show ?case by simp
next
  case (Cons x b)
  have "unat x < 256" using unsigned_less[of x] by simp
  with Cons.IH show ?case by simp
qed

lemma le_of_nat_nat_of_le: "le_of_nat (length b) (nat_of_le b) = b"
proof (induction b)
  case Nil
  show ?case by simp
next
  case (Cons x b)
  have x: "unat x < 256" using unsigned_less[of x] by simp
  then have m: "(unat x + 256 * nat_of_le b) mod 256 = unat x"
    and d: "(unat x + 256 * nat_of_le b) div 256 = nat_of_le b"
    by simp_all
  have "le_of_nat (length (x # b)) (nat_of_le (x # b)) = of_nat (unat x) # le_of_nat (length b) (nat_of_le b)"
    by (simp only: list.size nat_of_le.simps le_of_nat.simps m d add_Suc_right add_0_right)
  also have "\<dots> = x # b" using Cons.IH by simp
  finally show ?case .
qed

lemma length_u32_to_le [simp, codec_simps]: "length (u32_to_le w) = 4"
  by (simp add: u32_to_le_def)

lemma length_u64_to_le [simp, codec_simps]: "length (u64_to_le w) = 8"
  by (simp add: u64_to_le_def)

lemma u32_from_to_le [simp, codec_simps]: "u32_from_le (u32_to_le w) = w"
proof -
  have "unat w < 256 ^ 4" using unsigned_less[of w] by simp
  then show ?thesis by (simp add: u32_from_le_def u32_to_le_def nat_of_le_of_nat)
qed

lemma u64_from_to_le [simp, codec_simps]: "u64_from_le (u64_to_le w) = w"
proof -
  have "unat w < 256 ^ 8" using unsigned_less[of w] by simp
  then show ?thesis by (simp add: u64_from_le_def u64_to_le_def nat_of_le_of_nat)
qed

lemma u64_to_from_le [codec_simps]:
  assumes "length b = 8"
  shows "u64_to_le (u64_from_le b) = b"
proof -
  have "nat_of_le b < 2 ^ 64" using nat_of_le_less[of b] assms by simp
  then have "unat (of_nat (nat_of_le b) :: u64) = nat_of_le b"
    by (simp add: unat_of_nat)
  then show ?thesis
    using le_of_nat_nat_of_le[of b] assms by (simp add: u64_to_le_def u64_from_le_def)
qed

lemma unat_u64_of_nat [simp]: "n \<le> u64_max \<Longrightarrow> unat (of_nat n :: u64) = n"
  by (simp add: unat_of_nat)

lemma unat_u32_of_nat [simp]: "n \<le> u32_max \<Longrightarrow> unat (of_nat n :: u32) = n"
  by (simp add: unat_of_nat)

lemma unat_u64_le: "unat (w :: u64) \<le> u64_max"
  using unsigned_less[of w, where 'a = nat] by simp

lemma unat_u32_le: "unat (w :: u32) \<le> u32_max"
  using unsigned_less[of w, where 'a = nat] by simp

lemma checked_add64_Some: "checked_add64 a b = Some c \<Longrightarrow> unat c = unat a + unat b"
  by (auto simp: checked_add64_def unat_word_ariths split: if_splits)

lemma checked_add64_None: "checked_add64 a b = None \<longleftrightarrow> u64_max < unat a + unat b"
  by (auto simp: checked_add64_def)

lemma checked_mul64_Some: "checked_mul64 a b = Some c \<Longrightarrow> unat c = unat a * unat b"
  by (auto simp: checked_mul64_def unat_word_ariths split: if_splits)

lemma unat_saturating_sub64: "unat (saturating_sub64 a b) = unat a - unat b"
  by (auto simp: saturating_sub64_def word_le_nat_alt unat_sub_if')

section \<open>Ordered maps\<close>

text \<open>
  An \<open>omap\<close> is a list of bindings in strictly ascending key order. Iterating it visits the keys in
  the order \<^verbatim>\<open>BTreeMap::iter\<close> does, byte strings being compared lexicographically as Rust compares
  \<^verbatim>\<open>[u8]\<close>.
\<close>

fun ins_list :: "'k::linorder \<Rightarrow> 'v \<Rightarrow> ('k \<times> 'v) list \<Rightarrow> ('k \<times> 'v) list" where
  "ins_list k v [] = [(k, v)]"
| "ins_list k v ((a, b) # ps) =
     (if k < a then (k, v) # (a, b) # ps else if k = a then (k, v) # ps else (a, b) # ins_list k v ps)"

definition del_list :: "'k \<Rightarrow> ('k \<times> 'v) list \<Rightarrow> ('k \<times> 'v) list" where
  "del_list k ps = filter (\<lambda>(a, b). a \<noteq> k) ps"

abbreviation asc_keys :: "('k::linorder \<times> 'v) list \<Rightarrow> bool" where
  "asc_keys ps \<equiv> sorted_wrt (<) (map fst ps)"

lemma fst_set_ins_list: "fst ` set (ins_list k v ps) = insert k (fst ` set ps)"
  by (induction k v ps rule: ins_list.induct) auto

lemma asc_ins_list: "asc_keys ps \<Longrightarrow> asc_keys (ins_list k v ps)"
proof (induction k v ps rule: ins_list.induct)
  case (1 k v)
  show ?case by simp
next
  case (2 k v a b ps)
  have "\<forall>x \<in> fst ` set (ins_list k v ps). a < x" if "a < k"
    using that 2(2) by (simp add: fst_set_ins_list)
  with 2 show ?case by auto
qed

lemma asc_filter: "asc_keys ps \<Longrightarrow> asc_keys (filter P ps)"
  by (induction ps) auto

lemma map_of_ins_list: "map_of (ins_list k v ps) = (map_of ps)(k \<mapsto> v)"
  by (induction k v ps rule: ins_list.induct) (auto simp: fun_eq_iff)

lemma map_of_del_list: "map_of (del_list k ps) = (map_of ps)(k := None)"
  by (induction ps) (auto simp: del_list_def fun_eq_iff)

lemma asc_distinct: "asc_keys ps \<Longrightarrow> distinct (map fst ps)"
  by (induction ps) auto

lemma map_of_rebuild: "distinct (map fst ps) \<Longrightarrow> map (\<lambda>k. (k, the (map_of ps k))) (map fst ps) = ps"
  by (simp only: list.map_comp, rule map_idI) (auto simp: map_of_is_SomeI)

lemma asc_map_of_ext:
  assumes "asc_keys ps" "asc_keys qs" "map_of ps = map_of qs"
  shows "ps = qs"
proof -
  have "set (map fst ps) = set (map fst qs)"
    using assms(3) by (metis dom_map_of_conv_image_fst set_map)
  then have "map fst ps = map fst qs"
    using assms(1,2) by (metis strict_sorted_equal)
  then show ?thesis
    using assms by (metis asc_distinct map_of_rebuild)
qed

typedef (overloaded) ('k::linorder, 'v) omap = "{ps :: ('k \<times> 'v) list. asc_keys ps}"
  morphisms entries Omap
  by (rule exI[of _ "[]"]) simp

setup_lifting type_definition_omap

lift_definition om_empty :: "('k::linorder, 'v) omap" is "[]"
  by simp

lift_definition om_lookup :: "('k::linorder, 'v) omap \<Rightarrow> 'k \<Rightarrow> 'v option" is map_of .

lift_definition om_insert :: "'k::linorder \<Rightarrow> 'v \<Rightarrow> ('k, 'v) omap \<Rightarrow> ('k, 'v) omap" is ins_list
  by (rule asc_ins_list)

lift_definition om_delete :: "'k::linorder \<Rightarrow> ('k, 'v) omap \<Rightarrow> ('k, 'v) omap" is del_list
  by (simp add: del_list_def asc_filter)

lift_definition om_filter :: "('k \<times> 'v \<Rightarrow> bool) \<Rightarrow> ('k::linorder, 'v) omap \<Rightarrow> ('k, 'v) omap" is filter
  by (rule asc_filter)

lift_definition om_map :: "('v \<Rightarrow> 'w) \<Rightarrow> ('k::linorder, 'v) omap \<Rightarrow> ('k, 'w) omap" is
  "\<lambda>f. map (\<lambda>(k, v). (k, f v))"
  by (simp add: case_prod_beta comp_def)

definition om_keys :: "('k::linorder, 'v) omap \<Rightarrow> 'k list" where
  "om_keys m = map fst (entries m)"

definition om_size :: "('k::linorder, 'v) omap \<Rightarrow> nat" where
  "om_size m = length (entries m)"

text \<open>The sum of a measure over the values, for the byte accounting of the cache.\<close>

definition om_sum :: "('v \<Rightarrow> nat) \<Rightarrow> ('k::linorder, 'v) omap \<Rightarrow> nat" where
  "om_sum f m = sum_list (map (\<lambda>(k, v). f v) (entries m))"

lemmas om_entries [simp] =
  om_empty.rep_eq om_insert.rep_eq om_delete.rep_eq om_filter.rep_eq om_map.rep_eq

instantiation omap :: (linorder, equal) equal
begin

definition equal_omap :: "('a, 'b) omap \<Rightarrow> ('a, 'b) omap \<Rightarrow> bool" where
  "equal_omap m n \<longleftrightarrow> HOL.equal (entries m) (entries n)"

instance
  by standard (simp add: equal_omap_def equal_eq entries_inject)

end

lemma entries_asc [simp]: "asc_keys (entries m)"
  using entries[of m] by simp

lemma om_lookup_entries: "om_lookup m k = map_of (entries m) k"
  by (simp add: om_lookup.rep_eq)

lemma om_ext: "(\<And>k. om_lookup m k = om_lookup n k) \<Longrightarrow> m = n"
  using asc_map_of_ext[of "entries m" "entries n"] entries_inject[of m n]
  by (auto simp: om_lookup_entries fun_eq_iff)

lemma distinct_om_keys [simp]: "distinct (om_keys m)"
  by (simp add: om_keys_def asc_distinct)

lemma sorted_om_keys [simp]: "sorted_wrt (<) (om_keys m)"
  by (simp add: om_keys_def)

lemma in_entries_iff: "(k, v) \<in> set (entries m) \<longleftrightarrow> om_lookup m k = Some v"
  by (simp add: om_lookup_entries asc_distinct)

lemma set_om_keys: "set (om_keys m) = {k. om_lookup m k \<noteq> None}"
  by (force simp: om_keys_def om_lookup_entries map_of_eq_None_iff)

lemma om_lookup_empty [simp]: "om_lookup om_empty k = None"
  by (simp add: om_lookup_entries)

lemma om_lookup_insert [simp]:
  "om_lookup (om_insert k v m) k' = (if k' = k then Some v else om_lookup m k')"
  by (simp add: om_lookup_entries map_of_ins_list)

lemma om_lookup_delete [simp]:
  "om_lookup (om_delete k m) k' = (if k' = k then None else om_lookup m k')"
  by (simp add: om_lookup_entries map_of_del_list)

lemma om_lookup_filter [simp]:
  "om_lookup (om_filter P m) k =
     (case om_lookup m k of None \<Rightarrow> None | Some v \<Rightarrow> if P (k, v) then Some v else None)"
proof -
  have "map_of (filter P ps) k =
      (case map_of ps k of None \<Rightarrow> None | Some v \<Rightarrow> if P (k, v) then Some v else None)"
    if "distinct (map fst ps)" for ps
    using that by (induction ps) (auto split: option.splits simp: map_of_eq_None_iff)
  then show ?thesis by (simp add: om_lookup_entries asc_distinct)
qed

lemma om_lookup_map [simp]: "om_lookup (om_map f m) k = map_option f (om_lookup m k)"
proof -
  have "map_of (map (\<lambda>(k, v). (k, f v)) ps) k = map_option f (map_of ps k)" for ps
    by (induction ps) auto
  then show ?thesis by (simp add: om_lookup_entries)
qed

lemma om_insert_insert [simp]: "om_insert k v (om_insert k w m) = om_insert k v m"
  by (rule om_ext) simp

lemma om_delete_insert [simp]: "om_delete k (om_insert k v m) = om_delete k m"
  by (rule om_ext) simp

lemma om_insert_delete [simp]: "om_insert k v (om_delete k m) = om_insert k v m"
  by (rule om_ext) simp

lemma om_delete_absent: "om_lookup m k = None \<Longrightarrow> om_delete k m = m"
  by (rule om_ext) simp

lemma om_insert_same: "om_lookup m k = Some v \<Longrightarrow> om_insert k v m = m"
  by (rule om_ext) simp

subsection \<open>Sizes and sums\<close>

lemma sum_ins_list:
  "asc_keys ps \<Longrightarrow> sum_list (map (\<lambda>(k, v). f v) (ins_list k v ps)) +
     (case map_of ps k of None \<Rightarrow> 0 | Some w \<Rightarrow> f w) = f v + sum_list (map (\<lambda>(k, v). f v) ps)"
  for f :: "'v \<Rightarrow> nat"
proof (induction k v ps rule: ins_list.induct)
  case (1 k v)
  show ?case by simp
next
  case (2 k v a b ps)
  have "map_of ps k = None" if "k < a"
    using that 2(2) by (force simp: map_of_eq_None_iff)
  with 2 show ?case by (auto split: option.splits)
qed

lemma sum_del_list:
  "asc_keys ps \<Longrightarrow> sum_list (map (\<lambda>(k, v). f v) (del_list k ps)) +
     (case map_of ps k of None \<Rightarrow> 0 | Some w \<Rightarrow> f w) = sum_list (map (\<lambda>(k, v). f v) ps)"
  for f :: "'v \<Rightarrow> nat"
proof (induction ps)
  case Nil
  show ?case by (simp add: del_list_def)
next
  case (Cons p ps)
  obtain a b where p: "p = (a, b)" by (cases p)
  show ?case
  proof (cases "a = k")
    case True
    have "k \<notin> fst ` set ps" using Cons.prems p True by auto
    then have "map_of ps k = None" "filter (\<lambda>(a, b). a \<noteq> k) ps = ps"
      by (force simp: map_of_eq_None_iff intro!: filter_True)+
    then show ?thesis using p True by (simp add: del_list_def)
  next
    case False
    then show ?thesis using Cons p by (simp add: del_list_def)
  qed
qed

lemma om_sum_empty [simp]: "om_sum f om_empty = 0"
  by (simp add: om_sum_def)

lemma om_sum_insert_None: "om_lookup m k = None \<Longrightarrow> om_sum f (om_insert k v m) = om_sum f m + f v"
  using sum_ins_list[OF entries_asc[of m], of f k v] by (simp add: om_sum_def om_lookup_entries)

lemma om_sum_insert_Some:
  "om_lookup m k = Some w \<Longrightarrow> om_sum f (om_insert k v m) + f w = om_sum f m + f v"
  using sum_ins_list[OF entries_asc[of m], of f k v] by (simp add: om_sum_def om_lookup_entries)

lemma om_sum_delete_Some: "om_lookup m k = Some w \<Longrightarrow> om_sum f (om_delete k m) + f w = om_sum f m"
  using sum_del_list[OF entries_asc[of m], of f k] by (simp add: om_sum_def om_lookup_entries)

lemma om_sum_filter_split: "om_sum f (om_filter P m) + om_sum f (om_filter (\<lambda>p. \<not> P p) m) = om_sum f m"
proof -
  have "sum_list (map g (filter P ps)) + sum_list (map g (filter (\<lambda>p. \<not> P p) ps)) = sum_list (map g ps)"
    for ps and g :: "_ \<Rightarrow> nat"
    by (induction ps) auto
  then show ?thesis by (simp add: om_sum_def)
qed

lemma om_size_sum: "om_size m = om_sum (\<lambda>_. 1) m"
proof -
  have "length ps = sum_list (map (\<lambda>(k, v). 1) ps)" for ps :: "('c \<times> 'd) list"
    by (induction ps) auto
  then show ?thesis by (simp add: om_size_def om_sum_def)
qed

lemma om_size_empty [simp]: "om_size om_empty = 0"
  by (simp add: om_size_def)

lemma om_size_insert [simp]:
  "om_size (om_insert k v m) = (if om_lookup m k = None then Suc (om_size m) else om_size m)"
  using om_sum_insert_None[of m k "\<lambda>_. 1" v] om_sum_insert_Some[of m k _ "\<lambda>_. 1" v]
  by (auto simp: om_size_sum)

lemma om_size_delete [simp]:
  "om_size (om_delete k m) = (if om_lookup m k = None then om_size m else om_size m - 1)"
  using om_sum_delete_Some[of m k _ "\<lambda>_. 1"] by (auto simp: om_size_sum om_delete_absent)

lemma om_size_0_iff: "om_size m = 0 \<longleftrightarrow> (\<forall>k. om_lookup m k = None)"
  by (auto simp: om_size_def om_lookup_entries in_entries_iff[symmetric] dest: map_of_SomeD)
    (metis in_entries_iff list.set_intros(1) neq_Nil_conv om_lookup_entries option.discI surj_pair)

lemma om_sum_le: "om_lookup m k = Some v \<Longrightarrow> f v \<le> om_sum f m"
  using om_sum_delete_Some[of m k v f] by simp

end
