(* ===== verification/Engine_Types.thy ===== *)
theory Engine_Types
  imports KV_Prelude
begin

text \<open>
  The engine's shared data types: the error enum of \<^verbatim>\<open>engine/src/error.rs\<close> and the request and
  reply structs of \<^verbatim>\<open>engine/src/types.rs\<close>. Parsed JSON metadata (\<^verbatim>\<open>serde_json::Value\<close>) is a type
  parameter \<open>'j\<close>; an \<^verbatim>\<open>Instant\<close> is a number of milliseconds of the monotonic clock.
\<close>

datatype io_error = Poisoned | WriteFailed | UnexpectedEof | NotFound | OsError nat

datatype engine_error =
    Io io_error
  | CrcMismatch nat
  | BadRecord nat string
  | InvalidNamespace bytes
  | MetadataJson
  | ReclamationBusy
  | CapacityExceeded string
  | InvalidInput string
  | Conflict string
  | Frozen
  | TestSealFailure

type_synonym 'a eresult = "engine_error + 'a"

record 'j entry =
  ent_value :: bytes
  ent_expires_at :: "nat option"
  ent_metadata :: "'j option"
  ent_revision :: u64

record 'j set_options =
  so_ttl :: "nat option"
  so_metadata :: "'j option"
  so_keep_ttl :: bool

datatype ttl_result = NoExpiry | TtlNotFound | Remaining u64

datatype getex_op = GetExSetTtl nat | GetExPersist

record scan_page =
  sp_next_cursor :: bytes
  sp_keys :: "bytes list"

record log_config =
  rotate_threshold :: nat
  fanout :: nat
  value_sep_threshold :: nat

definition default_log_config :: log_config where
  "default_log_config = \<lparr>rotate_threshold = 2 ^ 30, fanout = 8, value_sep_threshold = 128 * 1024\<rparr>"

end
