(* ===== verification/Stream_Codec.thy ===== *)
theory Stream_Codec
  imports KV_Prelude
begin

text \<open>
  The contract of a self-delimiting codec, as the record codec and the footer codec both promise it:
  decoding what was encoded gives the value and the number of bytes consumed whatever follows, an
  encoding is never empty, and no strict prefix of an encoding decodes. \<open>parse_stream\<close> is the reading
  loop every scan of a log file performs; under the contract it inverts concatenation and, on a torn
  tail, recovers exactly the whole items.
\<close>

function parse_stream :: "(bytes \<Rightarrow> ('a \<times> nat) option) \<Rightarrow> bytes \<Rightarrow> 'a list \<times> bytes" where
  "parse_stream dec b =
     (case dec b of
        None \<Rightarrow> ([], b)
      | Some (x, n) \<Rightarrow>
          if 0 < n \<and> n \<le> length b
          then (x # fst (parse_stream dec (drop n b)), snd (parse_stream dec (drop n b)))
          else ([], b))"
  by pat_completeness auto
termination
  by (relation "measure (\<lambda>(dec, b). length b)") auto

declare parse_stream.simps [simp del]

lemma parse_stream_None: "dec b = None \<Longrightarrow> parse_stream dec b = ([], b)"
  by (simp add: parse_stream.simps)

lemma parse_stream_step:
  "dec b = Some (x, n) \<Longrightarrow> 0 < n \<Longrightarrow> n \<le> length b \<Longrightarrow>
     parse_stream dec b = (x # fst (parse_stream dec (drop n b)), snd (parse_stream dec (drop n b)))"
  by (subst parse_stream.simps) simp

locale stream_codec =
  fixes enc :: "'a \<Rightarrow> bytes"
    and dec :: "bytes \<Rightarrow> ('b \<times> nat) option"
    and view :: "'a \<Rightarrow> 'b"
    and ok :: "'a \<Rightarrow> bool"
  assumes dec_enc: "ok x \<Longrightarrow> dec (enc x @ rest) = Some (view x, length (enc x))"
    and enc_nonempty: "ok x \<Longrightarrow> enc x \<noteq> []"
    and dec_torn: "ok x \<Longrightarrow> n < length (enc x) \<Longrightarrow> dec (take n (enc x)) = None"
begin

definition image :: "'a list \<Rightarrow> bytes" where
  "image xs = concat (map enc xs)"

lemma image_simps [simp]: "image [] = []" "image (x # xs) = enc x @ image xs"
  "image (xs @ ys) = image xs @ image ys"
  by (simp_all add: image_def)

lemma parse_image_append:
  "list_all ok xs \<Longrightarrow>
     parse_stream dec (image xs @ tail) =
       (map view xs @ fst (parse_stream dec tail), snd (parse_stream dec tail))"
proof (induction xs)
  case Nil
  show ?case by simp
next
  case (Cons x xs)
  then have ok: "ok x" and xs: "list_all ok xs" by simp_all
  have "parse_stream dec (enc x @ image xs @ tail) =
      (view x # fst (parse_stream dec (image xs @ tail)), snd (parse_stream dec (image xs @ tail)))"
    using dec_enc[OF ok, of "image xs @ tail"] enc_nonempty[OF ok]
    by (subst parse_stream_step[where x = "view x" and n = "length (enc x)"]) auto
  with Cons.IH[OF xs] show ?case by simp
qed

lemma parse_image_stop:
  "list_all ok xs \<Longrightarrow> dec tail = None \<Longrightarrow> parse_stream dec (image xs @ tail) = (map view xs, tail)"
  by (simp add: parse_image_append parse_stream_None)

text \<open>Cutting an image anywhere leaves a whole number of items and one torn one.\<close>

lemma take_image:
  assumes "list_all ok xs"
  obtains m t where "m \<le> length xs" "take n (image xs) = image (take m xs) @ t"
    "t = [] \<or> (\<exists>k. m < length xs \<and> k < length (enc (xs ! m)) \<and> t = take k (enc (xs ! m)))"
proof -
  have "\<exists>m t. m \<le> length xs \<and> take n (image xs) = image (take m xs) @ t \<and>
      (t = [] \<or> (\<exists>k. m < length xs \<and> k < length (enc (xs ! m)) \<and> t = take k (enc (xs ! m))))"
    using assms
  proof (induction xs arbitrary: n)
    case Nil
    show ?case by simp
  next
    case (Cons x xs)
    show ?case
    proof (cases "n < length (enc x)")
      case True
      then have "0 \<le> length (x # xs) \<and> take n (image (x # xs)) = image (take 0 (x # xs)) @ take n (enc x)"
        by simp
      with True show ?thesis
        by (intro exI[of _ 0] exI[of _ "take n (enc x)"]) auto
    next
      case False
      from Cons.prems have "list_all ok xs" by simp
      then obtain m t where mt: "m \<le> length xs"
        "take (n - length (enc x)) (image xs) = image (take m xs) @ t"
        "t = [] \<or> (\<exists>k. m < length xs \<and> k < length (enc (xs ! m)) \<and> t = take k (enc (xs ! m)))"
        using Cons.IH[of "n - length (enc x)"] by blast
      then have "take n (image (x # xs)) = image (take (Suc m) (x # xs)) @ t"
        using False by simp
      with mt show ?thesis
        by (intro exI[of _ "Suc m"] exI[of _ t]) auto
    qed
  qed
  then show ?thesis using that by blast
qed

lemma dec_Nil: "list_all ok xs \<Longrightarrow> xs \<noteq> [] \<Longrightarrow> dec [] = None"
  using dec_torn[of "hd xs" 0] enc_nonempty[of "hd xs"] by (cases xs) auto

lemma parse_torn_image:
  assumes "list_all ok xs"
  shows "\<exists>m t. m \<le> length xs \<and> take n (image xs) = image (take m xs) @ t \<and>
      (xs \<noteq> [] \<longrightarrow> parse_stream dec (take n (image xs)) = (map view (take m xs), t))"
proof -
  obtain m t where mt: "m \<le> length xs" "take n (image xs) = image (take m xs) @ t"
    "t = [] \<or> (\<exists>k. m < length xs \<and> k < length (enc (xs ! m)) \<and> t = take k (enc (xs ! m)))"
    using take_image[OF assms] by blast
  have "dec t = None" if "xs \<noteq> []"
    using mt(3)
  proof
    assume "t = []"
    then show ?thesis using dec_Nil[OF assms that] by simp
  next
    assume "\<exists>k. m < length xs \<and> k < length (enc (xs ! m)) \<and> t = take k (enc (xs ! m))"
    then show ?thesis using assms dec_torn by (auto simp: list_all_length)
  qed
  moreover have "list_all ok (take m xs)"
    using assms by (auto simp: list_all_iff dest: in_set_takeD)
  ultimately show ?thesis
    using mt(1,2) parse_image_stop[of "take m xs" t] by (intro exI[of _ m] exI[of _ t]) auto
qed

end

end
