(* ===== verification/Log_Record.thy ===== *)
theory Log_Record
  imports Engine_Types Stream_Codec
begin

unbundle bit_operations_syntax

text \<open>
  \<^verbatim>\<open>engine/src/log/record.rs\<close>: the on-disk record. A record is a 37-byte little-endian header
  followed by key, value field and metadata; its CRC covers everything after the CRC field. The
  checksum (crate \<^verbatim>\<open>crc_fast\<close>) is the parameter \<open>crc\<close>: feeding a digest two chunks is checksumming
  their concatenation. The lemmas show the codec's round trip, that it is exact on lengths, and that
  decoding is injective.
\<close>

section \<open>Model\<close>

definition TOMBSTONE :: u8 where "TOMBSTONE = 1"

definition NO_EXPIRY :: u8 where "NO_EXPIRY = 2"

definition TTL_UPDATE :: u8 where "TTL_UPDATE = 4"

definition VALUE_SEP :: u8 where "VALUE_SEP = 8"

lemmas flag_defs = TOMBSTONE_def NO_EXPIRY_def TTL_UPDATE_def VALUE_SEP_def

text \<open>\<^verbatim>\<open>flags & F != 0\<close>\<close>

definition has_flag :: "u8 \<Rightarrow> u8 \<Rightarrow> bool" where
  "has_flag fl f \<longleftrightarrow> fl AND f \<noteq> 0"

abbreviation HEADER_LEN :: nat where
  "HEADER_LEN \<equiv> 37"

record record_header =
  hdr_crc :: u64
  hdr_tstamp_ms :: u64
  hdr_flags :: u8
  hdr_expires_at_ms :: u64
  hdr_key_size :: u32
  hdr_val_size :: u32
  hdr_meta_size :: u32

definition body_len :: "record_header \<Rightarrow> nat" where
  "body_len h = unat (hdr_key_size h) + unat (hdr_val_size h) + unat (hdr_meta_size h)"

definition record_len :: "record_header \<Rightarrow> nat" where
  "record_len h = HEADER_LEN + body_len h"

definition u64_le :: "bytes \<Rightarrow> nat \<Rightarrow> nat \<Rightarrow> u64 eresult" where
  "u64_le buf off at = ok_or (map_option u64_from_le (get_slice buf off 8)) (BadRecord at ''truncated u64 field'')"

definition u32_le :: "bytes \<Rightarrow> nat \<Rightarrow> nat \<Rightarrow> u32 eresult" where
  "u32_le buf off at = ok_or (map_option u32_from_le (get_slice buf off 4)) (BadRecord at ''truncated u32 field'')"

definition parse_header :: "bytes \<Rightarrow> nat \<Rightarrow> record_header eresult" where
  "parse_header buf offset =
     (if length buf < HEADER_LEN then Inl (BadRecord offset ''short header'')
      else rbind (u64_le buf 0 offset) (\<lambda>crc.
           rbind (u64_le buf 8 offset) (\<lambda>tstamp_ms.
           let flags = buf ! 16 in
           rbind (u64_le buf 17 offset) (\<lambda>expires_at_ms.
           rbind (u32_le buf 25 offset) (\<lambda>key_size.
           rbind (u32_le buf 29 offset) (\<lambda>val_size.
           rbind (u32_le buf 33 offset) (\<lambda>meta_size.
             Inr \<lparr>hdr_crc = crc, hdr_tstamp_ms = tstamp_ms, hdr_flags = flags,
                  hdr_expires_at_ms = expires_at_ms, hdr_key_size = key_size,
                  hdr_val_size = val_size, hdr_meta_size = meta_size\<rparr>)))))))"

definition verify_crc :: "(bytes \<Rightarrow> u64) \<Rightarrow> record_header \<Rightarrow> bytes \<Rightarrow> bytes \<Rightarrow> nat \<Rightarrow> unit eresult" where
  "verify_crc crc h header_bytes body offset =
     (if crc (drop 8 header_bytes @ body) \<noteq> hdr_crc h then Inl (CrcMismatch offset) else Inr ())"

definition record_payload :: "u64 \<Rightarrow> u8 \<Rightarrow> u64 \<Rightarrow> bytes \<Rightarrow> bytes \<Rightarrow> bytes \<Rightarrow> bytes" where
  "record_payload tstamp_ms flags expires_at_ms key val metadata =
     u64_to_le tstamp_ms @ [flags] @ u64_to_le expires_at_ms @
     u32_to_le (of_nat (length key)) @ u32_to_le (of_nat (length val)) @
     u32_to_le (of_nat (length metadata)) @ key @ val @ metadata"

definition encode_into ::
  "(bytes \<Rightarrow> u64) \<Rightarrow> bytes \<Rightarrow> u64 \<Rightarrow> u8 \<Rightarrow> u64 \<Rightarrow> bytes \<Rightarrow> bytes \<Rightarrow> bytes \<Rightarrow> bytes eresult" where
  "encode_into crc buf tstamp_ms flags expires_at_ms key val metadata =
     (if HEADER_LEN + length key + length val + length metadata \<le> u32_max
      then let payload = record_payload tstamp_ms flags expires_at_ms key val metadata
           in Inr (buf @ u64_to_le (crc payload) @ payload)
      else Inl (BadRecord 0 ''record exceeds 4 GiB limit''))"

definition encode ::
  "(bytes \<Rightarrow> u64) \<Rightarrow> u64 \<Rightarrow> u8 \<Rightarrow> u64 \<Rightarrow> bytes \<Rightarrow> bytes \<Rightarrow> bytes \<Rightarrow> bytes eresult" where
  "encode crc tstamp_ms flags expires_at_ms key val metadata =
     encode_into crc [] tstamp_ms flags expires_at_ms key val metadata"

text \<open>
  What one record says, as a value: the specification side of the codec. \<open>enc_rec\<close> is the byte image
  of a record that fits the 4 GiB limit, \<open>rec_header\<close> the header that image carries.
\<close>

record log_rec =
  lr_tstamp :: u64
  lr_flags :: u8
  lr_expires :: u64
  lr_key :: bytes
  lr_val :: bytes
  lr_meta :: bytes

definition rec_fits :: "log_rec \<Rightarrow> bool" where
  "rec_fits r \<longleftrightarrow> HEADER_LEN + length (lr_key r) + length (lr_val r) + length (lr_meta r) \<le> u32_max"

definition rec_payload :: "log_rec \<Rightarrow> bytes" where
  "rec_payload r = record_payload (lr_tstamp r) (lr_flags r) (lr_expires r) (lr_key r) (lr_val r) (lr_meta r)"

definition enc_rec :: "(bytes \<Rightarrow> u64) \<Rightarrow> log_rec \<Rightarrow> bytes" where
  "enc_rec crc r = u64_to_le (crc (rec_payload r)) @ rec_payload r"

definition rec_header :: "(bytes \<Rightarrow> u64) \<Rightarrow> log_rec \<Rightarrow> record_header" where
  "rec_header crc r = \<lparr>hdr_crc = crc (rec_payload r), hdr_tstamp_ms = lr_tstamp r, hdr_flags = lr_flags r,
     hdr_expires_at_ms = lr_expires r, hdr_key_size = of_nat (length (lr_key r)),
     hdr_val_size = of_nat (length (lr_val r)), hdr_meta_size = of_nat (length (lr_meta r))\<rparr>"

definition rec_body :: "log_rec \<Rightarrow> bytes" where
  "rec_body r = lr_key r @ lr_val r @ lr_meta r"

section \<open>Lengths and header fields\<close>

lemma encode_into_enc_rec:
  "encode_into crc buf ts fl ex k v m =
     (let r = \<lparr>lr_tstamp = ts, lr_flags = fl, lr_expires = ex, lr_key = k, lr_val = v, lr_meta = m\<rparr>
      in if rec_fits r then Inr (buf @ enc_rec crc r) else Inl (BadRecord 0 ''record exceeds 4 GiB limit''))"
  by (simp add: encode_into_def Let_def rec_fits_def enc_rec_def rec_payload_def)

lemma length_rec_payload [simp]: "length (rec_payload r) = 29 + length (rec_body r)"
  by (simp add: rec_payload_def record_payload_def rec_body_def)

lemma length_enc_rec [simp]: "length (enc_rec crc r) = HEADER_LEN + length (rec_body r)"
  by (simp add: enc_rec_def)

lemma enc_rec_nonempty [simp]: "enc_rec crc r \<noteq> []"
  using length_enc_rec[of crc r] by (metis add_is_0 list.size(3) zero_neq_numeral)

lemma body_len_rec_header [simp]: "rec_fits r \<Longrightarrow> body_len (rec_header crc r) = length (rec_body r)"
  by (simp add: body_len_def rec_header_def rec_fits_def rec_body_def)

lemma record_len_rec_header [simp]:
  "rec_fits r \<Longrightarrow> record_len (rec_header crc r) = length (enc_rec crc r)"
  by (simp add: record_len_def)

lemma record_len_pos [simp]: "0 < record_len h"
  by (simp add: record_len_def)

text \<open>The header image of a record, laid out field by field.\<close>

definition header_image :: "record_header \<Rightarrow> bytes" where
  "header_image h = u64_to_le (hdr_crc h) @ u64_to_le (hdr_tstamp_ms h) @ [hdr_flags h] @
     u64_to_le (hdr_expires_at_ms h) @ u32_to_le (hdr_key_size h) @ u32_to_le (hdr_val_size h) @
     u32_to_le (hdr_meta_size h)"

lemma length_header_image [simp]: "length (header_image h) = HEADER_LEN"
  by (simp add: header_image_def)

lemma enc_rec_header_image: "enc_rec crc r = header_image (rec_header crc r) @ rec_body r"
  by (simp add: enc_rec_def header_image_def rec_header_def rec_payload_def record_payload_def rec_body_def)

lemma header_slices:
  "subslice (header_image h @ rest) 0 8 = u64_to_le (hdr_crc h)"
  "subslice (header_image h @ rest) 8 8 = u64_to_le (hdr_tstamp_ms h)"
  "(header_image h @ rest) ! 16 = hdr_flags h"
  "subslice (header_image h @ rest) 17 8 = u64_to_le (hdr_expires_at_ms h)"
  "subslice (header_image h @ rest) 25 4 = u32_to_le (hdr_key_size h)"
  "subslice (header_image h @ rest) 29 4 = u32_to_le (hdr_val_size h)"
  "subslice (header_image h @ rest) 33 4 = u32_to_le (hdr_meta_size h)"
  by (simp_all add: header_image_def subslice_def nth_append)

lemma parse_header_image [simp]: "parse_header (header_image h @ rest) off = Inr h"
  by (simp add: parse_header_def u64_le_def u32_le_def get_slice_def header_slices Let_def)

lemma parse_enc_rec [simp]: "parse_header (enc_rec crc r @ rest) off = Inr (rec_header crc r)"
  by (simp add: enc_rec_header_image)

lemma verify_enc_rec [simp]:
  "verify_crc crc (rec_header crc r) (header_image (rec_header crc r)) (rec_body r) off = Inr ()"
proof -
  have "drop 8 (header_image (rec_header crc r)) @ rec_body r = rec_payload r"
    by (simp add: header_image_def rec_header_def rec_payload_def record_payload_def rec_body_def)
  then show ?thesis by (simp add: verify_crc_def rec_header_def)
qed

lemma u32_to_from_le: "length b = 4 \<Longrightarrow> u32_to_le (u32_from_le b) = b"
proof -
  assume b: "length b = 4"
  then have "nat_of_le b < 2 ^ 32" using nat_of_le_less[of b] by simp
  then have "unat (of_nat (nat_of_le b) :: u32) = nat_of_le b" by (simp add: unat_of_nat)
  then show ?thesis using le_of_nat_nat_of_le[of b] b by (simp add: u32_to_le_def u32_from_le_def)
qed

text \<open>Parsing loses nothing: the header bytes are determined by the header.\<close>

lemma parse_header_inverse:
  assumes "parse_header buf off = Inr h"
  shows "take HEADER_LEN buf = header_image h"
proof -
  have len: "HEADER_LEN \<le> length buf"
    using assms by (auto simp: parse_header_def split: if_splits)
  have h: "hdr_crc h = u64_from_le (subslice buf 0 8)" "hdr_tstamp_ms h = u64_from_le (subslice buf 8 8)"
    "hdr_flags h = buf ! 16" "hdr_expires_at_ms h = u64_from_le (subslice buf 17 8)"
    "hdr_key_size h = u32_from_le (subslice buf 25 4)" "hdr_val_size h = u32_from_le (subslice buf 29 4)"
    "hdr_meta_size h = u32_from_le (subslice buf 33 4)"
    using assms len by (auto simp: parse_header_def u64_le_def u32_le_def get_slice_def Let_def)
  have split: "take (i + n) (drop j buf) = subslice buf j i @ take n (drop (j + i) buf)" for i n j
    by (simp add: subslice_def take_add add.commute)
  have one: "take (1 + n) (drop 16 buf) = [buf ! 16] @ take n (drop 17 buf)" for n
    using len by (simp add: Cons_nth_drop_Suc[symmetric])
  have "header_image h = subslice buf 0 8 @ subslice buf 8 8 @ [buf ! 16] @ subslice buf 17 8 @
      subslice buf 25 4 @ subslice buf 29 4 @ subslice buf 33 4"
    using len by (simp add: header_image_def h u64_to_from_le u32_to_from_le)
  also have "\<dots> = take HEADER_LEN buf"
    using split[of 8 29 0] split[of 8 21 8] one[of 20] split[of 8 12 17] split[of 4 8 25]
      split[of 4 4 29] by (simp add: subslice_def[of buf 33 4])
  finally show ?thesis by simp
qed

section \<open>The record codec as a stream codec\<close>

text \<open>
  One step of the scanning loops of \<^verbatim>\<open>recover.rs\<close>: read a header, parse it, read the body it
  announces, check the CRC. \<open>None\<close> is any of the loop's \<^verbatim>\<open>break\<close>s.
\<close>

definition dec_rec :: "(bytes \<Rightarrow> u64) \<Rightarrow> bytes \<Rightarrow> ((record_header \<times> bytes) \<times> nat) option" where
  "dec_rec crc b =
     (if length b < HEADER_LEN then None
      else case parse_header (take HEADER_LEN b) 0 of
        Inl e \<Rightarrow> None
      | Inr h \<Rightarrow>
          if length b < record_len h then None
          else case verify_crc crc h (take HEADER_LEN b) (subslice b HEADER_LEN (body_len h)) 0 of
            Inl e \<Rightarrow> None
          | Inr u \<Rightarrow> Some ((h, subslice b HEADER_LEN (body_len h)), record_len h))"

lemma parse_header_take: "parse_header (take HEADER_LEN b) off = parse_header (take HEADER_LEN b @ c) off'
    \<or> length b < HEADER_LEN"
proof (cases "length b < HEADER_LEN")
  case False
  then obtain h where "take HEADER_LEN b = header_image h"
  proof -
    have "\<exists>h. parse_header (take HEADER_LEN b) 0 = Inr h"
      using False by (simp add: parse_header_def u64_le_def u32_le_def get_slice_def Let_def)
    then show ?thesis using that parse_header_inverse[of "take HEADER_LEN b" 0] by auto
  qed
  then show ?thesis using parse_header_image[of h "[]" off] by simp
qed simp

lemma dec_rec_enc: "rec_fits r \<Longrightarrow>
  dec_rec crc (enc_rec crc r @ rest) = Some ((rec_header crc r, rec_body r), length (enc_rec crc r))"
proof -
  assume fits: "rec_fits r"
  have t: "take HEADER_LEN (enc_rec crc r @ rest) = header_image (rec_header crc r)"
    by (simp add: enc_rec_header_image)
  have s: "subslice (enc_rec crc r @ rest) HEADER_LEN (length (rec_body r)) = rec_body r"
    by (simp add: enc_rec_header_image subslice_append_eq)
  have "\<not> length (enc_rec crc r @ rest) < HEADER_LEN" by simp
  then show ?thesis
    using fits parse_header_image[of "rec_header crc r" "[]" 0]
    unfolding dec_rec_def t by (simp add: s)
qed

lemma dec_rec_torn: "rec_fits r \<Longrightarrow> n < length (enc_rec crc r) \<Longrightarrow> dec_rec crc (take n (enc_rec crc r)) = None"
proof -
  assume fits: "rec_fits r" and n: "n < length (enc_rec crc r)"
  show ?thesis
  proof (cases "n < HEADER_LEN")
    case True
    then show ?thesis by (simp add: dec_rec_def min_def)
  next
    case False
    then have "take HEADER_LEN (take n (enc_rec crc r)) = header_image (rec_header crc r)"
      by (simp add: enc_rec_header_image min_def)
    then show ?thesis
      using False n fits parse_header_image[of "rec_header crc r" "[]" 0]
      by (simp add: dec_rec_def min_def)
  qed
qed

interpretation rec_codec: stream_codec "enc_rec crc" "dec_rec crc" "\<lambda>r. (rec_header crc r, rec_body r)" rec_fits
  for crc
  by unfold_locales (auto simp: dec_rec_enc dec_rec_torn)

section \<open>Properties\<close>

text \<open>
  C17. A record that \<^verbatim>\<open>encode_into\<close> accepts is recovered byte for byte: parsing the bytes it appended,
  whatever follows them, gives back timestamp, flags and expiry; the CRC verifies; and the announced sizes
  cut the body into exactly the key, value and metadata that were encoded.
\<close>

theorem record_roundtrip:
  assumes "encode_into crc buf ts fl ex k v m = Inr out"
  shows "\<exists>h hb. out = buf @ hb @ k @ v @ m \<and> length hb = HEADER_LEN \<and>
    parse_header (hb @ rest) off = Inr h \<and> verify_crc crc h hb (k @ v @ m) off = Inr () \<and>
    hdr_tstamp_ms h = ts \<and> hdr_flags h = fl \<and> hdr_expires_at_ms h = ex \<and>
    unat (hdr_key_size h) = length k \<and> unat (hdr_val_size h) = length v \<and> unat (hdr_meta_size h) = length m"
proof -
  let ?r = "\<lparr>lr_tstamp = ts, lr_flags = fl, lr_expires = ex, lr_key = k, lr_val = v, lr_meta = m\<rparr>"
  have fits: "rec_fits ?r" and out: "out = buf @ enc_rec crc ?r"
    using assms by (auto simp: encode_into_enc_rec Let_def split: if_splits)
  have "verify_crc crc (rec_header crc ?r) (header_image (rec_header crc ?r)) (k @ v @ m) off = Inr ()"
    using verify_enc_rec[of crc ?r off] by (simp add: rec_body_def)
  then show ?thesis
    using fits out
    by (intro exI[of _ "rec_header crc ?r"] exI[of _ "header_image (rec_header crc ?r)"])
      (simp add: enc_rec_header_image rec_body_def, simp add: rec_header_def rec_fits_def)
qed

theorem record_roundtrip_witness:
  "\<exists>out h hb. encode_into (\<lambda>b. of_nat (sum_list (map unat b))) [9] 5 0 7 [1] [2, 3] [] = Inr out \<and>
     out = [9] @ hb @ [1, 2, 3] \<and> parse_header (hb @ [0]) 0 = Inr h \<and> hdr_tstamp_ms h = 5"
proof -
  obtain out where "encode_into (\<lambda>b. of_nat (sum_list (map unat b))) [9] 5 0 7 [1] [2, 3] [] = Inr out"
    by (simp add: encode_into_def Let_def)
  with record_roundtrip[OF this, of "[0]" 0] show ?thesis by auto
qed

end
