(* ===== verification/Log_File.thy ===== *)
theory Log_File
  imports Log_Record
begin

text \<open>
  \<^verbatim>\<open>engine/src/log/file.rs\<close>: an open log file, its append/read primitives and the sealed-file footer.
  What the kernel answers is the file's \<open>device\<close>: which offsets read with an error, where a write
  stops short, whether \<^verbatim>\<open>fsync\<close>, \<^verbatim>\<open>metadata\<close> and \<^verbatim>\<open>set_len\<close> fail. The lemmas show that an append lands at the
  reserved offset, that a failed append poisons the file, and the footer's round trip.
\<close>

section \<open>Model\<close>

record device =
  dv_read_faults :: "(nat \<times> io_error) list"
  dv_write_faults :: "(nat \<times> nat \<times> io_error) list"
  dv_sync_err :: "io_error option"
  dv_size_err :: "io_error option"
  dv_trunc_err :: "io_error option"

definition dv_read_err :: "device \<Rightarrow> nat \<Rightarrow> io_error option" where
  "dv_read_err d = map_of (dv_read_faults d)"

definition dv_write_err :: "device \<Rightarrow> nat \<Rightarrow> (nat \<times> io_error) option" where
  "dv_write_err d = map_of (dv_write_faults d)"

definition healthy_device :: device where
  "healthy_device = \<lparr>dv_read_faults = [], dv_write_faults = [], dv_sync_err = None, dv_size_err = None,
     dv_trunc_err = None\<rparr>"

lemma healthy_device_simps [simp]:
  "dv_read_err healthy_device = (\<lambda>i. None)" "dv_write_err healthy_device = (\<lambda>i. None)"
  "dv_sync_err healthy_device = None" "dv_size_err healthy_device = None" "dv_trunc_err healthy_device = None"
  by (auto simp: healthy_device_def dv_read_err_def dv_write_err_def)

record log_file =
  lf_file_id :: nat
  lf_data :: bytes
  lf_dev :: device
  lf_write_offset :: nat
  lf_poisoned :: bool

text \<open>\<^verbatim>\<open>open_rw\<close>/\<^verbatim>\<open>open_ro\<close> once the kernel has opened a file that holds \<open>data\<close>.\<close>

definition open_file :: "nat \<Rightarrow> device \<Rightarrow> bytes \<Rightarrow> log_file eresult" where
  "open_file file_id dev data =
     (case dv_size_err dev of
        Some e \<Rightarrow> Inl (Io e)
      | None \<Rightarrow> Inr \<lparr>lf_file_id = file_id, lf_data = data, lf_dev = dev,
                     lf_write_offset = length data, lf_poisoned = False\<rparr>)"

definition lf_size :: "log_file \<Rightarrow> nat eresult" where
  "lf_size f = (case dv_size_err (lf_dev f) of Some e \<Rightarrow> Inl (Io e) | None \<Rightarrow> Inr (length (lf_data f)))"

definition read_exact :: "log_file \<Rightarrow> nat \<Rightarrow> nat \<Rightarrow> bytes eresult" where
  "read_exact f offset n =
     (case dv_read_err (lf_dev f) offset of
        Some e \<Rightarrow> Inl (Io e)
      | None \<Rightarrow> let b = subslice (lf_data f) offset n
                in if length b < n then Inl (Io UnexpectedEof) else Inr b)"

definition read_at :: "log_file \<Rightarrow> nat \<Rightarrow> nat \<Rightarrow> bytes eresult" where
  "read_at f offset n =
     (case dv_read_err (lf_dev f) offset of
        Some e \<Rightarrow> Inl (Io e)
      | None \<Rightarrow> Inr (subslice (lf_data f) offset n))"

text \<open>Positioned write; a write past the end leaves a zero-filled gap.\<close>

definition pwrite :: "bytes \<Rightarrow> nat \<Rightarrow> bytes \<Rightarrow> bytes" where
  "pwrite data off buf = take off data @ replicate (off - length data) 0 @ buf @ drop (off + length buf) data"

definition append_buf :: "log_file \<Rightarrow> bytes \<Rightarrow> nat eresult \<times> log_file" where
  "append_buf f buf =
     (if lf_poisoned f then (Inl (Io Poisoned), f)
      else let offset = lf_write_offset f;
               f1 = f\<lparr>lf_write_offset := offset + length buf\<rparr>
           in case dv_write_err (lf_dev f) offset of
                Some (n, e) \<Rightarrow>
                  (Inl (Io e),
                   f1\<lparr>lf_data := pwrite (lf_data f) offset (take n buf), lf_poisoned := True\<rparr>)
              | None \<Rightarrow> (Inr offset, f1\<lparr>lf_data := pwrite (lf_data f) offset buf\<rparr>))"

definition lf_sync :: "log_file \<Rightarrow> unit eresult" where
  "lf_sync f = (case dv_sync_err (lf_dev f) of Some e \<Rightarrow> Inl (Io e) | None \<Rightarrow> Inr ())"

definition truncate_to :: "log_file \<Rightarrow> nat \<Rightarrow> log_file eresult" where
  "truncate_to f n =
     (case dv_trunc_err (lf_dev f) of
        Some e \<Rightarrow> Inl (Io e)
      | None \<Rightarrow>
          Inr (f\<lparr>lf_data := take n (lf_data f) @ replicate (n - length (lf_data f)) 0, lf_write_offset := n\<rparr>))"

subsection \<open>The footer\<close>

definition FOOTER_MAGIC :: u64 where
  "FOOTER_MAGIC = 0x42594F4E445F4B58"

abbreviation FOOTER_TRAILER_LEN :: nat where
  "FOOTER_TRAILER_LEN \<equiv> 24"

record footer_entry =
  fe_key :: bytes
  fe_record_offset :: nat
  fe_record_size :: nat
  fe_expires_at_ms :: "u64 option"
  fe_tstamp_ms :: u64
  fe_value_hash :: "bytes option"

definition fe_encoded_size :: "footer_entry \<Rightarrow> nat" where
  "fe_encoded_size e = 4 + 8 + 4 + 8 + 1 + 8 + 1 + (if fe_value_hash e \<noteq> None then 16 else 0) + length (fe_key e)"

definition fe_encode :: "footer_entry \<Rightarrow> bytes" where
  "fe_encode e =
     u32_to_le (of_nat (length (fe_key e))) @ u64_to_le (of_nat (fe_record_offset e)) @
     u32_to_le (of_nat (fe_record_size e)) @
     (case fe_expires_at_ms e of
        Some ms \<Rightarrow> u64_to_le ms @ [1]
      | None \<Rightarrow> u64_to_le 0 @ [0]) @
     u64_to_le (fe_tstamp_ms e) @
     (case fe_value_hash e of Some h \<Rightarrow> 1 # h | None \<Rightarrow> [0]) @ fe_key e"

definition fe_parse :: "bytes \<Rightarrow> (footer_entry \<times> nat) option" where
  "fe_parse buf =
     (if length buf < 34 then None
      else let key_size = unat (u32_from_le (subslice buf 0 4));
               record_offset = unat (u64_from_le (subslice buf 4 8));
               record_size = unat (u32_from_le (subslice buf 12 4));
               expires_ms = u64_from_le (subslice buf 16 8);
               has_expiry = buf ! 24;
               tstamp_ms = u64_from_le (subslice buf 25 8);
               has_valsep = buf ! 33;
               finish = (\<lambda>cursor value_hash.
                 if length buf < cursor + key_size then None
                 else Some (\<lparr>fe_key = subslice buf cursor key_size, fe_record_offset = record_offset,
                             fe_record_size = record_size,
                             fe_expires_at_ms = (if has_expiry \<noteq> 0 then Some expires_ms else None),
                             fe_tstamp_ms = tstamp_ms, fe_value_hash = value_hash\<rparr>,
                            cursor + key_size))
           in if has_valsep \<noteq> 0
              then if length buf < 34 + 16 then None else finish (34 + 16) (Some (subslice buf 34 16))
              else finish 34 None)"

definition footer_body :: "footer_entry list \<Rightarrow> bytes" where
  "footer_body es = concat (map fe_encode es)"

definition footer_trailer :: "(bytes \<Rightarrow> u64) \<Rightarrow> bytes \<Rightarrow> bytes" where
  "footer_trailer crc body = u64_to_le (of_nat (length body)) @ u64_to_le (crc body) @ u64_to_le FOOTER_MAGIC"

definition write_footer :: "(bytes \<Rightarrow> u64) \<Rightarrow> log_file \<Rightarrow> footer_entry list \<Rightarrow> unit eresult \<times> log_file" where
  "write_footer crc f es =
     (let body = footer_body es; trailer = footer_trailer crc body in
      case append_buf f body of
        (Inl e, f1) \<Rightarrow> (Inl e, f1)
      | (Inr _, f1) \<Rightarrow>
          (case append_buf f1 trailer of
             (Inl e, f2) \<Rightarrow> (Inl e, f2)
           | (Inr _, f2) \<Rightarrow> (lf_sync f2, f2)))"

lemma fe_parse_used: "fe_parse b = Some (e, n) \<Longrightarrow> 34 \<le> n \<and> n \<le> length b"
  by (auto simp: fe_parse_def Let_def split: if_splits)

text \<open>The entry loop of \<^verbatim>\<open>read_footer\<close>.\<close>

function parse_footer_entries :: "bytes \<Rightarrow> nat \<Rightarrow> nat \<Rightarrow> footer_entry list \<Rightarrow> footer_entry list eresult" where
  "parse_footer_entries body body_offset cursor acc =
     (if cursor < length body
      then case fe_parse (drop cursor body) of
             None \<Rightarrow> Inl (BadRecord (body_offset + cursor) ''malformed footer entry'')
           | Some (e, used) \<Rightarrow> parse_footer_entries body body_offset (cursor + used) (acc @ [e])
      else Inr acc)"
  by pat_completeness auto
termination
  by (relation "measure (\<lambda>(body, bo, cursor, acc). length body - cursor)") (auto dest: fe_parse_used)

declare parse_footer_entries.simps [simp del]

definition read_footer :: "(bytes \<Rightarrow> u64) \<Rightarrow> log_file \<Rightarrow> footer_entry list option eresult" where
  "read_footer crc f =
     rbind (lf_size f) (\<lambda>total_size.
       if total_size < FOOTER_TRAILER_LEN then Inr None
       else rbind (read_exact f (total_size - FOOTER_TRAILER_LEN) FOOTER_TRAILER_LEN) (\<lambda>trailer.
         let body_len = unat (u64_from_le (subslice trailer 0 8));
             stored_crc = u64_from_le (subslice trailer 8 8);
             magic = u64_from_le (subslice trailer 16 8)
         in if magic \<noteq> FOOTER_MAGIC then Inr None
            else if body_len > total_size - FOOTER_TRAILER_LEN
            then Inl (BadRecord (total_size - FOOTER_TRAILER_LEN) ''footer body length out of range'')
            else let body_offset = total_size - FOOTER_TRAILER_LEN - body_len
                 in rbind (read_exact f body_offset body_len) (\<lambda>body.
                      if crc body \<noteq> stored_crc then Inl (CrcMismatch body_offset)
                      else rbind (parse_footer_entries body body_offset 0 []) (\<lambda>es. Inr (Some es)))))"

text \<open>
  \<^verbatim>\<open>data_end_offset\<close>. \<^verbatim>\<open>FOOTER_TRAILER_LEN + body_len\<close> is a \<^verbatim>\<open>u64\<close> sum and wraps; the subtraction
  saturates.
\<close>

definition data_end_offset :: "log_file \<Rightarrow> nat" where
  "data_end_offset f =
     (let total = lf_write_offset f in
      if total < FOOTER_TRAILER_LEN then total
      else case read_exact f (total - 8) 8 of
             Inl e \<Rightarrow> total
           | Inr magic_bytes \<Rightarrow>
               if u64_from_le magic_bytes \<noteq> FOOTER_MAGIC then total
               else (case read_exact f (total - FOOTER_TRAILER_LEN) 8 of
                       Inl e \<Rightarrow> total
                     | Inr blen_bytes \<Rightarrow>
                         total - unat ((of_nat FOOTER_TRAILER_LEN :: u64) + u64_from_le blen_bytes)))"

section \<open>Appends and reads\<close>

text \<open>A file between operations: nothing reserved past the end of what is on disk.\<close>

definition lf_tight :: "log_file \<Rightarrow> bool" where
  "lf_tight f \<longleftrightarrow> lf_write_offset f = length (lf_data f) \<and> \<not> lf_poisoned f"

definition writes_ok :: "log_file \<Rightarrow> bool" where
  "writes_ok f \<longleftrightarrow> dv_write_err (lf_dev f) = (\<lambda>_. None) \<and> dv_sync_err (lf_dev f) = None"

definition reads_ok :: "log_file \<Rightarrow> bool" where
  "reads_ok f \<longleftrightarrow> dv_read_err (lf_dev f) = (\<lambda>_. None) \<and> dv_size_err (lf_dev f) = None"

lemma pwrite_end [simp]: "pwrite data (length data) buf = data @ buf"
  by (simp add: pwrite_def)

lemma append_tight:
  "lf_tight f \<Longrightarrow> writes_ok f \<Longrightarrow>
     append_buf f buf = (Inr (length (lf_data f)),
       f\<lparr>lf_data := lf_data f @ buf, lf_write_offset := length (lf_data f) + length buf\<rparr>)"
  by (simp add: append_buf_def lf_tight_def writes_ok_def Let_def)

lemma append_keeps [simp]:
  "lf_file_id (snd (append_buf f buf)) = lf_file_id f" "lf_dev (snd (append_buf f buf)) = lf_dev f"
  by (auto simp: append_buf_def Let_def split: option.splits)

lemma append_poisoned: "lf_poisoned f \<Longrightarrow> append_buf f buf = (Inl (Io Poisoned), f)"
  by (simp add: append_buf_def)

lemma append_fail_poisons: "append_buf f buf = (Inl e, f') \<Longrightarrow> lf_poisoned f'"
  by (auto simp: append_buf_def Let_def split: if_splits option.splits)

lemma pwrite_keeps_prefix: "off = length data \<Longrightarrow> take off (pwrite data off buf) = data"
  by simp

lemma read_exact_ok:
  "reads_ok f \<Longrightarrow> off + n \<le> length (lf_data f) \<Longrightarrow> read_exact f off n = Inr (subslice (lf_data f) off n)"
  by (simp add: read_exact_def reads_ok_def Let_def)

section \<open>The footer codec\<close>

definition fe_ok :: "footer_entry \<Rightarrow> bool" where
  "fe_ok e \<longleftrightarrow> length (fe_key e) \<le> u32_max \<and> fe_record_offset e \<le> u64_max \<and> fe_record_size e \<le> u32_max \<and>
     (\<forall>h. fe_value_hash e = Some h \<longrightarrow> length h = 16)"

lemma length_fe_encode: "fe_ok e \<Longrightarrow> length (fe_encode e) = fe_encoded_size e"
  by (auto simp: fe_encode_def fe_encoded_size_def fe_ok_def split: option.splits)

lemma fe_encode_ge: "34 \<le> length (fe_encode e)"
  by (auto simp: fe_encode_def split: option.splits)

text \<open>The fixed 34-byte prefix of an encoded entry.\<close>

definition fe_prefix :: "footer_entry \<Rightarrow> bytes" where
  "fe_prefix e =
     u32_to_le (of_nat (length (fe_key e))) @ u64_to_le (of_nat (fe_record_offset e)) @
     u32_to_le (of_nat (fe_record_size e)) @
     u64_to_le (case fe_expires_at_ms e of Some ms \<Rightarrow> ms | None \<Rightarrow> 0) @
     [if fe_expires_at_ms e = None then 0 else 1] @ u64_to_le (fe_tstamp_ms e) @
     [if fe_value_hash e = None then 0 else 1]"

abbreviation fe_hash_bytes :: "footer_entry \<Rightarrow> bytes" where
  "fe_hash_bytes e \<equiv> (case fe_value_hash e of Some h \<Rightarrow> h | None \<Rightarrow> [])"

lemma fe_encode_prefix: "fe_encode e = fe_prefix e @ fe_hash_bytes e @ fe_key e"
  by (simp add: fe_encode_def fe_prefix_def split: option.splits)

lemma length_fe_prefix [simp]: "length (fe_prefix e) = 34"
  by (simp add: fe_prefix_def)

lemma fe_prefix_slices:
  "subslice (fe_prefix e @ t) 0 4 = u32_to_le (of_nat (length (fe_key e)))"
  "subslice (fe_prefix e @ t) 4 8 = u64_to_le (of_nat (fe_record_offset e))"
  "subslice (fe_prefix e @ t) 12 4 = u32_to_le (of_nat (fe_record_size e))"
  "subslice (fe_prefix e @ t) 16 8 = u64_to_le (case fe_expires_at_ms e of Some ms \<Rightarrow> ms | None \<Rightarrow> 0)"
  "(fe_prefix e @ t) ! 24 = (if fe_expires_at_ms e = None then 0 else 1)"
  "subslice (fe_prefix e @ t) 25 8 = u64_to_le (fe_tstamp_ms e)"
  "(fe_prefix e @ t) ! 33 = (if fe_value_hash e = None then 0 else 1)"
  by (simp_all add: fe_prefix_def subslice_def nth_append)

text \<open>Parsing any bytes that start with the prefix: whether it succeeds depends on the length alone.\<close>

lemma fe_parse_prefix:
  assumes "fe_ok e"
  shows "fe_parse (fe_prefix e @ t) =
    (if length t < length (fe_hash_bytes e @ fe_key e) then None
     else Some (e\<lparr>fe_value_hash := (if fe_value_hash e = None then None else Some (take 16 t)),
                  fe_key := subslice t (length (fe_hash_bytes e)) (length (fe_key e))\<rparr>,
                34 + length (fe_hash_bytes e @ fe_key e)))"
proof (cases "fe_value_hash e")
  case None
  then show ?thesis
    using assms subslice_append_right[of "fe_prefix e" t 0 "length (fe_key e)"]
    by (auto simp: fe_parse_def Let_def fe_prefix_slices fe_ok_def split: option.splits)
next
  case (Some h)
  then show ?thesis
    using assms subslice_append_right[of "fe_prefix e" t 0 16]
      subslice_append_right[of "fe_prefix e" t 16 "length (fe_key e)"]
    by (auto simp: fe_parse_def Let_def fe_prefix_slices fe_ok_def subslice_def[of t 0 16] split: option.splits)
qed

lemma fe_parse_encode: "fe_ok e \<Longrightarrow> fe_parse (fe_encode e @ rest) = Some (e, length (fe_encode e))"
  by (cases "fe_value_hash e")
    (auto simp: fe_encode_prefix fe_parse_prefix fe_ok_def subslice_def)

lemma fe_parse_torn:
  assumes "fe_ok e" "n < length (fe_encode e)"
  shows "fe_parse (take n (fe_encode e)) = None"
proof (cases "n < 34")
  case True
  then show ?thesis by (simp add: fe_parse_def min_def)
next
  case False
  then have "take n (fe_encode e) = fe_prefix e @ take (n - 34) (fe_hash_bytes e @ fe_key e)"
    by (simp add: fe_encode_prefix)
  then show ?thesis
    using assms False by (simp add: fe_parse_prefix fe_encode_prefix)
qed

interpretation fe_codec: stream_codec fe_encode fe_parse "\<lambda>e. e" fe_ok
proof
  show "fe_encode x \<noteq> []" for x
    using fe_encode_ge[of x] by auto
qed (simp_all add: fe_parse_encode fe_parse_torn)

lemma footer_body_image: "footer_body es = fe_codec.image es"
  by (simp add: footer_body_def fe_codec.image_def)

text \<open>The loop of \<^verbatim>\<open>read_footer\<close> is the generic reading loop, with an error where that one stops short.\<close>

lemma parse_footer_entries_stream:
  "cursor \<le> length body \<Longrightarrow>
   parse_footer_entries body bo cursor acc =
     (let (es, rest) = parse_stream fe_parse (drop cursor body)
      in if rest = [] then Inr (acc @ es)
         else Inl (BadRecord (bo + (length body - length rest)) ''malformed footer entry''))"
proof (induction body bo cursor acc rule: parse_footer_entries.induct)
  case (1 body bo cursor acc)
  show ?case
  proof (cases "cursor < length body")
    case False
    moreover have "fe_parse [] = None" by (simp add: fe_parse_def)
    ultimately show ?thesis
      using 1(2) by (simp add: parse_footer_entries.simps[of body] parse_stream_None)
  next
    case True
    show ?thesis
    proof (cases "fe_parse (drop cursor body)")
      case None
      then show ?thesis
        using True by (simp add: parse_footer_entries.simps[of body] parse_stream_None)
    next
      case (Some p)
      then obtain e used where p: "fe_parse (drop cursor body) = Some (e, used)" by (cases p) auto
      have used: "0 < used" "used \<le> length (drop cursor body)"
        using fe_parse_used[OF p] by auto
      then have "cursor + used \<le> length body" using True by simp
      from 1(1)[OF True p refl this] show ?thesis
        using True p parse_stream_step[of fe_parse, OF p used]
        by (simp add: parse_footer_entries.simps[of body bo cursor acc] Let_def case_prod_beta add.commute)
    qed
  qed
qed

lemma parse_footer_entries_body:
  "list_all fe_ok es \<Longrightarrow> parse_footer_entries (footer_body es) bo 0 [] = Inr es"
  using fe_codec.parse_image_stop[of es "[]"] fe_parse_def[of "[]"]
  by (simp add: parse_footer_entries_stream footer_body_image)

lemma length_footer_trailer [simp]: "length (footer_trailer crc body) = 24"
  by (simp add: footer_trailer_def)

lemma footer_trailer_slices:
  "subslice (footer_trailer crc body) 0 8 = u64_to_le (of_nat (length body))"
  "subslice (footer_trailer crc body) 8 8 = u64_to_le (crc body)"
  "subslice (footer_trailer crc body) 16 8 = u64_to_le FOOTER_MAGIC"
  by (simp_all add: footer_trailer_def subslice_def)

lemma write_footer_tight:
  "lf_tight f \<Longrightarrow> writes_ok f \<Longrightarrow>
   write_footer crc f es = (Inr (),
     f\<lparr>lf_data := lf_data f @ footer_body es @ footer_trailer crc (footer_body es),
       lf_write_offset := length (lf_data f) + length (footer_body es) + FOOTER_TRAILER_LEN\<rparr>)"
  by (simp add: write_footer_def append_tight Let_def lf_tight_def writes_ok_def append_buf_def
      pwrite_def lf_sync_def)

text \<open>A file whose data ends in a footer yields the footer's entries.\<close>

lemma read_footer_sealed:
  assumes f: "reads_ok f" "lf_data f = recs @ footer_body es @ footer_trailer crc (footer_body es)"
    and ok: "list_all fe_ok es" and fits: "length (footer_body es) \<le> u64_max"
  shows "read_footer crc f = Inr (Some es)"
proof -
  let ?body = "footer_body es"
  have size: "lf_size f = Inr (length recs + length ?body + 24)"
    using f by (simp add: lf_size_def reads_ok_def)
  have tr: "read_exact f (length recs + length ?body) 24 = Inr (footer_trailer crc ?body)"
    using f read_exact_ok[of f "length recs + length ?body" 24]
      subslice_append_eq[of "length recs + length ?body" "recs @ ?body" 24 "footer_trailer crc ?body" "[]"]
    by simp
  have bd: "read_exact f (length recs) (length ?body) = Inr ?body"
    using f read_exact_ok[of f "length recs" "length ?body"]
      subslice_append_eq[of "length recs" recs "length ?body" ?body] by simp
  show ?thesis
    using fits ok by (simp add: read_footer_def size tr footer_trailer_slices bd parse_footer_entries_body)
qed

lemma data_end_offset_sealed:
  assumes f: "reads_ok f" "lf_data f = recs @ footer_body es @ footer_trailer crc (footer_body es)"
    "lf_write_offset f = length (lf_data f)" and fits: "length (footer_body es) + 24 \<le> u64_max"
  shows "data_end_offset f = length recs"
proof -
  let ?body = "footer_body es" and ?n = "length recs + length (footer_body es)"
  have rd: "read_exact f (length recs + (length ?body + i)) 8 = Inr (subslice (footer_trailer crc ?body) i 8)" if "i \<le> 16" for i
    using f that read_exact_ok[of f "?n + i" 8]
      subslice_append_right[of "recs @ ?body" "footer_trailer crc ?body" i 8] by (simp add: add.assoc)
  have "unat ((24 :: u64) + of_nat (length ?body)) = 24 + length ?body"
    using fits by (simp add: unat_word_ariths)
  then show ?thesis
    using f fits rd[of 16] rd[of 0]
    by (simp add: data_end_offset_def Let_def footer_trailer_slices add.commute[of 16] add.assoc)
qed

section \<open>Properties\<close>

text \<open>
  C18. Sealing a file and reading it back: after \<^verbatim>\<open>write_footer\<close> on a healthy file, \<^verbatim>\<open>read_footer\<close> returns
  exactly the entries written, \<^verbatim>\<open>data_end_offset\<close> is where the records ended, and the record bytes are
  untouched.
\<close>

theorem footer_roundtrip:
  assumes "lf_tight f" "writes_ok f" "reads_ok f" "list_all fe_ok es" "length (footer_body es) + 24 \<le> u64_max"
  shows "\<exists>f'. write_footer crc f es = (Inr (), f') \<and> read_footer crc f' = Inr (Some es) \<and>
    data_end_offset f' = length (lf_data f) \<and> take (length (lf_data f)) (lf_data f') = lf_data f"
proof -
  obtain f' where f': "write_footer crc f es = (Inr (), f')"
    and d: "lf_data f' = lf_data f @ footer_body es @ footer_trailer crc (footer_body es)"
      "lf_write_offset f' = length (lf_data f')" "reads_ok f'"
    using write_footer_tight[OF assms(1,2), of crc es] assms(3) by (auto simp: reads_ok_def)
  with read_footer_sealed[OF d(3,1) assms(4)] data_end_offset_sealed[OF d(3,1,2)] assms(5)
  show ?thesis by auto
qed

theorem footer_roundtrip_witness:
  "\<exists>f'. write_footer (\<lambda>b. of_nat (length b)) \<lparr>lf_file_id = 0, lf_data = [1, 2, 3], lf_dev = healthy_device,
        lf_write_offset = 3, lf_poisoned = False\<rparr>
      [\<lparr>fe_key = [7], fe_record_offset = 0, fe_record_size = 3, fe_expires_at_ms = None, fe_tstamp_ms = 9, fe_value_hash = None\<rparr>]
      = (Inr (), f') \<and> data_end_offset f' = 3"
proof -
  let ?f = "\<lparr>lf_file_id = 0, lf_data = [1, 2, 3], lf_dev = healthy_device, lf_write_offset = 3, lf_poisoned = False\<rparr>"
  let ?e = "\<lparr>fe_key = [7], fe_record_offset = 0, fe_record_size = 3, fe_expires_at_ms = None, fe_tstamp_ms = 9, fe_value_hash = None\<rparr>"
  have "lf_tight ?f" "writes_ok ?f" "reads_ok ?f"
    by (simp_all add: lf_tight_def writes_ok_def reads_ok_def)
  moreover have "list_all fe_ok [?e]" "length (footer_body [?e]) + 24 \<le> u64_max"
    by (simp_all add: fe_ok_def footer_body_def fe_encode_def)
  ultimately obtain f' where "write_footer (\<lambda>b. of_nat (length b)) ?f [?e] = (Inr (), f')"
      "data_end_offset f' = length (lf_data ?f)"
    using footer_roundtrip[of ?f "[?e]" "\<lambda>b. of_nat (length b)"] by blast
  then show ?thesis by (intro exI[of _ f']) simp
qed



end
