(* ===== verification/Ns_Index.thy ===== *)
theory Ns_Index
  imports Engine_Types
begin

text \<open>
  \<^verbatim>\<open>engine/src/log/index.rs\<close>: the in-memory index of a namespace. An ordered map from keys to record
  locations, the TTL and value-separation sidecars, and the live-key counter. The lemmas show that the
  counter is the number of keys after every operation, what each operation does to every lookup, that a
  page of \<^verbatim>\<open>scan\<close> is the first \<open>count\<close> live matching keys after the cursor, and that a key present
  through a whole scan is returned exactly once whatever else changes between pages.
\<close>

section \<open>Model\<close>

record index_entry =
  ie_record_offset :: nat
  ie_record_size :: nat
  ie_file_id :: nat
  ie_tstamp_ms :: u64

definition index_entry_new :: "nat \<Rightarrow> nat \<Rightarrow> nat \<Rightarrow> u64 \<Rightarrow> index_entry" where
  "index_entry_new file_id record_offset record_size tstamp_ms =
     \<lparr>ie_record_offset = record_offset, ie_record_size = record_size, ie_file_id = file_id,
      ie_tstamp_ms = tstamp_ms\<rparr>"

record ns_index =
  ix_map :: "(bytes, index_entry) omap"
  ix_ttl :: "(bytes, u64) omap"
  ix_valsep :: "(bytes, bytes) omap"
  ix_live_count :: nat

definition ix_new :: ns_index where
  "ix_new = \<lparr>ix_map = om_empty, ix_ttl = om_empty, ix_valsep = om_empty, ix_live_count = 0\<rparr>"

definition valsep :: "ns_index \<Rightarrow> bytes \<Rightarrow> bytes option" where
  "valsep ix key = om_lookup (ix_valsep ix) key"

definition set_valsep :: "bytes \<Rightarrow> bytes option \<Rightarrow> ns_index \<Rightarrow> ns_index" where
  "set_valsep key hash ix =
     (case hash of
        Some h \<Rightarrow> ix\<lparr>ix_valsep := om_insert key h (ix_valsep ix)\<rparr>
      | None \<Rightarrow> ix\<lparr>ix_valsep := om_delete key (ix_valsep ix)\<rparr>)"

definition ix_len :: "ns_index \<Rightarrow> nat" where
  "ix_len ix = om_size (ix_map ix)"

definition ix_get :: "ns_index \<Rightarrow> bytes \<Rightarrow> index_entry option" where
  "ix_get ix key = om_lookup (ix_map ix) key"

definition ttl_of :: "ns_index \<Rightarrow> bytes \<Rightarrow> u64 option" where
  "ttl_of ix key = om_lookup (ix_ttl ix) key"

definition set_ttl :: "bytes \<Rightarrow> u64 option \<Rightarrow> ns_index \<Rightarrow> ns_index" where
  "set_ttl key expires_at_ms ix =
     (case expires_at_ms of
        Some ms \<Rightarrow> ix\<lparr>ix_ttl := om_insert key ms (ix_ttl ix)\<rparr>
      | None \<Rightarrow> ix\<lparr>ix_ttl := om_delete key (ix_ttl ix)\<rparr>)"

definition ix_insert :: "bytes \<Rightarrow> index_entry \<Rightarrow> u64 option \<Rightarrow> ns_index \<Rightarrow> ns_index" where
  "ix_insert key ent expires_at_ms ix =
     (let ix1 = set_ttl key expires_at_ms ix;
          ix2 = ix1\<lparr>ix_map := om_insert key ent (ix_map ix1)\<rparr>
      in if om_lookup (ix_map ix1) key = None then ix2\<lparr>ix_live_count := ix_live_count ix1 + 1\<rparr> else ix2)"

definition ix_remove :: "bytes \<Rightarrow> ns_index \<Rightarrow> index_entry option \<times> ns_index" where
  "ix_remove key ix =
     (let ix1 = ix\<lparr>ix_ttl := om_delete key (ix_ttl ix), ix_valsep := om_delete key (ix_valsep ix)\<rparr>;
          removed = om_lookup (ix_map ix1) key;
          ix2 = ix1\<lparr>ix_map := om_delete key (ix_map ix1)\<rparr>
      in (removed, if removed \<noteq> None then ix2\<lparr>ix_live_count := ix_live_count ix2 - 1\<rparr> else ix2))"

definition ix_clear :: "ns_index \<Rightarrow> ns_index" where
  "ix_clear ix = ix\<lparr>ix_map := om_empty, ix_ttl := om_empty, ix_valsep := om_empty, ix_live_count := 0\<rparr>"

definition is_expired :: "ns_index \<Rightarrow> bytes \<Rightarrow> u64 \<Rightarrow> bool" where
  "is_expired ix key now_ms = (case om_lookup (ix_ttl ix) key of Some ms \<Rightarrow> ms \<le> now_ms | None \<Rightarrow> False)"

text \<open>The keys of \<^verbatim>\<open>map.range((start, Unbounded))\<close>.\<close>

definition keys_after :: "bytes option \<Rightarrow> ns_index \<Rightarrow> bytes list" where
  "keys_after cursor ix =
     (case cursor of
        None \<Rightarrow> om_keys (ix_map ix)
      | Some c \<Rightarrow> filter (\<lambda>k. c < k) (om_keys (ix_map ix)))"

fun scan_loop :: "ns_index \<Rightarrow> nat \<Rightarrow> bool \<Rightarrow> u64 \<Rightarrow> (bytes \<Rightarrow> bool) \<Rightarrow> bytes list \<Rightarrow> bytes list \<Rightarrow> bytes list" where
  "scan_loop ix count has_ttl now_ms flt [] yielded = yielded"
| "scan_loop ix count has_ttl now_ms flt (k # ks) yielded =
     (if has_ttl \<and> is_expired ix k now_ms then scan_loop ix count has_ttl now_ms flt ks yielded
      else if \<not> flt k then scan_loop ix count has_ttl now_ms flt ks yielded
      else if length (yielded @ [k]) \<ge> count then yielded @ [k]
      else scan_loop ix count has_ttl now_ms flt ks (yielded @ [k]))"

definition scan :: "ns_index \<Rightarrow> bytes option \<Rightarrow> nat \<Rightarrow> u64 \<Rightarrow> (bytes \<Rightarrow> bool) \<Rightarrow> bytes list \<times> bytes option" where
  "scan ix cursor count now_ms flt =
     (let count = max count 1;
          has_ttl = om_size (ix_ttl ix) \<noteq> 0;
          yielded = scan_loop ix count has_ttl now_ms flt (keys_after cursor ix) []
      in (yielded, if length yielded \<ge> count then Some (last yielded) else None))"

text \<open>
  A whole scan as its client drives it: page \<open>i\<close> is served from the \<open>i\<close>-th state of the index, so the
  states between pages are arbitrary. The flag says whether the scan reached its end.
\<close>

fun scan_session ::
  "(bytes \<Rightarrow> bool) \<Rightarrow> nat \<Rightarrow> (ns_index \<times> u64) list \<Rightarrow> bytes option \<Rightarrow> bytes list \<times> bool" where
  "scan_session flt count [] cursor = ([], False)"
| "scan_session flt count ((ix, now) # sts) cursor =
     (case scan ix cursor count now flt of
        (ys, None) \<Rightarrow> (ys, True)
      | (ys, Some c) \<Rightarrow>
          (let (zs, fin) = scan_session flt count sts (Some c) in (ys @ zs, fin)))"

section \<open>Lookups after each operation\<close>

named_theorems ix_simps \<open>what each index operation does to each lookup\<close>

lemma set_ttl_lookups [simp, ix_simps]:
  "ix_map (set_ttl k e ix) = ix_map ix" "ix_valsep (set_ttl k e ix) = ix_valsep ix"
  "ix_live_count (set_ttl k e ix) = ix_live_count ix"
  "ttl_of (set_ttl k e ix) k' = (if k' = k then e else ttl_of ix k')"
  by (auto simp: set_ttl_def ttl_of_def split: option.splits)

lemma set_valsep_lookups [simp, ix_simps]:
  "ix_map (set_valsep k h ix) = ix_map ix" "ix_ttl (set_valsep k h ix) = ix_ttl ix"
  "ix_live_count (set_valsep k h ix) = ix_live_count ix"
  "valsep (set_valsep k h ix) k' = (if k' = k then h else valsep ix k')"
  by (auto simp: set_valsep_def valsep_def split: option.splits)

lemma ix_insert_lookups [simp, ix_simps]:
  "ix_get (ix_insert k e t ix) k' = (if k' = k then Some e else ix_get ix k')"
  "ttl_of (ix_insert k e t ix) k' = (if k' = k then t else ttl_of ix k')"
  "valsep (ix_insert k e t ix) k' = valsep ix k'"
  using set_ttl_lookups(4)[of k t ix k']
  by (auto simp: ix_insert_def ix_get_def Let_def valsep_def ttl_of_def simp del: set_ttl_lookups(4))

lemma ix_remove_lookups [simp, ix_simps]:
  "fst (ix_remove k ix) = ix_get ix k"
  "ix_get (snd (ix_remove k ix)) k' = (if k' = k then None else ix_get ix k')"
  "ttl_of (snd (ix_remove k ix)) k' = (if k' = k then None else ttl_of ix k')"
  "valsep (snd (ix_remove k ix)) k' = (if k' = k then None else valsep ix k')"
  by (auto simp: ix_remove_def ix_get_def Let_def valsep_def ttl_of_def)

lemma ix_new_lookups [simp, ix_simps]:
  "ix_get ix_new k = None" "ttl_of ix_new k = None" "valsep ix_new k = None"
  by (simp_all add: ix_new_def ix_get_def ttl_of_def valsep_def)

lemma ix_clear_lookups [simp, ix_simps]:
  "ix_get (ix_clear ix) k = None" "ttl_of (ix_clear ix) k = None" "valsep (ix_clear ix) k = None"
  by (simp_all add: ix_clear_def ix_get_def ttl_of_def valsep_def)

lemma set_valsep_get [simp, ix_simps]:
  "ix_get (set_valsep k h ix) k' = ix_get ix k'" "ttl_of (set_valsep k h ix) k' = ttl_of ix k'"
  by (simp_all add: ix_get_def ttl_of_def)

lemma set_ttl_get [simp, ix_simps]:
  "ix_get (set_ttl k h ix) k' = ix_get ix k'" "valsep (set_ttl k h ix) k' = valsep ix k'"
  by (simp_all add: ix_get_def valsep_def)

lemma is_expired_ttl: "is_expired ix k now = (case ttl_of ix k of Some ms \<Rightarrow> ms \<le> now | None \<Rightarrow> False)"
  by (simp add: is_expired_def ttl_of_def)

text \<open>Two indexes are equal when every lookup and the counter agree.\<close>

lemma ns_index_eqI:
  assumes "\<And>k. ix_get a k = ix_get b k" "\<And>k. ttl_of a k = ttl_of b k" "\<And>k. valsep a k = valsep b k"
    "ix_live_count a = ix_live_count b"
  shows "a = b"
  using assms om_ext[of "ix_map a" "ix_map b"] om_ext[of "ix_ttl a" "ix_ttl b"]
    om_ext[of "ix_valsep a" "ix_valsep b"]
  by (cases a, cases b) (simp add: ix_get_def ttl_of_def valsep_def)

section \<open>The live counter\<close>

definition ix_inv :: "ns_index \<Rightarrow> bool" where
  "ix_inv ix \<longleftrightarrow> ix_live_count ix = om_size (ix_map ix)"

lemma ix_inv_new [simp, intro]: "ix_inv ix_new"
  by (simp add: ix_inv_def ix_new_def)

lemma ix_inv_set_ttl [simp]: "ix_inv (set_ttl k e ix) = ix_inv ix"
  by (simp add: ix_inv_def)

lemma ix_inv_set_valsep [simp]: "ix_inv (set_valsep k h ix) = ix_inv ix"
  by (simp add: ix_inv_def)

lemma ix_inv_insert [simp, intro]: "ix_inv ix \<Longrightarrow> ix_inv (ix_insert k e t ix)"
  by (auto simp: ix_inv_def ix_insert_def Let_def)

lemma ix_inv_remove [simp, intro]: "ix_inv ix \<Longrightarrow> ix_inv (snd (ix_remove k ix))"
  by (auto simp: ix_inv_def ix_remove_def Let_def)

lemma ix_inv_clear [simp, intro]: "ix_inv (ix_clear ix)"
  by (simp add: ix_inv_def ix_clear_def)

section \<open>Scanning\<close>

definition scan_hit :: "ns_index \<Rightarrow> u64 \<Rightarrow> (bytes \<Rightarrow> bool) \<Rightarrow> bytes \<Rightarrow> bool" where
  "scan_hit ix now flt k \<longleftrightarrow> ix_get ix k \<noteq> None \<and> \<not> is_expired ix k now \<and> flt k"

definition after :: "bytes option \<Rightarrow> bytes \<Rightarrow> bool" where
  "after cursor k = (case cursor of None \<Rightarrow> True | Some c \<Rightarrow> c < k)"

lemma scan_loop_take:
  assumes "has_ttl \<longleftrightarrow> om_size (ix_ttl ix) \<noteq> 0" "length acc < count"
  shows "scan_loop ix count has_ttl now flt ks acc =
    acc @ take (count - length acc) (filter (\<lambda>k. \<not> is_expired ix k now \<and> flt k) ks)"
  using assms(2)
proof (induction ks arbitrary: acc)
  case Nil
  show ?case by simp
next
  case (Cons k ks)
  have exp: "has_ttl \<and> is_expired ix k now \<longleftrightarrow> is_expired ix k now"
    using assms(1) by (auto simp: is_expired_def om_size_0_iff split: option.splits)
  show ?case
  proof (cases "is_expired ix k now \<or> \<not> flt k")
    case True
    then show ?thesis using Cons exp by auto
  next
    case False
    show ?thesis
    proof (cases "count \<le> Suc (length acc)")
      case True
      then have "count - length acc = Suc 0" using Cons.prems by simp
      then show ?thesis using False True exp by simp
    next
      case more: False
      then have "count - length acc = Suc (count - length (acc @ [k]))" by simp
      then show ?thesis using Cons.IH[of "acc @ [k]"] False more exp by simp
    qed
  qed
qed

lemma keys_after_eq: "keys_after cursor ix = filter (after cursor) (om_keys (ix_map ix))"
  by (cases cursor) (simp_all add: keys_after_def after_def[abs_def])

lemma fst_scan:
  "fst (scan ix cursor count now flt) =
     take (max count 1) (filter (\<lambda>k. after cursor k \<and> \<not> is_expired ix k now \<and> flt k) (om_keys (ix_map ix)))"
  by (simp add: scan_def Let_def scan_loop_take keys_after_eq conj_commute)

lemma snd_scan:
  "snd (scan ix cursor count now flt) =
     (let ys = fst (scan ix cursor count now flt)
      in if length ys \<ge> max count 1 then Some (last ys) else None)"
  by (simp add: scan_def Let_def)

lemma scan_page:
  assumes "scan ix cursor count now flt = (ys, next)"
  shows "sorted_wrt (<) ys"
    and "k \<in> set ys \<longleftrightarrow>
      after cursor k \<and> scan_hit ix now flt k \<and> (case next of None \<Rightarrow> True | Some c \<Rightarrow> k \<le> c)"
    and "next = Some c \<Longrightarrow> ys \<noteq> [] \<and> c = last ys"
    and "length ys \<le> max count 1"
proof -
  let ?n = "max count 1"
  define L where "L = filter (\<lambda>k. after cursor k \<and> \<not> is_expired ix k now \<and> flt k) (om_keys (ix_map ix))"
  have ys: "ys = take ?n L"
    using fst_scan[of ix cursor count now flt] assms by (simp add: L_def)
  have nxt: "next = (if length ys \<ge> ?n then Some (last ys) else None)"
    using snd_scan[of ix cursor count now flt] assms by (simp add: Let_def)
  have sL: "sorted_wrt (<) L"
    by (simp add: L_def sorted_wrt_filter)
  have mem: "k \<in> set L \<longleftrightarrow> after cursor k \<and> scan_hit ix now flt k" for k
    by (auto simp: L_def set_om_keys scan_hit_def ix_get_def)
  show sy: "sorted_wrt (<) ys"
    using sL by (simp add: ys sorted_wrt_take)
  show "length ys \<le> ?n" by (simp add: ys)
  show ne: "ys \<noteq> [] \<and> c = last ys" if "next = Some c" for c
    using that nxt by (auto split: if_splits)
  show "k \<in> set ys \<longleftrightarrow>
      after cursor k \<and> scan_hit ix now flt k \<and> (case next of None \<Rightarrow> True | Some c \<Rightarrow> k \<le> c)"
  proof (cases "next")
    case None
    then have "length ys < ?n" using nxt by (metis not_le option.distinct(1))
    then have "ys = L" by (metis length_take min_less_iff_conj nat_less_le order_refl take_all_iff ys not_le)
    then show ?thesis using None mem by simp
  next
    case (Some c)
    with ne[OF Some] obtain zs where zs: "ys = zs @ [c]" by (metis append_butlast_last_id)
    have "sorted_wrt (<) (ys @ drop ?n L)" using sL by (simp add: ys)
    then have "\<forall>x \<in> set (drop ?n L). c < x" and "\<forall>x \<in> set ys. x \<le> c"
      by (auto simp: zs sorted_wrt_append less_imp_le)
    moreover have "set L = set ys \<union> set (drop ?n L)"
      by (metis append_take_drop_id set_append ys)
    ultimately show ?thesis using mem Some by (auto simp: not_less[symmetric])
  qed
qed

lemma scan_session_sorted:
  "sorted_wrt (<) (fst (scan_session flt count sts cursor)) \<and>
     (\<forall>k \<in> set (fst (scan_session flt count sts cursor)). after cursor k)"
proof (induction flt count sts cursor rule: scan_session.induct)
  case (1 flt count cursor)
  show ?case by simp
next
  case (2 flt count ix now sts cursor)
  obtain ys nxt where page: "scan ix cursor count now flt = (ys, nxt)" by force
  note P = scan_page[OF page]
  show ?case
  proof (cases nxt)
    case None
    then show ?thesis using page P(1,2) by auto
  next
    case (Some c)
    obtain zs fin where zs: "scan_session flt count sts (Some c) = (zs, fin)" by force
    have IH: "sorted_wrt (<) zs" "\<forall>k \<in> set zs. c < k"
      using 2[OF page[symmetric] Some] zs by (auto simp: after_def)
    have "\<forall>k \<in> set ys. k \<le> c" "after cursor c"
      using P(2) P(3)[OF Some] Some by (auto dest: last_in_set)
    then show ?thesis
      using IH P(1,2) page zs Some
      by (auto simp: sorted_wrt_append after_def split: option.splits intro: le_less_trans less_trans)
  qed
qed

lemma scan_session_complete:
  "snd (scan_session flt count sts cursor) \<Longrightarrow> (\<forall>(ix, now) \<in> set sts. scan_hit ix now flt k) \<Longrightarrow>
     after cursor k \<Longrightarrow> k \<in> set (fst (scan_session flt count sts cursor))"
proof (induction flt count sts cursor rule: scan_session.induct)
  case (1 flt count cursor)
  then show ?case by simp
next
  case (2 flt count ix now sts cursor)
  obtain ys nxt where page: "scan ix cursor count now flt = (ys, nxt)" by force
  note P = scan_page[OF page]
  have hit: "scan_hit ix now flt k" using 2(3) by simp
  show ?case
  proof (cases nxt)
    case None
    then show ?thesis using page P(2) hit 2(4) by auto
  next
    case (Some c)
    obtain zs fin where zs: "scan_session flt count sts (Some c) = (zs, fin)" by force
    show ?thesis
    proof (cases "k \<le> c")
      case True
      then have "k \<in> set ys" using P(2) hit 2(4) Some by simp
      then show ?thesis using page zs Some by simp
    next
      case False
      then have "k \<in> set zs"
        using 2(1)[OF page[symmetric] Some] 2(2,3) page Some zs by (simp add: after_def)
      then show ?thesis using page zs Some by simp
    qed
  qed
qed

lemma scan_session_sound:
  "k \<in> set (fst (scan_session flt count sts cursor)) \<Longrightarrow> \<exists>(ix, now) \<in> set sts. scan_hit ix now flt k"
proof (induction flt count sts cursor rule: scan_session.induct)
  case (1 flt count cursor)
  then show ?case by simp
next
  case (2 flt count ix now sts cursor)
  obtain ys nxt where page: "scan ix cursor count now flt = (ys, nxt)" by force
  note P = scan_page[OF page]
  show ?case
  proof (cases "k \<in> set ys")
    case True
    then show ?thesis using P(2) by auto
  next
    case False
    then obtain c where Some: "nxt = Some c"
      using 2(2) page by (cases nxt) auto
    then have "k \<in> set (fst (scan_session flt count sts (Some c)))"
      using 2(2) False page by (auto simp: case_prod_beta)
    then show ?thesis using 2(1)[OF page[symmetric] Some] by auto
  qed
qed

lemma count_list_distinct: "distinct xs \<Longrightarrow> count_list xs x = (if x \<in> set xs then 1 else 0)"
  by (induction xs) (auto simp: count_list_0_iff)

lemma scan_session_static:
  "length (filter (\<lambda>k. after cursor k \<and> scan_hit ix now flt k) (om_keys (ix_map ix))) < n \<Longrightarrow>
   snd (scan_session flt count (replicate n (ix, now)) cursor)"
proof (induction n arbitrary: cursor)
  case (Suc n)
  let ?rest = "\<lambda>c. filter (\<lambda>k. after c k \<and> scan_hit ix now flt k) (om_keys (ix_map ix))"
  obtain ys nxt where page: "scan ix cursor count now flt = (ys, nxt)" by force
  show ?case
  proof (cases nxt)
    case (Some c)
    have c: "c \<in> set ys" using scan_page(3)[OF page Some] by (metis last_in_set)
    then have hit: "after cursor c" "scan_hit ix now flt c" using scan_page(2)[OF page] by auto
    have "filter (\<lambda>k. after (Some c) k) (?rest cursor) = ?rest (Some c)"
      using hit(1) by (auto simp: filter_filter after_def split: option.splits intro!: filter_cong intro: less_trans)
    moreover have "length (filter (\<lambda>k. after (Some c) k) (?rest cursor)) < length (?rest cursor)"
      using hit by (intro length_filter_less[of c]) (auto simp: after_def set_om_keys scan_hit_def ix_get_def)
    ultimately have "snd (scan_session flt count (replicate n (ix, now)) (Some c))"
      using Suc.prems by (intro Suc.IH) simp
    then show ?thesis using page Some by (simp add: case_prod_beta)
  qed (simp add: page)
qed simp

section \<open>Properties\<close>

text \<open>
  C20. A paged scan that a client drives to its end returns every key that was live and matching on every
  page exactly once, in key order, however the index changes between pages, and returns nothing that was
  not live and matching on some page.
\<close>

theorem scan_exactly_once:
  assumes "scan_session flt count sts None = (ks, True)"
  shows "sorted_wrt (<) ks \<and>
    (\<forall>k. (\<forall>(ix, now) \<in> set sts. scan_hit ix now flt k) \<longrightarrow> count_list ks k = 1) \<and>
    (\<forall>k \<in> set ks. \<exists>(ix, now) \<in> set sts. scan_hit ix now flt k)"
proof (intro conjI allI impI ballI)
  have ks: "ks = fst (scan_session flt count sts None)" and fin: "snd (scan_session flt count sts None)"
    using assms by simp_all
  show sorted: "sorted_wrt (<) ks" using scan_session_sorted[of flt count sts None] ks by simp
  show "\<exists>(ix, now) \<in> set sts. scan_hit ix now flt k" if "k \<in> set ks" for k
    using scan_session_sound that ks by blast
  show "count_list ks k = 1" if "\<forall>(ix, now) \<in> set sts. scan_hit ix now flt k" for k
  proof -
    have "k \<in> set ks" using scan_session_complete[OF fin that] ks by (simp add: after_def)
    moreover have "distinct ks" using sorted by (simp add: strict_sorted_iff)
    ultimately show ?thesis by (simp add: count_list_distinct)
  qed
qed

theorem scan_exactly_once_witness:
  "\<exists>ks. scan_session (\<lambda>k. True) 1 [(ix_insert [1] (index_entry_new 0 0 0 0) None ix_new, 0), (ix_new, 0)] None = (ks, True) \<and>
    sorted_wrt (<) ks"
proof -
  have "scan_session (\<lambda>k. True) 1 [(ix_insert [1] (index_entry_new 0 0 0 0) None ix_new, 0), (ix_new, 0)] None = ([[1]], True)"
    by code_simp
  from scan_exactly_once[OF this] this show ?thesis by blast
qed

text \<open>
  C21. A scan of an index that does not change ends: one page more than there are keys is always enough,
  whatever page size the client asks for (a page size of 0 is served as 1).
\<close>

theorem scan_terminates:
  "snd (scan_session flt count (replicate (Suc (ix_len ix)) (ix, now)) None)"
proof (rule scan_session_static)
  have "length (filter (\<lambda>k. after None k \<and> scan_hit ix now flt k) (om_keys (ix_map ix))) \<le> length (om_keys (ix_map ix))"
    by (rule length_filter_le)
  then show "length (filter (\<lambda>k. after None k \<and> scan_hit ix now flt k) (om_keys (ix_map ix))) < Suc (ix_len ix)"
    using length_map[of fst "entries (ix_map ix)"] unfolding ix_len_def om_size_def om_keys_def by linarith
qed

end
