(* ===== verification/Log_Recover.thy ===== *)
theory Log_Recover
  imports Log_File Ns_Index
begin

text \<open>
  \<^verbatim>\<open>engine/src/log/recover.rs\<close>: rebuilding the index from the files of a namespace directory. A
  directory is an ordered map from file ids to contents (what \<^verbatim>\<open>list_data_files\<close> returns, ascending);
  \<open>fs_env\<close> says how the kernel answers opens and the directory listing, and how each file's device
  behaves. The lemmas show that
  replaying an active file applies exactly its whole, intact records in order and truncates the rest.
\<close>

section \<open>Model\<close>

record fs_env =
  fs_dev :: "nat \<Rightarrow> device"
  fs_open_err :: "nat \<Rightarrow> io_error option"
  fs_list_err :: "io_error option"

definition healthy_env :: fs_env where
  "healthy_env = \<lparr>fs_dev = (\<lambda>_. healthy_device), fs_open_err = (\<lambda>_. None), fs_list_err = None\<rparr>"

type_synonym data_dir = "(nat, bytes) omap"

text \<open>\<^verbatim>\<open>LogFile::open_rw\<close> creates a missing file; \<^verbatim>\<open>open_ro\<close> fails on one.\<close>

definition open_rw :: "fs_env \<Rightarrow> nat \<Rightarrow> data_dir \<Rightarrow> log_file eresult \<times> data_dir" where
  "open_rw env file_id dir =
     (case fs_open_err env file_id of
        Some e \<Rightarrow> (Inl (Io e), dir)
      | None \<Rightarrow>
          (let data = (case om_lookup dir file_id of Some b \<Rightarrow> b | None \<Rightarrow> [])
           in (open_file file_id (fs_dev env file_id) data, om_insert file_id data dir)))"

definition open_ro :: "fs_env \<Rightarrow> nat \<Rightarrow> data_dir \<Rightarrow> log_file eresult" where
  "open_ro env file_id dir =
     (case fs_open_err env file_id of
        Some e \<Rightarrow> Inl (Io e)
      | None \<Rightarrow>
          (case om_lookup dir file_id of
             None \<Rightarrow> Inl (Io NotFound)
           | Some data \<Rightarrow> open_file file_id (fs_dev env file_id) data))"

definition rec_ttl :: "record_header \<Rightarrow> u64 option" where
  "rec_ttl h = (if has_flag (hdr_flags h) NO_EXPIRY then None else Some (hdr_expires_at_ms h))"

definition apply_record :: "ns_index \<Rightarrow> nat \<Rightarrow> nat \<Rightarrow> record_header \<Rightarrow> bytes \<Rightarrow> ns_index" where
  "apply_record ix file_id offset h body =
     (if length body < unat (hdr_key_size h) then ix
      else let key = take (unat (hdr_key_size h)) body in
        if has_flag (hdr_flags h) TOMBSTONE then snd (ix_remove key ix)
        else if has_flag (hdr_flags h) TTL_UPDATE then
          (if ix_get ix key \<noteq> None then set_ttl key (rec_ttl h) ix else ix)
        else if record_len h > u32_max then ix
        else let ent = index_entry_new file_id offset (record_len h) (hdr_tstamp_ms h);
                 ix1 = ix_insert key ent (rec_ttl h) ix
             in if has_flag (hdr_flags h) VALUE_SEP
                then let vstart = unat (hdr_key_size h);
                         vend = vstart + unat (hdr_val_size h)
                     in if unat (hdr_val_size h) = 16 \<and> length body \<ge> vend
                        then set_valsep key (Some (subslice body vstart 16)) ix1
                        else ix1
                else ix1)"

definition apply_footer_entry :: "nat \<Rightarrow> footer_entry \<Rightarrow> ns_index \<Rightarrow> ns_index" where
  "apply_footer_entry file_id e ix =
     (let ent = index_entry_new file_id (fe_record_offset e) (fe_record_size e) (fe_tstamp_ms e)
      in set_valsep (fe_key e) (fe_value_hash e) (ix_insert (fe_key e) ent (fe_expires_at_ms e) ix))"

definition apply_footer_entries :: "ns_index \<Rightarrow> nat \<Rightarrow> footer_entry list \<Rightarrow> ns_index" where
  "apply_footer_entries ix file_id es = fold (apply_footer_entry file_id) es ix"

text \<open>
  The body the two scanning loops share: read a header, parse it, read the body, verify the CRC.
  \<open>None\<close> is each of the loops' \<^verbatim>\<open>break\<close>s.
\<close>

definition next_record :: "(bytes \<Rightarrow> u64) \<Rightarrow> log_file \<Rightarrow> nat \<Rightarrow> (record_header \<times> bytes) option" where
  "next_record crc f offset =
     (case read_at f offset HEADER_LEN of
        Inl e \<Rightarrow> None
      | Inr header_buf \<Rightarrow>
          if length header_buf < HEADER_LEN then None
          else (case parse_header header_buf offset of
                  Inl e \<Rightarrow> None
                | Inr h \<Rightarrow>
                    (case read_at f (offset + HEADER_LEN) (body_len h) of
                       Inl e \<Rightarrow> None
                     | Inr body \<Rightarrow>
                         if length body < body_len h then None
                         else (case verify_crc crc h header_buf body offset of
                                 Inl e \<Rightarrow> None
                               | Inr u \<Rightarrow> Some (h, body)))))"

function rebuild_loop :: "(bytes \<Rightarrow> u64) \<Rightarrow> log_file \<Rightarrow> nat \<Rightarrow> nat \<Rightarrow> nat \<Rightarrow> ns_index \<Rightarrow> ns_index" where
  "rebuild_loop crc f file_id total_len offset ix =
     (if offset < total_len
      then (case next_record crc f offset of
              None \<Rightarrow> ix
            | Some (h, body) \<Rightarrow>
                rebuild_loop crc f file_id total_len (offset + record_len h) (apply_record ix file_id offset h body))
      else ix)"
  by pat_completeness auto
termination
  by (relation "measure (\<lambda>(crc, f, fid, total_len, off, ix). total_len - off)") (auto intro!: diff_less_mono2)

declare rebuild_loop.simps [simp del]

definition rebuild_from_records :: "(bytes \<Rightarrow> u64) \<Rightarrow> log_file \<Rightarrow> nat \<Rightarrow> ns_index \<Rightarrow> ns_index eresult" where
  "rebuild_from_records crc f file_id ix =
     rbind (lf_size f) (\<lambda>total_len. Inr (rebuild_loop crc f file_id total_len 0 ix))"

function replay_loop ::
  "(bytes \<Rightarrow> u64) \<Rightarrow> log_file \<Rightarrow> nat \<Rightarrow> nat \<Rightarrow> nat \<Rightarrow> nat \<Rightarrow> ns_index \<Rightarrow> ns_index \<times> nat" where
  "replay_loop crc f file_id total_len offset last_good ix =
     (if offset < total_len
      then (case next_record crc f offset of
              None \<Rightarrow> (ix, last_good)
            | Some (h, body) \<Rightarrow>
                replay_loop crc f file_id total_len (offset + record_len h) (offset + record_len h)
                  (apply_record ix file_id offset h body))
      else (ix, last_good))"
  by pat_completeness auto
termination
  by (relation "measure (\<lambda>(crc, f, fid, total_len, off, lg, ix). total_len - off)") (auto intro!: diff_less_mono2)

declare replay_loop.simps [simp del]

definition replay_active :: "(bytes \<Rightarrow> u64) \<Rightarrow> log_file \<Rightarrow> nat \<Rightarrow> ns_index \<Rightarrow> (ns_index \<times> log_file) eresult" where
  "replay_active crc f file_id ix =
     rbind (lf_size f) (\<lambda>total_len.
       let (ix', last_good) = replay_loop crc f file_id total_len 0 0 ix
       in if last_good < total_len
          then rbind (truncate_to f last_good) (\<lambda>f'. Inr (ix', f'))
          else Inr (ix', f))"

text \<open>The loop over the sealed files of \<^verbatim>\<open>open_namespace\<close>.\<close>

fun recover_sealed ::
  "(bytes \<Rightarrow> u64) \<Rightarrow> fs_env \<Rightarrow> data_dir \<Rightarrow> nat list \<Rightarrow> ns_index \<Rightarrow> (log_file list \<times> ns_index) eresult" where
  "recover_sealed crc env dir [] ix = Inr ([], ix)"
| "recover_sealed crc env dir (file_id # ids) ix =
     rbind (open_ro env file_id dir) (\<lambda>f.
     rbind (read_footer crc f) (\<lambda>ft.
     rbind (case ft of
              Some es \<Rightarrow> Inr (apply_footer_entries ix file_id es)
            | None \<Rightarrow> rebuild_from_records crc f file_id ix) (\<lambda>ix'.
     rbind (recover_sealed crc env dir ids ix') (\<lambda>(fs, ix''). Inr (f # fs, ix'')))))"

record opened_files =
  op_sealed :: "log_file list"
  op_active :: log_file
  op_index :: ns_index

definition open_namespace :: "(bytes \<Rightarrow> u64) \<Rightarrow> fs_env \<Rightarrow> data_dir \<Rightarrow> opened_files eresult \<times> data_dir" where
  "open_namespace crc env dir =
     (case fs_list_err env of Some e \<Rightarrow> (Inl (Io e), dir) | None \<Rightarrow>
      if om_keys dir = [] then
        (case open_rw env 0 dir of
           (Inl e, dir') \<Rightarrow> (Inl e, dir')
         | (Inr active, dir') \<Rightarrow> (Inr \<lparr>op_sealed = [], op_active = active, op_index = ix_new\<rparr>, dir'))
      else
        let active_id = last (om_keys dir) in
        case recover_sealed crc env dir (butlast (om_keys dir)) ix_new of
          Inl e \<Rightarrow> (Inl e, dir)
        | Inr (sealed, ix) \<Rightarrow>
            (case open_ro env active_id dir of
               Inl e \<Rightarrow> (Inl e, dir)
             | Inr highest \<Rightarrow>
                 (case read_footer crc highest of
                    Inl e \<Rightarrow> (Inl e, dir)
                  | Inr (Some es) \<Rightarrow>
                      if active_id + 1 > u32_max
                      then (Inl (BadRecord 0 ''file_id overflow on clean-shutdown recovery''), dir)
                      else (case open_rw env (active_id + 1) dir of
                              (Inl e, dir') \<Rightarrow> (Inl e, dir')
                            | (Inr active, dir') \<Rightarrow>
                                (Inr \<lparr>op_sealed = sealed @ [highest], op_active = active,
                                      op_index = apply_footer_entries ix active_id es\<rparr>, dir'))
                  | Inr None \<Rightarrow>
                      (case open_rw env active_id dir of
                         (Inl e, dir') \<Rightarrow> (Inl e, dir')
                       | (Inr active, dir') \<Rightarrow>
                           (case replay_active crc active active_id ix of
                              Inl e \<Rightarrow> (Inl e, dir')
                            | Inr (ix', active') \<Rightarrow>
                                (Inr \<lparr>op_sealed = sealed, op_active = active', op_index = ix'\<rparr>,
                                 om_insert active_id (lf_data active') dir'))))))"

section \<open>The scanning loops as folds over records\<close>

text \<open>Records applied one after another, each at the offset where it lies.\<close>

fun apply_records :: "(bytes \<Rightarrow> u64) \<Rightarrow> nat \<Rightarrow> nat \<Rightarrow> log_rec list \<Rightarrow> ns_index \<Rightarrow> ns_index" where
  "apply_records crc file_id offset [] ix = ix"
| "apply_records crc file_id offset (r # rs) ix =
     apply_records crc file_id (offset + length (enc_rec crc r)) rs
       (apply_record ix file_id offset (rec_header crc r) (rec_body r))"

fun apply_views :: "nat \<Rightarrow> nat \<Rightarrow> (record_header \<times> bytes) list \<Rightarrow> ns_index \<Rightarrow> ns_index \<times> nat" where
  "apply_views file_id offset [] ix = (ix, offset)"
| "apply_views file_id offset ((h, body) # vs) ix =
     apply_views file_id (offset + record_len h) vs (apply_record ix file_id offset h body)"

lemma apply_views_records:
  "list_all rec_fits rs \<Longrightarrow>
     apply_views fid off (map (\<lambda>r. (rec_header crc r, rec_body r)) rs) ix =
       (apply_records crc fid off rs ix, off + length (rec_codec.image crc rs))"
  by (induction rs arbitrary: off ix) auto

lemma dec_rec_len: "dec_rec crc b = Some ((h, body), n) \<Longrightarrow> n = record_len h \<and> n \<le> length b \<and> 0 < n"
  by (auto simp: dec_rec_def split: if_splits sum.splits)

lemma next_record_dec:
  assumes "reads_ok f"
  shows "next_record crc f off = map_option fst (dec_rec crc (drop off (lf_data f)))"
proof -
  let ?b = "drop off (lf_data f)"
  have hb: "read_at f off HEADER_LEN = Inr (take HEADER_LEN ?b)"
    using assms by (simp add: read_at_def reads_ok_def subslice_def)
  have bd: "read_at f (off + HEADER_LEN) n = Inr (subslice ?b HEADER_LEN n)" for n
    using assms by (simp add: read_at_def reads_ok_def subslice_def add.commute)
  show ?thesis
  proof (cases "length ?b < HEADER_LEN")
    case True
    then show ?thesis by (simp add: next_record_def hb dec_rec_def)
  next
    case False
    then have ph: "parse_header (take HEADER_LEN ?b) off = parse_header (take HEADER_LEN ?b) 0"
      using parse_header_take[of ?b off "[]" 0] by simp
    have crc: "verify_crc crc h hb bd off = Inl e \<longleftrightarrow> verify_crc crc h hb bd 0 = Inl (CrcMismatch 0) \<and> e = CrcMismatch off"
      for h hb bd e by (auto simp: verify_crc_def)
    have len: "length (subslice ?b HEADER_LEN (body_len h)) < body_len h \<longleftrightarrow> length ?b < record_len h" for h
      using False by (auto simp: subslice_def record_len_def min_def)
    show ?thesis
      using False
      by (simp add: next_record_def hb bd ph dec_rec_def len verify_crc_def split: sum.splits)
  qed
qed

lemma replay_loop_views:
  "reads_ok f \<Longrightarrow> total_len = length (lf_data f) \<Longrightarrow> off \<le> total_len \<Longrightarrow> lg = off \<Longrightarrow>
   replay_loop crc f fid total_len off lg ix =
     apply_views fid off (fst (parse_stream (dec_rec crc) (drop off (lf_data f)))) ix"
proof (induction crc f fid total_len off lg ix rule: replay_loop.induct)
  case (1 crc f fid total_len off lg ix)
  let ?b = "drop off (lf_data f)"
  note nr = next_record_dec[OF 1(2), of crc off]
  show ?case
  proof (cases "dec_rec crc ?b")
    case None
    then show ?thesis using 1(5) nr by (simp add: replay_loop.simps[of crc f] parse_stream_None)
  next
    case (Some p)
    then obtain h body n where p: "dec_rec crc ?b = Some ((h, body), n)" by (metis prod.exhaust)
    note len = dec_rec_len[OF p]
    have less: "off < total_len" and le: "off + record_len h \<le> total_len"
      using len 1(3) by (auto simp: record_len_def)
    have step: "next_record crc f off = Some (h, body)" using nr p by simp
    from 1(1)[OF less step refl 1(2,3) le refl] show ?thesis
      using less step len parse_stream_step[of "dec_rec crc", OF p]
      by (simp add: replay_loop.simps[of crc f fid total_len off] add.commute)
  qed
qed

lemma rebuild_loop_views:
  "reads_ok f \<Longrightarrow> total_len = length (lf_data f) \<Longrightarrow> off \<le> total_len \<Longrightarrow>
   rebuild_loop crc f fid total_len off ix =
     fst (apply_views fid off (fst (parse_stream (dec_rec crc) (drop off (lf_data f)))) ix)"
proof (induction crc f fid total_len off ix rule: rebuild_loop.induct)
  case (1 crc f fid total_len off ix)
  let ?b = "drop off (lf_data f)"
  note nr = next_record_dec[OF 1(2), of crc off]
  show ?case
  proof (cases "dec_rec crc ?b")
    case None
    then show ?thesis using nr by (simp add: rebuild_loop.simps[of crc f] parse_stream_None)
  next
    case (Some p)
    then obtain h body n where p: "dec_rec crc ?b = Some ((h, body), n)" by (metis prod.exhaust)
    note len = dec_rec_len[OF p]
    have less: "off < total_len" and le: "off + record_len h \<le> total_len"
      using len 1(3) by (auto simp: record_len_def)
    have step: "next_record crc f off = Some (h, body)" using nr p by simp
    from 1(1)[OF less step refl 1(2,3) le] show ?thesis
      using less step len parse_stream_step[of "dec_rec crc", OF p]
      by (simp add: rebuild_loop.simps[of crc f fid total_len off] add.commute)
  qed
qed

text \<open>Replay of a file that holds whole records and then something that is not one.\<close>

lemma replay_active_image:
  assumes "reads_ok f" "list_all rec_fits rs" "lf_data f = rec_codec.image crc rs @ tail"
    and "dec_rec crc tail = None"
  shows "replay_active crc f fid ix =
    (if tail = [] then Inr (apply_records crc fid 0 rs ix, f)
     else rbind (truncate_to f (length (rec_codec.image crc rs)))
       (\<lambda>f'. Inr (apply_records crc fid 0 rs ix, f')))"
proof -
  have "lf_size f = Inr (length (lf_data f))"
    using assms(1) by (simp add: lf_size_def reads_ok_def)
  moreover have "replay_loop crc f fid (length (lf_data f)) 0 0 ix =
      (apply_records crc fid 0 rs ix, length (rec_codec.image crc rs))"
    using replay_loop_views[OF assms(1) refl, of 0 0 crc fid ix] assms(2-4)
    by (simp add: rec_codec.parse_image_stop apply_views_records)
  ultimately show ?thesis
    using assms(3) by (cases "tail = []") (simp_all add: replay_active_def)
qed

lemma rebuild_image:
  assumes "reads_ok f" "list_all rec_fits rs" "lf_data f = rec_codec.image crc rs @ tail"
    and "dec_rec crc tail = None"
  shows "rebuild_from_records crc f fid ix = Inr (apply_records crc fid 0 rs ix)"
proof -
  have "lf_size f = Inr (length (lf_data f))"
    using assms(1) by (simp add: lf_size_def reads_ok_def)
  moreover have "rebuild_loop crc f fid (length (lf_data f)) 0 ix = apply_records crc fid 0 rs ix"
    using rebuild_loop_views[OF assms(1) refl, of 0 crc fid ix] assms(2-4)
    by (simp add: rec_codec.parse_image_stop apply_views_records)
  ultimately show ?thesis by (simp add: rebuild_from_records_def)
qed

lemma truncate_image:
  "lf_data f = a @ tail \<Longrightarrow> dv_trunc_err (lf_dev f) = None \<Longrightarrow>
   truncate_to f (length a) = Inr (f\<lparr>lf_data := a, lf_write_offset := length a\<rparr>)"
  by (simp add: truncate_to_def)

lemma apply_records_append:
  "apply_records crc fid off (rs @ qs) ix =
     apply_records crc fid (off + length (rec_codec.image crc rs)) qs (apply_records crc fid off rs ix)"
  by (induction rs arbitrary: off ix) (simp_all add: add.assoc)

lemma apply_record_inv [simp]: "ix_inv ix \<Longrightarrow> ix_inv (apply_record ix fid off h body)"
  by (auto simp: apply_record_def Let_def)

lemma apply_records_inv [simp]: "ix_inv ix \<Longrightarrow> ix_inv (apply_records crc fid off rs ix)"
  by (induction rs arbitrary: off ix) simp_all

section \<open>Properties\<close>

text \<open>
  C22. Replaying an active file cut at an arbitrary byte applies exactly the records that lie whole before
  the cut, in order, and truncates the file to them: a torn tail loses only the torn record.
\<close>

theorem replay_torn_tail:
  assumes "list_all rec_fits rs" "reads_ok f" "dv_trunc_err (lf_dev f) = None"
    and "lf_data f = take n (concat (map (enc_rec crc) rs))"
  shows "\<exists>m f'. m \<le> length rs \<and> length (concat (map (enc_rec crc) (take m rs))) \<le> n \<and>
    (m < length rs \<longrightarrow> n < length (concat (map (enc_rec crc) (take (Suc m) rs)))) \<and>
    replay_active crc f fid ix = Inr (apply_records crc fid 0 (take m rs) ix, f') \<and>
    lf_data f' = concat (map (enc_rec crc) (take m rs))"
proof -
  have img: "concat (map (enc_rec crc) xs) = rec_codec.image crc xs" for xs
    by (simp add: rec_codec.image_def)
  obtain m t where m: "m \<le> length rs" "take n (rec_codec.image crc rs) = rec_codec.image crc (take m rs) @ t"
    and t: "t = [] \<or> (\<exists>k. m < length rs \<and> k < length (enc_rec crc (rs ! m)) \<and> t = take k (enc_rec crc (rs ! m)))"
    using rec_codec.take_image[OF assms(1)] by metis
  let ?im = "rec_codec.image crc"
  have tk: "list_all rec_fits (take m rs)"
    using assms(1) by (auto simp: list_all_iff dest: in_set_takeD)
  have stop: "dec_rec crc t = None"
  proof (cases "t = []")
    case True
    then show ?thesis by (simp add: dec_rec_def)
  next
    case False
    then show ?thesis using t assms(1) dec_rec_torn by (auto simp: list_all_length)
  qed
  have len: "min n (length (?im rs)) = length (?im (take m rs)) + length t"
    using arg_cong[OF m(2), of length] by (simp add: min.commute)
  have "n < length (?im (take (Suc m) rs))" if "m < length rs"
  proof -
    have s: "?im (take (Suc m) rs) = ?im (take m rs) @ enc_rec crc (rs ! m)"
      using that by (simp add: take_Suc_conv_app_nth)
    have "length t < length (enc_rec crc (rs ! m))" using t by auto
    moreover have "length (?im (take (Suc m) rs)) \<le> length (?im rs)"
      by (metis append_take_drop_id le_add1 length_append rec_codec.image_simps(3))
    ultimately show ?thesis using len s by simp
  qed
  moreover have "\<exists>f'. replay_active crc f fid ix = Inr (apply_records crc fid 0 (take m rs) ix, f') \<and> lf_data f' = ?im (take m rs)"
    using replay_active_image[OF assms(2) tk _ stop] assms(3,4) m(2)
    by (auto simp: img truncate_image)
  ultimately show ?thesis using m(1) len img by (intro exI[of _ m]) auto
qed

theorem replay_torn_tail_witness:
  "\<exists>m f'. m \<le> 1 \<and> replay_active (\<lambda>b. 0) \<lparr>lf_file_id = 0,
      lf_data = take 3 (concat (map (enc_rec (\<lambda>b. 0)) [\<lparr>lr_tstamp = 5, lr_flags = 0, lr_expires = 7, lr_key = [1], lr_val = [2], lr_meta = []\<rparr>])),
      lf_dev = healthy_device, lf_write_offset = 3, lf_poisoned = False\<rparr> 0 ix_new
    = Inr (apply_records (\<lambda>b. 0) 0 0 (take m [\<lparr>lr_tstamp = 5, lr_flags = 0, lr_expires = 7, lr_key = [1], lr_val = [2], lr_meta = []\<rparr>]) ix_new, f')"
proof -
  let ?r = "\<lparr>lr_tstamp = 5, lr_flags = 0, lr_expires = 7, lr_key = [1], lr_val = [2], lr_meta = []\<rparr>"
  let ?f = "\<lparr>lf_file_id = 0, lf_data = take 3 (concat (map (enc_rec (\<lambda>b. 0)) [?r])),
      lf_dev = healthy_device, lf_write_offset = 3, lf_poisoned = False\<rparr>"
  have "list_all rec_fits [?r]" "reads_ok ?f" "dv_trunc_err (lf_dev ?f) = None"
    by (simp_all add: rec_fits_def reads_ok_def)
  from replay_torn_tail[OF this, of 3 "\<lambda>b. 0" 0 ix_new] show ?thesis by auto
qed

end
