(* ===== verification/Value_Store.thy ===== *)
theory Value_Store
  imports Engine_Types
begin

text \<open>
  \<^verbatim>\<open>engine/src/value_store.rs\<close>: the content-addressed, reference-counted blob store for large values.
  The directory \<^verbatim>\<open>values/\<close> is an ordered map from content hashes to file contents; BLAKE3 (crate
  \<^verbatim>\<open>blake3\<close>) is the parameter \<open>blake3\<close>. Per-hash file locks serialise operations on one blob, so
  each operation is one atomic step. The lemmas show that a referenced blob is always on disk with the
  content its hash names, that garbage collection removes exactly the queued unreferenced blobs, and
  that the file-name codec round-trips.
\<close>

section \<open>Model\<close>

definition content_hash :: "(bytes \<Rightarrow> bytes) \<Rightarrow> bytes \<Rightarrow> bytes" where
  "content_hash blake3 v = take 16 (blake3 v)"

text \<open>Lower-case hexadecimal, \<^verbatim>\<open>{b:02x}\<close>, and \<^verbatim>\<open>u8::from_str_radix(_, 16)\<close> on two characters.\<close>

definition hex_digit :: "nat \<Rightarrow> byte" where
  "hex_digit n = (if n < 10 then of_nat (48 + n) else of_nat (87 + n))"

definition hex_value :: "byte \<Rightarrow> nat option" where
  "hex_value b =
     (let n = unat b in
      if 48 \<le> n \<and> n \<le> 57 then Some (n - 48)
      else if 97 \<le> n \<and> n \<le> 102 then Some (n - 87)
      else if 65 \<le> n \<and> n \<le> 70 then Some (n - 55)
      else None)"

definition hex16 :: "bytes \<Rightarrow> bytes" where
  "hex16 h = concat (map (\<lambda>b. [hex_digit (unat b div 16), hex_digit (unat b mod 16)]) h)"

definition radix16_pair :: "byte \<Rightarrow> byte \<Rightarrow> byte option" where
  "radix16_pair a b =
     (if a = 43 then map_option of_nat (hex_value b)
      else case (hex_value a, hex_value b) of
             (Some x, Some y) \<Rightarrow> Some (of_nat (16 * x + y))
           | _ \<Rightarrow> None)"

fun parse_hex_pairs :: "bytes \<Rightarrow> bytes option" where
  "parse_hex_pairs [] = Some []"
| "parse_hex_pairs [a] = None"
| "parse_hex_pairs (a # b # rest) =
     (case radix16_pair a b of
        None \<Rightarrow> None
      | Some x \<Rightarrow> map_option (\<lambda>xs. x # xs) (parse_hex_pairs rest))"

definition blob_name :: "bytes \<Rightarrow> bytes" where
  "blob_name h = ascii ''blob-'' @ hex16 h"

definition parse_blob_name :: "bytes \<Rightarrow> bytes option" where
  "parse_blob_name name =
     (if starts_with name (ascii ''blob-'')
      then let hex = drop 5 name in if length hex \<noteq> 32 then None else parse_hex_pairs hex
      else None)"

record value_store =
  vs_refs :: "(bytes, nat) omap"
  vs_pending :: "bytes list"
  vs_blobs :: "(bytes, bytes) omap"

definition vs_new :: "(bytes, bytes) omap \<Rightarrow> value_store" where
  "vs_new blobs = \<lparr>vs_refs = om_empty, vs_pending = [], vs_blobs = blobs\<rparr>"

definition refcount :: "value_store \<Rightarrow> bytes \<Rightarrow> nat" where
  "refcount vs h = (case om_lookup (vs_refs vs) h of Some c \<Rightarrow> c | None \<Rightarrow> 0)"

definition blob_count :: "value_store \<Rightarrow> nat" where
  "blob_count vs = om_size (vs_refs vs)"

definition vs_dec :: "bytes \<Rightarrow> value_store \<Rightarrow> bool \<times> value_store" where
  "vs_dec h vs =
     (case om_lookup (vs_refs vs) h of
        Some c \<Rightarrow>
          (let c' = c - 1 in
           if c' = 0 then (True, vs\<lparr>vs_refs := om_delete h (vs_refs vs)\<rparr>)
           else (False, vs\<lparr>vs_refs := om_insert h c' (vs_refs vs)\<rparr>))
      | None \<Rightarrow> (False, vs))"

text \<open>
  What writing a blob file can do: become durable, or fail and leave behind whatever the file then
  holds (\<open>None\<close>: the file was not touched).
\<close>

datatype blob_io = BlobOk | BlobErr io_error "bytes option"

definition write_blob_durable :: "blob_io \<Rightarrow> bytes \<Rightarrow> bytes \<Rightarrow> value_store \<Rightarrow> unit eresult \<times> value_store" where
  "write_blob_durable bio h v vs =
     (case bio of
        BlobOk \<Rightarrow> (Inr (), vs\<lparr>vs_blobs := om_insert h v (vs_blobs vs)\<rparr>)
      | BlobErr e None \<Rightarrow> (Inl (Io e), vs)
      | BlobErr e (Some left) \<Rightarrow> (Inl (Io e), vs\<lparr>vs_blobs := om_insert h left (vs_blobs vs)\<rparr>))"

definition vs_put :: "(bytes \<Rightarrow> bytes) \<Rightarrow> blob_io \<Rightarrow> bytes \<Rightarrow> value_store \<Rightarrow> bytes eresult \<times> value_store" where
  "vs_put blake3 bio v vs =
     (let h = content_hash blake3 v;
          c = refcount vs h + 1;
          vs1 = vs\<lparr>vs_refs := om_insert h c (vs_refs vs)\<rparr>
      in if c = 1
         then (case write_blob_durable bio h v vs1 of
                 (Inl e, vs2) \<Rightarrow> (Inl e, snd (vs_dec h vs2))
               | (Inr _, vs2) \<Rightarrow> (Inr h, vs2))
         else (Inr h, vs1))"

text \<open>\<open>rd h\<close> is the error the kernel answers when the blob file of \<open>h\<close> is read, if any.\<close>

definition vs_get :: "(bytes \<Rightarrow> io_error option) \<Rightarrow> value_store \<Rightarrow> bytes \<Rightarrow> bytes eresult" where
  "vs_get rd vs h =
     (case rd h of
        Some e \<Rightarrow> Inl (Io e)
      | None \<Rightarrow> ok_or (om_lookup (vs_blobs vs) h) (Io NotFound))"

definition incr_ref :: "bytes \<Rightarrow> value_store \<Rightarrow> value_store" where
  "incr_ref h vs = vs\<lparr>vs_refs := om_insert h (refcount vs h + 1) (vs_refs vs)\<rparr>"

definition unref :: "bytes \<Rightarrow> value_store \<Rightarrow> value_store" where
  "unref h vs = (case vs_dec h vs of
       (True, vs1) \<Rightarrow> vs1\<lparr>vs_pending := vs_pending vs1 @ [h]\<rparr>
     | (False, vs1) \<Rightarrow> vs1)"

text \<open>\<open>rm h\<close> says whether unlinking the blob file of \<open>h\<close> succeeds; the code ignores a failure.\<close>

definition gc_one :: "(bytes \<Rightarrow> bool) \<Rightarrow> bytes \<Rightarrow> value_store \<Rightarrow> value_store" where
  "gc_one rm h vs =
     (if refcount vs h = 0 \<and> rm h then vs\<lparr>vs_blobs := om_delete h (vs_blobs vs)\<rparr> else vs)"

definition collect_garbage :: "(bytes \<Rightarrow> bool) \<Rightarrow> value_store \<Rightarrow> value_store" where
  "collect_garbage rm vs = fold (gc_one rm) (vs_pending vs) (vs\<lparr>vs_pending := []\<rparr>)"

text \<open>\<open>keep\<close> holds the blobs a failing \<^verbatim>\<open>remove_dir_all\<close> leaves behind; its result is ignored.\<close>

definition vs_clear :: "(bytes \<Rightarrow> bool) \<Rightarrow> value_store \<Rightarrow> value_store" where
  "vs_clear keep vs =
     vs\<lparr>vs_refs := om_empty, vs_pending := [], vs_blobs := om_filter (\<lambda>(h, b). keep h) (vs_blobs vs)\<rparr>"

text \<open>\<open>listable\<close> is whether the blob directory can be listed; if not, nothing is swept.\<close>

definition sweep_orphans :: "bool \<Rightarrow> (bytes \<Rightarrow> bool) \<Rightarrow> value_store \<Rightarrow> nat \<times> value_store" where
  "sweep_orphans listable rm vs =
     (if \<not> listable then (0, vs)
      else let orphans = filter (\<lambda>h. om_lookup (vs_refs vs) h = None) (om_keys (vs_blobs vs))
           in (length orphans,
               vs\<lparr>vs_blobs := fold (\<lambda>h m. if rm h then om_delete h m else m) orphans (vs_blobs vs)\<rparr>))"

section \<open>Reference counts\<close>

definition vs_pos :: "value_store \<Rightarrow> bool" where
  "vs_pos vs \<longleftrightarrow> (\<forall>h. om_lookup (vs_refs vs) h \<noteq> Some 0)"

lemma vs_pos_refcount: "vs_pos vs \<Longrightarrow> refcount vs h = 0 \<longleftrightarrow> om_lookup (vs_refs vs) h = None"
  by (cases "om_lookup (vs_refs vs) h") (auto simp: refcount_def vs_pos_def intro!: Nat.gr0I)

lemma refcount_vs_new [simp]: "refcount (vs_new b) h = 0"
  by (simp add: refcount_def vs_new_def)

lemma refcount_dec: "refcount (snd (vs_dec h vs)) h' = (if h' = h then refcount vs h - 1 else refcount vs h')"
  by (auto simp: vs_dec_def refcount_def Let_def split: option.splits)

lemma fst_dec:
  assumes "vs_pos vs"
  shows "fst (vs_dec h vs) \<longleftrightarrow> refcount vs h = 1"
proof (cases "om_lookup (vs_refs vs) h")
  case (Some c)
  then have "c \<noteq> 0" using assms by (metis vs_pos_def)
  with Some show ?thesis by (auto simp: vs_dec_def refcount_def Let_def)
qed (simp add: vs_dec_def refcount_def)

lemma vs_dec_keeps [simp]:
  "vs_blobs (snd (vs_dec h vs)) = vs_blobs vs" "vs_pending (snd (vs_dec h vs)) = vs_pending vs"
  by (auto simp: vs_dec_def Let_def split: option.splits)

lemma refcount_unref [simp]: "refcount (unref h vs) h' = (if h' = h then refcount vs h - 1 else refcount vs h')"
  using refcount_dec[of h vs h']
  by (cases "vs_dec h vs") (auto simp: unref_def refcount_def split: bool.splits)

lemma vs_blobs_unref [simp]: "vs_blobs (unref h vs) = vs_blobs vs"
  using vs_dec_keeps(1)[of h vs] by (cases "vs_dec h vs") (auto simp: unref_def split: bool.splits)

lemma vs_pending_unref: "vs_pos vs \<Longrightarrow>
  vs_pending (unref h vs) = (if refcount vs h = 1 then vs_pending vs @ [h] else vs_pending vs)"
  using vs_dec_keeps(2)[of h vs] fst_dec[of vs h]
  by (cases "vs_dec h vs") (auto simp: unref_def split: bool.splits)

lemma vs_pos_dec [simp]: "vs_pos vs \<Longrightarrow> vs_pos (snd (vs_dec h vs))"
  by (auto simp: vs_pos_def vs_dec_def Let_def split: option.splits)

lemma vs_pos_unref [simp]: "vs_pos vs \<Longrightarrow> vs_pos (unref h vs)"
  using vs_pos_dec[of vs h]
  by (cases "vs_dec h vs") (auto simp: unref_def vs_pos_def split: bool.splits)

lemma refcount_incr [simp]: "refcount (incr_ref h vs) h' = (if h' = h then Suc (refcount vs h) else refcount vs h')"
  by (simp add: incr_ref_def refcount_def)

lemma vs_pos_incr [simp]: "vs_pos vs \<Longrightarrow> vs_pos (incr_ref h vs)"
  by (auto simp: vs_pos_def incr_ref_def)

text \<open>The three ways a \<^verbatim>\<open>put\<close> can go.\<close>

lemma vs_put_cases:
  obtains (dup) "refcount vs (content_hash bl v) \<noteq> 0"
      "vs_put bl bio v vs = (Inr (content_hash bl v), incr_ref (content_hash bl v) vs)"
    | (first) "refcount vs (content_hash bl v) = 0" "bio = BlobOk"
      "vs_put bl bio v vs = (Inr (content_hash bl v),
         (incr_ref (content_hash bl v) vs)\<lparr>vs_blobs := om_insert (content_hash bl v) v (vs_blobs vs)\<rparr>)"
    | (failed) e left where "refcount vs (content_hash bl v) = 0" "bio = BlobErr e left"
      "vs_put bl bio v vs = (Inl (Io e), vs\<lparr>vs_refs := om_delete (content_hash bl v) (vs_refs vs),
         vs_blobs := (case left of None \<Rightarrow> vs_blobs vs
                      | Some b \<Rightarrow> om_insert (content_hash bl v) b (vs_blobs vs))\<rparr>)"
proof (cases "refcount vs (content_hash bl v) = 0")
  case False
  then show ?thesis using dup by (simp add: vs_put_def Let_def incr_ref_def)
next
  case True
  show ?thesis
  proof (cases bio)
    case BlobOk
    then show ?thesis using True first by (simp add: vs_put_def Let_def incr_ref_def write_blob_durable_def)
  next
    case (BlobErr e left)
    then show ?thesis
      using True failed[of e left]
      by (cases left) (simp_all add: vs_put_def Let_def write_blob_durable_def vs_dec_def)
  qed
qed

lemma refcount_blobs_update [simp]: "refcount (vs\<lparr>vs_blobs := b\<rparr>) h = refcount vs h"
  by (simp add: refcount_def)

lemma vs_pos_blobs_update [simp]: "vs_pos (vs\<lparr>vs_blobs := b\<rparr>) = vs_pos vs"
  by (simp add: vs_pos_def)

lemma vs_put_ok_refcount:
  assumes "vs_put bl bio v vs = (Inr h, vs')"
  shows "h = content_hash bl v"
    and "refcount vs' h' = (if h' = h then Suc (refcount vs h) else refcount vs h')"
  using assms by (cases rule: vs_put_cases[of vs bl v bio]; auto)+

lemma vs_put_err_refcount:
  assumes "vs_put bl bio v vs = (Inl e, vs')"
  shows "refcount vs' h' = refcount vs h'"
  using assms by (cases rule: vs_put_cases[of vs bl v bio]) (auto simp: refcount_def split: option.splits)

lemma vs_pos_put [simp]: "vs_pos vs \<Longrightarrow> vs_pos (snd (vs_put bl bio v vs))"
  by (cases rule: vs_put_cases[of vs bl v bio]) (auto simp: vs_pos_def incr_ref_def)

section \<open>Referenced blobs stay on disk\<close>

definition blob_ok :: "(bytes \<Rightarrow> bytes) \<Rightarrow> value_store \<Rightarrow> bytes \<Rightarrow> bool" where
  "blob_ok bl vs h \<longleftrightarrow> (\<exists>v. om_lookup (vs_blobs vs) h = Some v \<and> content_hash bl v = h)"

definition vs_inv :: "(bytes \<Rightarrow> bytes) \<Rightarrow> value_store \<Rightarrow> bool" where
  "vs_inv bl vs \<longleftrightarrow> vs_pos vs \<and> (\<forall>h. refcount vs h \<noteq> 0 \<longrightarrow> blob_ok bl vs h)"

lemma vs_invD: "vs_inv bl vs \<Longrightarrow> refcount vs h \<noteq> 0 \<Longrightarrow> blob_ok bl vs h"
  by (simp add: vs_inv_def)

lemma vs_inv_pos [simp]: "vs_inv bl vs \<Longrightarrow> vs_pos vs"
  by (simp add: vs_inv_def)

lemma vs_inv_new [simp]: "vs_inv bl (vs_new b)"
  by (simp add: vs_inv_def vs_pos_def vs_new_def refcount_def)

lemma blob_ok_cong: "om_lookup (vs_blobs vs') h = om_lookup (vs_blobs vs) h \<Longrightarrow> blob_ok bl vs' h = blob_ok bl vs h"
  by (simp add: blob_ok_def)

lemma vs_blobs_incr [simp]: "vs_blobs (incr_ref h vs) = vs_blobs vs"
  by (simp add: incr_ref_def)

lemma vs_invI:
  assumes "vs_inv bl vs" "vs_pos vs'"
    and "\<And>h. refcount vs' h \<noteq> 0 \<Longrightarrow> blob_ok bl vs' h \<or>
           (refcount vs h \<noteq> 0 \<and> om_lookup (vs_blobs vs') h = om_lookup (vs_blobs vs) h)"
  shows "vs_inv bl vs'"
  unfolding vs_inv_def using assms by (metis blob_ok_cong vs_inv_def)

lemma vs_put_err_blobs:
  assumes "vs_put bl bio v vs = (Inl e, vs')" "refcount vs h \<noteq> 0"
  shows "om_lookup (vs_blobs vs') h = om_lookup (vs_blobs vs) h"
  using assms by (cases rule: vs_put_cases[of vs bl v bio]) (auto split: option.splits)

lemma vs_put_ok_blobs:
  assumes "vs_put bl bio v vs = (Inr h, vs')"
  shows "om_lookup (vs_blobs vs') h' =
    (if h' = content_hash bl v \<and> refcount vs h' = 0 then Some v else om_lookup (vs_blobs vs) h')"
  using assms by (cases rule: vs_put_cases[of vs bl v bio]) auto

lemma vs_inv_put:
  assumes inv: "vs_inv bl vs" and put: "vs_put bl bio v vs = (r, vs')"
  shows "vs_inv bl vs'"
proof (rule vs_invI[OF inv])
  show "vs_pos vs'" using vs_pos_put[of vs bl bio v] inv put by simp
next
  fix h
  assume pos: "refcount vs' h \<noteq> 0"
  show "blob_ok bl vs' h \<or> (refcount vs h \<noteq> 0 \<and> om_lookup (vs_blobs vs') h = om_lookup (vs_blobs vs) h)"
  proof (cases r)
    case (Inl e)
    with put pos show ?thesis using vs_put_err_refcount vs_put_err_blobs by metis
  next
    case (Inr g)
    with put have p: "vs_put bl bio v vs = (Inr g, vs')" by simp
    note c = vs_put_ok_refcount[OF p] vs_put_ok_blobs[OF p]
    show ?thesis
    proof (cases "refcount vs h = 0")
      case True
      then show ?thesis using pos c by (simp add: blob_ok_def split: if_splits)
    qed (simp add: c)
  qed
qed

lemma vs_inv_unref [simp]: "vs_inv bl vs \<Longrightarrow> vs_inv bl (unref h vs)"
  by (rule vs_invI[of bl vs]) (auto split: if_splits)

lemma vs_inv_incr: "vs_inv bl vs \<Longrightarrow> blob_ok bl vs h \<Longrightarrow> vs_inv bl (incr_ref h vs)"
  by (rule vs_invI[of bl vs]) (auto simp: blob_ok_def split: if_splits)

lemma gc_one_simps [simp]:
  "vs_refs (gc_one rm x vs) = vs_refs vs"
  "om_lookup (vs_blobs (gc_one rm x vs)) h =
     (if h = x \<and> refcount vs h = 0 \<and> rm h then None else om_lookup (vs_blobs vs) h)"
  by (auto simp: gc_one_def)

lemma gc_one_refcount [simp]: "refcount (gc_one rm x vs) h = refcount vs h"
  by (simp add: refcount_def)

lemma gc_fold_refs [simp]: "vs_refs (fold (gc_one rm) hs vs) = vs_refs vs"
  by (induction hs arbitrary: vs) auto

lemma gc_fold_blobs:
  "om_lookup (vs_blobs (fold (gc_one rm) hs vs)) h =
     (if h \<in> set hs \<and> refcount vs h = 0 \<and> rm h then None else om_lookup (vs_blobs vs) h)"
  by (induction hs arbitrary: vs) auto

lemma refcount_pending_update [simp]: "refcount (vs\<lparr>vs_pending := p\<rparr>) h = refcount vs h"
  by (simp add: refcount_def)

lemma collect_garbage_blobs:
  "om_lookup (vs_blobs (collect_garbage rm vs)) h =
     (if h \<in> set (vs_pending vs) \<and> refcount vs h = 0 \<and> rm h then None else om_lookup (vs_blobs vs) h)"
  by (simp add: collect_garbage_def gc_fold_blobs)

lemma collect_garbage_refs [simp]: "vs_refs (collect_garbage rm vs) = vs_refs vs"
  by (simp add: collect_garbage_def)

lemma collect_garbage_refcount [simp]: "refcount (collect_garbage rm vs) h = refcount vs h"
  by (simp add: refcount_def)

lemma collect_garbage_inv [simp]: "vs_inv bl vs \<Longrightarrow> vs_inv bl (collect_garbage rm vs)"
  by (rule vs_invI[of bl vs]) (auto simp: collect_garbage_blobs vs_pos_def vs_inv_def)

lemma fold_delete_lookup:
  "om_lookup (fold (\<lambda>h m. if rm h then om_delete h m else m) hs m) k =
     (if k \<in> set hs \<and> rm k then None else om_lookup m k)"
  by (induction hs arbitrary: m) auto

lemma sweep_orphans_blobs:
  "om_lookup (vs_blobs (snd (sweep_orphans ls rm vs))) h =
     (if ls \<and> om_lookup (vs_refs vs) h = None \<and> rm h then None else om_lookup (vs_blobs vs) h)"
  by (auto simp: sweep_orphans_def Let_def fold_delete_lookup set_om_keys)

lemma sweep_orphans_refs [simp]: "vs_refs (snd (sweep_orphans ls rm vs)) = vs_refs vs"
  by (simp add: sweep_orphans_def Let_def)

lemma sweep_orphans_inv [simp]: "vs_inv bl vs \<Longrightarrow> vs_inv bl (snd (sweep_orphans ls rm vs))"
  by (rule vs_invI[of bl vs]) (auto simp: sweep_orphans_blobs vs_pos_def vs_inv_def refcount_def)

section \<open>Blob file names\<close>

lemma hex_digit_value:
  assumes "n < 16"
  shows "hex_value (hex_digit n) = Some n"
proof -
  have "\<forall>n \<in> set [0..<16]. hex_value (hex_digit n) = Some n" by code_simp
  with assms show ?thesis by simp
qed

lemma hex_digit_not_plus: "n < 16 \<Longrightarrow> hex_digit n \<noteq> 43"
proof -
  assume "n < 16"
  then have "hex_value (hex_digit n) = Some n" by (rule hex_digit_value)
  moreover have "hex_value 43 = None" by (simp add: hex_value_def)
  ultimately show ?thesis by auto
qed

lemma radix16_hex: "radix16_pair (hex_digit (unat b div 16)) (hex_digit (unat b mod 16)) = Some b"
proof -
  have "unat b < 256" using unsigned_less[of b, where 'a = nat] by simp
  then have "unat b div 16 < 16" by simp
  moreover have "of_nat (16 * (unat b div 16) + unat b mod 16) = b" by simp
  ultimately show ?thesis
    by (simp add: radix16_pair_def hex_digit_value hex_digit_not_plus del: of_nat_add of_nat_mult)
qed

lemma parse_hex16: "parse_hex_pairs (hex16 h) = Some h"
  by (induction h) (simp_all add: hex16_def radix16_hex)

lemma length_hex16 [simp]: "length (hex16 h) = 2 * length h"
  by (induction h) (simp_all add: hex16_def)

lemma parse_blob_name_blob_name: "length h = 16 \<Longrightarrow> parse_blob_name (blob_name h) = Some h"
  by (simp add: parse_blob_name_def blob_name_def ascii_def starts_with_def parse_hex16)

section \<open>Properties\<close>

text \<open>
  The states a blob store can reach. What the kernel answers, and which blobs an open rebuilds references
  for, is free in every step.
\<close>

inductive vs_reach :: "(bytes \<Rightarrow> bytes) \<Rightarrow> value_store \<Rightarrow> bool" for bl where
  start: "vs_reach bl (vs_new blobs)"
| rebuild: "vs_reach bl vs \<Longrightarrow> blob_ok bl vs h \<Longrightarrow> vs_reach bl (incr_ref h vs)"
| put: "vs_reach bl vs \<Longrightarrow> vs_put bl bio v vs = (r, vs') \<Longrightarrow> vs_reach bl vs'"
| drop: "vs_reach bl vs \<Longrightarrow> vs_reach bl (unref h vs)"
| gc: "vs_reach bl vs \<Longrightarrow> vs_reach bl (collect_garbage rm vs)"
| sweep: "vs_reach bl vs \<Longrightarrow> vs_reach bl (snd (sweep_orphans ls rm vs))"
| clear: "vs_reach bl vs \<Longrightarrow> vs_reach bl (vs_clear keep vs)"

lemma vs_reach_inv: "vs_reach bl vs \<Longrightarrow> vs_inv bl vs"
  by (induction rule: vs_reach.induct)
    (auto simp: vs_inv_incr vs_inv_put, simp add: vs_inv_def vs_clear_def vs_pos_def refcount_def)



text \<open>
  C24. \<^verbatim>\<open>collect_garbage\<close> removes a blob file exactly when it was queued, is still unreferenced, and the
  unlink succeeds; it changes no reference count and leaves the queue empty.
\<close>

theorem collect_garbage_exact:
  "(om_lookup (vs_blobs (collect_garbage rm vs)) h =
     (if h \<in> set (vs_pending vs) \<and> refcount vs h = 0 \<and> rm h then None else om_lookup (vs_blobs vs) h)) \<and>
   refcount (collect_garbage rm vs) h = refcount vs h \<and> vs_pending (collect_garbage rm vs) = []"
proof -
  have "vs_pending (fold (gc_one rm) hs vs) = vs_pending vs" for hs and vs :: value_store
    by (induction hs arbitrary: vs) (auto simp: gc_one_def)
  then show ?thesis by (simp add: collect_garbage_blobs) (simp add: collect_garbage_def)
qed

text \<open>
  C25. The file name of a blob names its hash: parsing the name \<^verbatim>\<open>path\<close> builds for a 16-byte hash gives the
  hash back, so the orphan sweep sees every blob file under the hash it was written for.
\<close>

theorem blob_name_roundtrip:
  assumes "length h = 16"
  shows "parse_blob_name (blob_name h) = Some h"
  using assms by (rule parse_blob_name_blob_name)

theorem blob_name_roundtrip_witness: "parse_blob_name (blob_name (replicate 16 0xAF)) = Some (replicate 16 0xAF)"
  by (rule blob_name_roundtrip) simp

end
