(* ===== verification/Watch.thy ===== *)
theory Watch
  imports Engine_Types "HOL-Library.Product_Lexorder"
begin

text \<open>
  \<^verbatim>\<open>engine/src/watch.rs\<close>: watch events, key filters and the subscription registry of a shard. A sender
  of the bounded channel (\<^verbatim>\<open>futures_channel::mpsc\<close>) is a value of type \<open>'s\<close>; the channel operations are
  parameters: \<open>is_closed\<close>, \<open>try_send\<close> (\<open>None\<close> is its \<^verbatim>\<open>Err\<close>, a full or disconnected channel) and \<open>mk\<close>, the
  sending half of a fresh channel of a given capacity. The lemmas show who receives a notification, who
  is pruned by it, and that the number of subscriptions never exceeds the registry's cap.
\<close>

section \<open>Model\<close>

abbreviation WATCH_CHANNEL_CAPACITY :: nat where
  "WATCH_CHANNEL_CAPACITY \<equiv> 512"

abbreviation MAX_TOTAL_SUBSCRIPTIONS :: nat where
  "MAX_TOTAL_SUBSCRIPTIONS \<equiv> 65536"

datatype 'j watch_event =
    WatchSet bytes bytes "'j option" "u64 option" u64
  | WatchDel bytes u64

fun event_revision :: "'j watch_event \<Rightarrow> u64" where
  "event_revision (WatchSet k v m x r) = r"
| "event_revision (WatchDel k r) = r"

datatype key_filter = FilterExact bytes | FilterPrefix bytes

fun filter_matches :: "key_filter \<Rightarrow> bytes \<Rightarrow> bool" where
  "filter_matches (FilterExact k) key \<longleftrightarrow> k = key"
| "filter_matches (FilterPrefix p) key \<longleftrightarrow> starts_with key p"

record 's watch_registry =
  wr_keys :: "(bytes \<times> bytes, 's list) omap"
  wr_prefixes :: "((bytes \<times> bytes) \<times> 's) list"

definition wr_new :: "'s watch_registry" where
  "wr_new = \<lparr>wr_keys = om_empty, wr_prefixes = []\<rparr>"

definition total_subscriptions :: "'s watch_registry \<Rightarrow> nat" where
  "total_subscriptions reg = om_sum length (wr_keys reg) + length (wr_prefixes reg)"

definition live_prefixes :: "('s \<Rightarrow> bool) \<Rightarrow> ((bytes \<times> bytes) \<times> 's) list \<Rightarrow> ((bytes \<times> bytes) \<times> 's) list" where
  "live_prefixes is_closed ps = filter (\<lambda>(p, tx). \<not> is_closed tx) ps"

definition prune_all :: "('s \<Rightarrow> bool) \<Rightarrow> 's watch_registry \<Rightarrow> 's watch_registry" where
  "prune_all is_closed reg =
     \<lparr>wr_keys = om_filter (\<lambda>(k, ss). ss \<noteq> []) (om_map (filter (\<lambda>tx. \<not> is_closed tx)) (wr_keys reg)),
      wr_prefixes = live_prefixes is_closed (wr_prefixes reg)\<rparr>"

definition ensure_capacity :: "('s \<Rightarrow> bool) \<Rightarrow> 's watch_registry \<Rightarrow> unit eresult \<times> 's watch_registry" where
  "ensure_capacity is_closed reg =
     (if total_subscriptions reg < MAX_TOTAL_SUBSCRIPTIONS then (Inr (), reg)
      else let reg' = prune_all is_closed reg
           in if total_subscriptions reg' \<ge> MAX_TOTAL_SUBSCRIPTIONS
              then (Inl (CapacityExceeded ''watch subscription limit reached''), reg')
              else (Inr (), reg'))"

definition senders_of :: "'s watch_registry \<Rightarrow> bytes \<times> bytes \<Rightarrow> 's list" where
  "senders_of reg k = (case om_lookup (wr_keys reg) k of Some ss \<Rightarrow> ss | None \<Rightarrow> [])"

definition prune_key :: "('s \<Rightarrow> bool) \<Rightarrow> bytes \<times> bytes \<Rightarrow> 's watch_registry \<Rightarrow> 's watch_registry" where
  "prune_key is_closed k reg =
     (case om_lookup (wr_keys reg) k of
        Some ss \<Rightarrow> reg\<lparr>wr_keys := om_insert k (filter (\<lambda>tx. \<not> is_closed tx) ss) (wr_keys reg)\<rparr>
      | None \<Rightarrow> reg)"

definition subscribe_key ::
  "('s \<Rightarrow> bool) \<Rightarrow> (nat \<Rightarrow> 's) \<Rightarrow> bytes \<Rightarrow> bytes \<Rightarrow> 's watch_registry \<Rightarrow> 's eresult \<times> 's watch_registry" where
  "subscribe_key is_closed mk ns key reg =
     (case ensure_capacity is_closed (prune_key is_closed (ns, key) reg) of
        (Inl e, reg') \<Rightarrow> (Inl e, reg')
      | (Inr u, reg') \<Rightarrow>
          (let tx = mk WATCH_CHANNEL_CAPACITY
           in (Inr tx, reg'\<lparr>wr_keys := om_insert (ns, key) (senders_of reg' (ns, key) @ [tx]) (wr_keys reg')\<rparr>)))"

definition subscribe_prefix ::
  "('s \<Rightarrow> bool) \<Rightarrow> (nat \<Rightarrow> 's) \<Rightarrow> bytes \<Rightarrow> bytes \<Rightarrow> 's watch_registry \<Rightarrow> 's eresult \<times> 's watch_registry" where
  "subscribe_prefix is_closed mk ns pfx reg =
     (case ensure_capacity is_closed (reg\<lparr>wr_prefixes := live_prefixes is_closed (wr_prefixes reg)\<rparr>) of
        (Inl e, reg') \<Rightarrow> (Inl e, reg')
      | (Inr u, reg') \<Rightarrow>
          (let tx = mk WATCH_CHANNEL_CAPACITY
           in (Inr tx, reg'\<lparr>wr_prefixes := wr_prefixes reg' @ [((ns, pfx), tx)]\<rparr>)))"

definition notify_keys ::
  "('e \<Rightarrow> 's \<Rightarrow> 's option) \<Rightarrow> bytes \<times> bytes \<Rightarrow> 'e \<Rightarrow> (bytes \<times> bytes, 's list) omap \<Rightarrow> (bytes \<times> bytes, 's list) omap" where
  "notify_keys try_send k event keys =
     (case om_lookup keys k of
        None \<Rightarrow> keys
      | Some ss \<Rightarrow>
          (let ss' = List.map_filter (try_send event) ss
           in if ss' = [] then om_delete k keys else om_insert k ss' keys))"

definition notify_prefix ::
  "('e \<Rightarrow> 's \<Rightarrow> 's option) \<Rightarrow> bytes \<Rightarrow> bytes \<Rightarrow> 'e \<Rightarrow> (bytes \<times> bytes) \<times> 's \<Rightarrow> ((bytes \<times> bytes) \<times> 's) option" where
  "notify_prefix try_send ns key event p =
     (case p of ((wns, pfx), tx) \<Rightarrow>
        if wns = ns \<and> starts_with key pfx
        then map_option (\<lambda>tx'. ((wns, pfx), tx')) (try_send event tx)
        else Some p)"

definition notify ::
  "('e \<Rightarrow> 's \<Rightarrow> 's option) \<Rightarrow> bytes \<Rightarrow> bytes \<Rightarrow> 'e \<Rightarrow> 's watch_registry \<Rightarrow> 's watch_registry" where
  "notify try_send ns key event reg =
     (if om_size (wr_keys reg) = 0 \<and> wr_prefixes reg = [] then reg
      else \<lparr>wr_keys = notify_keys try_send (ns, key) event (wr_keys reg),
            wr_prefixes = List.map_filter (notify_prefix try_send ns key event) (wr_prefixes reg)\<rparr>)"

section \<open>Who is notified\<close>

lemma map_filter_none: "(\<And>x. x \<in> set xs \<Longrightarrow> f x = Some x) \<Longrightarrow> List.map_filter f xs = xs"
  by (induction xs) (simp_all add: List.map_filter_def)

lemma length_map_filter: "length (List.map_filter f xs) \<le> length xs"
  by (simp add: List.map_filter_def)

lemma om_size_0_lookup: "om_size m = 0 \<Longrightarrow> om_lookup m k = None"
  by (simp add: om_size_0_iff)

lemma senders_notify:
  "senders_of (notify try_send ns key ev reg) k =
     (if k = (ns, key) then List.map_filter (try_send ev) (senders_of reg k) else senders_of reg k)"
  by (auto simp: notify_def senders_of_def notify_keys_def Let_def om_size_0_lookup List.map_filter_def
      split: option.splits)

lemma prefixes_notify:
  "wr_prefixes (notify try_send ns key ev reg) =
     List.map_filter (notify_prefix try_send ns key ev) (wr_prefixes reg)"
  by (auto simp: notify_def List.map_filter_def)

section \<open>The subscription cap\<close>

lemma om_sum_map_le:
  "(\<And>v. g (f v) \<le> g v) \<Longrightarrow> om_sum g (om_map f m) \<le> om_sum (g :: _ \<Rightarrow> nat) m"
proof -
  assume le: "\<And>v. g (f v) \<le> g v"
  have "sum_list (map (\<lambda>(k, v). g v) (map (\<lambda>(k, v). (k, f v)) ps)) \<le> sum_list (map (\<lambda>(k, v). g v) ps)" for ps
    by (induction ps) (auto intro: add_mono le)
  then show ?thesis by (simp add: om_sum_def)
qed

lemma om_sum_filter_le: "om_sum f (om_filter P m) \<le> om_sum f m"
  using om_sum_filter_split[of f P m] by simp

lemma om_sum_insert_le: "om_lookup m k = Some w \<Longrightarrow> f v \<le> f w \<Longrightarrow> om_sum f (om_insert k v m) \<le> om_sum f m"
  using om_sum_insert_Some[of m k w f v] by simp

lemma om_sum_delete_le: "om_sum f (om_delete k m) \<le> om_sum f m"
  by (cases "om_lookup m k") (use om_sum_delete_Some[of m k _ f] in \<open>force simp: om_delete_absent\<close>)+

lemma total_prune_all: "total_subscriptions (prune_all ic reg) \<le> total_subscriptions reg"
proof -
  let ?m = "om_map (filter (\<lambda>tx. \<not> ic tx)) (wr_keys reg)"
  have "om_sum length (om_filter (\<lambda>(k, ss). ss \<noteq> []) ?m) \<le> om_sum length ?m"
    by (rule om_sum_filter_le)
  also have "\<dots> \<le> om_sum length (wr_keys reg)"
    by (rule om_sum_map_le) simp
  finally show ?thesis
    by (simp add: total_subscriptions_def prune_all_def live_prefixes_def add_mono)
qed

lemma total_prune_key: "total_subscriptions (prune_key ic k reg) \<le> total_subscriptions reg"
  by (auto simp: total_subscriptions_def prune_key_def intro!: om_sum_insert_le split: option.splits)

lemma total_live_prefixes:
  "total_subscriptions (reg\<lparr>wr_prefixes := live_prefixes ic (wr_prefixes reg)\<rparr>) \<le> total_subscriptions reg"
  by (simp add: total_subscriptions_def live_prefixes_def)

lemma ensure_capacity_total:
  assumes "ensure_capacity ic reg = (r, reg')"
  shows "total_subscriptions reg' \<le> total_subscriptions reg"
    and "r = Inr u \<Longrightarrow> total_subscriptions reg' < MAX_TOTAL_SUBSCRIPTIONS"
  using assms total_prune_all[of ic reg] by (auto simp: ensure_capacity_def Let_def split: if_splits)

lemma total_add_key:
  "total_subscriptions (reg\<lparr>wr_keys := om_insert k (senders_of reg k @ [tx]) (wr_keys reg)\<rparr>) =
     Suc (total_subscriptions reg)"
proof (cases "om_lookup (wr_keys reg) k")
  case None
  then show ?thesis
    using om_sum_insert_None[of "wr_keys reg" k length "[tx]"]
    by (simp add: total_subscriptions_def senders_of_def)
next
  case (Some ss)
  then show ?thesis
    using om_sum_insert_Some[of "wr_keys reg" k ss length "ss @ [tx]"]
    by (simp add: total_subscriptions_def senders_of_def)
qed

lemma subscribe_key_cap:
  assumes "total_subscriptions reg \<le> MAX_TOTAL_SUBSCRIPTIONS"
  shows "total_subscriptions (snd (subscribe_key ic mk ns key reg)) \<le> MAX_TOTAL_SUBSCRIPTIONS"
proof -
  obtain r reg' where e: "ensure_capacity ic (prune_key ic (ns, key) reg) = (r, reg')" by force
  note t = ensure_capacity_total[OF e] total_prune_key[of ic "(ns, key)" reg]
  show ?thesis
    using e t assms by (cases r) (auto simp: subscribe_key_def Let_def total_add_key)
qed

lemma subscribe_prefix_cap:
  assumes "total_subscriptions reg \<le> MAX_TOTAL_SUBSCRIPTIONS"
  shows "total_subscriptions (snd (subscribe_prefix ic mk ns p reg)) \<le> MAX_TOTAL_SUBSCRIPTIONS"
proof -
  let ?reg = "reg\<lparr>wr_prefixes := live_prefixes ic (wr_prefixes reg)\<rparr>"
  obtain r reg' where e: "ensure_capacity ic ?reg = (r, reg')" by force
  note t = ensure_capacity_total[OF e] total_live_prefixes[of ic reg]
  show ?thesis
    using e t assms by (cases r) (auto simp: subscribe_prefix_def Let_def total_subscriptions_def)
qed

lemma notify_cap: "total_subscriptions (notify ts ns key ev reg) \<le> total_subscriptions reg"
proof -
  have "om_sum length (notify_keys ts (ns, key) ev (wr_keys reg)) \<le> om_sum length (wr_keys reg)"
    by (auto simp: notify_keys_def Let_def length_map_filter
        intro!: om_sum_insert_le om_sum_delete_le split: option.splits)
  then show ?thesis
    using length_map_filter[of "notify_prefix ts ns key ev" "wr_prefixes reg"]
    by (auto simp: notify_def total_subscriptions_def)
qed

section \<open>Properties\<close>


text \<open>The registries a shard can reach; which channels are closed, and what they accept (\<open>send\<close>, the
  attempt to send the event at hand), is free in every step.\<close>

inductive wr_reach :: "'s watch_registry \<Rightarrow> bool" where
  start: "wr_reach wr_new"
| sub_key: "wr_reach reg \<Longrightarrow> wr_reach (snd (subscribe_key is_closed mk ns k reg))"
| sub_prefix: "wr_reach reg \<Longrightarrow> wr_reach (snd (subscribe_prefix is_closed mk ns p reg))"
| notified: "wr_reach reg \<Longrightarrow> wr_reach (notify (\<lambda>u :: unit. send) ns k () reg)"

text \<open>
  C27. However clients subscribe and disconnect, a registry never holds more than 65536 subscriptions.
\<close>

theorem subscriptions_bounded:
  assumes "wr_reach reg"
  shows "total_subscriptions reg \<le> MAX_TOTAL_SUBSCRIPTIONS"
  using assms
proof (induction rule: wr_reach.induct)
  case start
  show ?case by (simp add: total_subscriptions_def wr_new_def)
next
  case (notified reg send ns k)
  show ?case by (rule le_trans[OF notify_cap notified.IH])
next
  case (sub_key reg is_closed mk ns k)
  then show ?case by (intro subscribe_key_cap)
next
  case (sub_prefix reg is_closed mk ns p)
  then show ?case by (intro subscribe_prefix_cap)
qed

theorem subscriptions_bounded_witness:
  "total_subscriptions (snd (subscribe_key (\<lambda>s. False) (\<lambda>n. n) [1] [2] wr_new)) \<le> MAX_TOTAL_SUBSCRIPTIONS"
  by (rule subscriptions_bounded[OF wr_reach.sub_key[OF wr_reach.start]])

end
