(* ===== verification/Ns_Log.thy ===== *)
theory Ns_Log
  imports Log_Recover Value_Store Watch
begin

text \<open>
  \<^verbatim>\<open>engine/src/log/mod.rs\<close>: a namespace's log. Its state is the record \<open>ns_log\<close>; every method is a
  function of that state. What lies outside the code is the \<open>world\<close>: the CRC and hash functions, and what
  the kernel answers to each kind of request. A reading of the wall clock is an argument of the methods
  that take one.

  A method runs to completion here: it starts once \<^verbatim>\<open>await_reclaim\<close> lets it through and it holds the
  key's stripe lock. The gate that arranges this (freeze, drain, in-flight counter, reclaim flag) is
  modelled as a step relation in \<open>Write_Gate\<close>.
\<close>

section \<open>State\<close>

record world =
  w_crc :: "bytes \<Rightarrow> u64"
  w_blake :: "bytes \<Rightarrow> bytes"
  w_env :: fs_env
  w_blob_write :: "bytes \<Rightarrow> blob_io"
  w_blob_read :: "bytes \<Rightarrow> io_error option"
  w_blob_rm :: "bytes \<Rightarrow> bool"
  w_blob_list :: bool
  w_unlink :: "nat \<Rightarrow> bool"
  w_tmp_open_err :: "nat \<Rightarrow> io_error option"
  w_tmp_dev :: "nat \<Rightarrow> device"
  w_tmp_stale :: "nat \<Rightarrow> bytes"
  w_rename_err :: "nat \<Rightarrow> io_error option"
  w_test_seal_fail :: bool

datatype write_condition = KeyAbsent | KeyPresent | Revision u64

fun check_cond :: "write_condition \<Rightarrow> u64 option \<Rightarrow> bool" where
  "check_cond KeyAbsent current_rev \<longleftrightarrow> current_rev = None"
| "check_cond KeyPresent current_rev \<longleftrightarrow> current_rev \<noteq> None"
| "check_cond (Revision r) current_rev \<longleftrightarrow> current_rev = Some r"

text \<open>
  \<open>nl_dir\<close> is what the namespace directory holds by file id. A \<open>log_file\<close> is an open handle and carries
  the contents of its inode, which outlives the name.
\<close>

record ns_log =
  nl_dir :: data_dir
  nl_values :: value_store
  nl_index :: ns_index
  nl_sealed :: "(nat, log_file) omap"
  nl_level :: "(nat, nat) omap"
  nl_active :: log_file
  nl_config :: log_config
  nl_compaction_bytes :: nat
  nl_unsynced_bytes :: nat
  nl_last_tstamp :: u64
  nl_reclaim_in_progress :: bool
  nl_rotate_in_progress :: bool
  nl_frozen :: bool
  nl_in_flight_writes :: nat

text \<open>
  A change to the active file shows through every handle on the same inode: its directory entry, if it
  still has one, and the sealed map, where a failed rotation or reclaim can leave a second \<^verbatim>\<open>Rc\<close> to it.
\<close>

definition set_active :: "log_file \<Rightarrow> ns_log \<Rightarrow> ns_log" where
  "set_active f st =
     st\<lparr>nl_active := f,
        nl_dir := (if om_lookup (nl_dir st) (lf_file_id f) \<noteq> None
                   then om_insert (lf_file_id f) (lf_data f) (nl_dir st) else nl_dir st),
        nl_sealed := (if om_lookup (nl_sealed st) (lf_file_id f) \<noteq> None
                      then om_insert (lf_file_id f) f (nl_sealed st) else nl_sealed st)\<rparr>"

definition with_values :: "(value_store \<Rightarrow> value_store) \<Rightarrow> ns_log \<Rightarrow> ns_log" where
  "with_values g st = st\<lparr>nl_values := g (nl_values st)\<rparr>"

definition with_index :: "(ns_index \<Rightarrow> ns_index) \<Rightarrow> ns_log \<Rightarrow> ns_log" where
  "with_index g st = st\<lparr>nl_index := g (nl_index st)\<rparr>"

definition unref_opt :: "bytes option \<Rightarrow> ns_log \<Rightarrow> ns_log" where
  "unref_opt h st = (case h of Some x \<Rightarrow> with_values (unref x) st | None \<Rightarrow> st)"

section \<open>Opening a namespace\<close>

definition max_tstamp :: "ns_index \<Rightarrow> u64" where
  "max_tstamp ix = fold max (map (\<lambda>(k, e). ie_tstamp_ms e) (entries (ix_map ix))) 0"

definition open_log ::
  "world \<Rightarrow> log_config \<Rightarrow> data_dir \<Rightarrow> (bytes, bytes) omap \<Rightarrow> ns_log eresult \<times> data_dir" where
  "open_log w cfg dir blobs =
     (case open_namespace (w_crc w) (w_env w) dir of
        (Inl e, dir') \<Rightarrow> (Inl e, dir')
      | (Inr opened, dir') \<Rightarrow>
          (let sealed = fold (\<lambda>f m. om_insert (lf_file_id f) f m) (op_sealed opened) om_empty;
               level = om_map (\<lambda>f. 0) sealed;
               values = fold (\<lambda>(k, h). incr_ref h) (entries (ix_valsep (op_index opened))) (vs_new blobs)
           in (Inr \<lparr>nl_dir = dir',
                    nl_values = snd (sweep_orphans (w_blob_list w) (w_blob_rm w) values),
                    nl_index = op_index opened, nl_sealed = sealed, nl_level = level,
                    nl_active = op_active opened, nl_config = cfg, nl_compaction_bytes = 0,
                    nl_unsynced_bytes = 0, nl_last_tstamp = max_tstamp (op_index opened),
                    nl_reclaim_in_progress = False, nl_rotate_in_progress = False,
                    nl_frozen = False, nl_in_flight_writes = 0\<rparr>, dir')))"

section \<open>Sealing and rotation\<close>

definition max_file_id :: "ns_log \<Rightarrow> nat" where
  "max_file_id st = max (fold max (om_keys (nl_sealed st)) 0) (lf_file_id (nl_active st))"

definition next_file_id :: "ns_log \<Rightarrow> nat eresult" where
  "next_file_id st =
     (if max_file_id st + 1 \<le> u32_max then Inr (max_file_id st + 1)
      else Inl (CapacityExceeded ''file_id overflow: namespace has too many log files''))"

definition footer_entry_from_index :: "bytes \<Rightarrow> index_entry \<Rightarrow> u64 option \<Rightarrow> bytes option \<Rightarrow> footer_entry" where
  "footer_entry_from_index key ent expires_at_ms value_hash =
     \<lparr>fe_key = key, fe_record_offset = ie_record_offset ent, fe_record_size = ie_record_size ent,
      fe_expires_at_ms = expires_at_ms, fe_tstamp_ms = ie_tstamp_ms ent, fe_value_hash = value_hash\<rparr>"

definition active_footer :: "ns_log \<Rightarrow> footer_entry list" where
  "active_footer st =
     map (\<lambda>(k, e). footer_entry_from_index k e (ttl_of (nl_index st) k) (valsep (nl_index st) k))
       (filter (\<lambda>(k, e). ie_file_id e = lf_file_id (nl_active st)) (entries (ix_map (nl_index st))))"

definition open_new_active :: "world \<Rightarrow> nat \<Rightarrow> ns_log \<Rightarrow> unit eresult \<times> ns_log" where
  "open_new_active w next_id st =
     (case open_rw (w_env w) next_id (nl_dir st) of
        (Inl e, dir') \<Rightarrow> (Inl e, st\<lparr>nl_dir := dir'\<rparr>)
      | (Inr f, dir') \<Rightarrow> (Inr (), st\<lparr>nl_dir := dir', nl_active := f, nl_unsynced_bytes := 0\<rparr>))"

definition seal_into_sealed :: "ns_log \<Rightarrow> ns_log" where
  "seal_into_sealed st =
     st\<lparr>nl_sealed := om_insert (lf_file_id (nl_active st)) (nl_active st) (nl_sealed st)\<rparr>"

definition rotate_active_inner :: "world \<Rightarrow> ns_log \<Rightarrow> unit eresult \<times> ns_log" where
  "rotate_active_inner w st =
     (case write_footer (w_crc w) (nl_active st) (active_footer st) of
        (Inl e, f) \<Rightarrow> (Inl e, set_active f st)
      | (Inr u, f) \<Rightarrow>
          (let st1 = set_active f st in
           case next_file_id st1 of
             Inl e \<Rightarrow> (Inl e, st1)
           | Inr next_id \<Rightarrow> open_new_active w next_id (seal_into_sealed st1)))"

definition rotate_active :: "world \<Rightarrow> ns_log \<Rightarrow> unit eresult \<times> ns_log" where
  "rotate_active w st =
     (if nl_rotate_in_progress st then (Inr (), st)
      else let (r, st1) = rotate_active_inner w (st\<lparr>nl_rotate_in_progress := True\<rparr>)
           in (r, st1\<lparr>nl_rotate_in_progress := False\<rparr>))"

definition seal_active_for_shutdown :: "world \<Rightarrow> ns_log \<Rightarrow> unit eresult \<times> ns_log" where
  "seal_active_for_shutdown w st =
     (if w_test_seal_fail w then (Inl TestSealFailure, st)
      else let sync = (if nl_unsynced_bytes st \<noteq> 0 then lf_sync (nl_active st) else Inr ())
           in case sync of
                Inl e \<Rightarrow> (Inl e, st)
              | Inr u \<Rightarrow>
                  (let st1 = st\<lparr>nl_unsynced_bytes := 0\<rparr>;
                       (r, f) = write_footer (w_crc w) (nl_active st1) (active_footer st1)
                   in (r, set_active f st1)))"

definition reopen_active_after_seal :: "world \<Rightarrow> ns_log \<Rightarrow> unit eresult \<times> ns_log" where
  "reopen_active_after_seal w st =
     (case next_file_id st of
        Inl e \<Rightarrow> (Inl e, st)
      | Inr next_id \<Rightarrow> open_new_active w next_id (seal_into_sealed st))"

section \<open>Writes\<close>

definition begin_write :: "ns_log \<Rightarrow> ns_log eresult" where
  "begin_write st =
     (if nl_frozen st then Inl Frozen
      else Inr (st\<lparr>nl_in_flight_writes := nl_in_flight_writes st + 1\<rparr>))"

text \<open>The body of a write method between \<^verbatim>\<open>begin_write\<close> and the drop of its guard.\<close>

definition guarded :: "(ns_log \<Rightarrow> 'a eresult \<times> ns_log) \<Rightarrow> ns_log \<Rightarrow> 'a eresult \<times> ns_log" where
  "guarded body st =
     (case begin_write st of
        Inl e \<Rightarrow> (Inl e, st)
      | Inr st1 \<Rightarrow>
          (let (r, st2) = body st1 in (r, st2\<lparr>nl_in_flight_writes := nl_in_flight_writes st2 - 1\<rparr>)))"

definition next_tstamp :: "u64 \<Rightarrow> ns_log \<Rightarrow> u64 \<times> ns_log" where
  "next_tstamp now st =
     (let last = nl_last_tstamp st;
          next = (if last < now then now else last + 1)
      in (next, st\<lparr>nl_last_tstamp := next\<rparr>))"

definition last_revision :: "ns_log \<Rightarrow> u64" where
  "last_revision st = nl_last_tstamp st"

definition expiry_fields :: "u64 option \<Rightarrow> u8 \<times> u64" where
  "expiry_fields expires_at_ms = (case expires_at_ms of Some ms \<Rightarrow> (0, ms) | None \<Rightarrow> (NO_EXPIRY, 0))"

definition maybe_separate :: "world \<Rightarrow> bytes \<Rightarrow> u8 \<Rightarrow> ns_log \<Rightarrow> (bytes option \<times> u8) eresult \<times> ns_log" where
  "maybe_separate w value flags st =
     (if length value \<ge> value_sep_threshold (nl_config st)
      then (case vs_put (w_blake w) (w_blob_write w (content_hash (w_blake w) value)) value (nl_values st) of
              (Inl e, vs) \<Rightarrow> (Inl e, st\<lparr>nl_values := vs\<rparr>)
            | (Inr h, vs) \<Rightarrow> (Inr (Some h, flags OR VALUE_SEP), st\<lparr>nl_values := vs\<rparr>))
      else (Inr (None, flags), st))"

definition append_active :: "bytes \<Rightarrow> ns_log \<Rightarrow> nat eresult \<times> ns_log" where
  "append_active buf st = (let (r, f) = append_buf (nl_active st) buf in (r, set_active f st))"

definition add_unsynced :: "nat \<Rightarrow> ns_log \<Rightarrow> ns_log" where
  "add_unsynced n st = st\<lparr>nl_unsynced_bytes := nl_unsynced_bytes st + n\<rparr>"

definition apply_valsep_insert ::
  "bytes \<Rightarrow> index_entry \<Rightarrow> u64 option \<Rightarrow> bytes option \<Rightarrow> ns_log \<Rightarrow> bytes option \<times> ns_log" where
  "apply_valsep_insert key ent expires_at_ms sep_hash st =
     (valsep (nl_index st) key,
      with_index (\<lambda>ix. set_valsep key sep_hash (ix_insert key ent expires_at_ms ix)) st)"

definition maybe_rotate :: "world \<Rightarrow> 'a \<Rightarrow> ns_log \<Rightarrow> 'a eresult \<times> ns_log" where
  "maybe_rotate w result st =
     (if lf_write_offset (nl_active st) \<ge> rotate_threshold (nl_config st)
      then (case rotate_active w st of
              (Inl e, st1) \<Rightarrow> (Inl e, st1)
            | (Inr u, st1) \<Rightarrow> (Inr result, st1))
      else (Inr result, st))"

text \<open>The part \<^verbatim>\<open>put_full\<close> and \<^verbatim>\<open>put_full_cond\<close> share, from \<^verbatim>\<open>next_tstamp\<close> on.\<close>

definition write_record ::
  "world \<Rightarrow> u64 \<Rightarrow> bytes \<Rightarrow> bytes \<Rightarrow> bytes \<Rightarrow> u64 option \<Rightarrow> ns_log \<Rightarrow> u64 eresult \<times> ns_log" where
  "write_record w clk key value metadata expires_at_ms st =
     (let (tstamp, st1) = next_tstamp clk st;
          (flags0, exp) = expiry_fields expires_at_ms
      in case maybe_separate w value flags0 st1 of
           (Inl e, st2) \<Rightarrow> (Inl e, st2)
         | (Inr (sep_hash, flags), st2) \<Rightarrow>
             (let stored = (case sep_hash of Some h \<Rightarrow> h | None \<Rightarrow> value)
              in case encode_into (w_crc w) [] tstamp flags exp key stored metadata of
                   Inl e \<Rightarrow> (Inl e, st2)
                 | Inr buf \<Rightarrow>
                     (case append_active buf st2 of
                        (Inl e, st3) \<Rightarrow> (Inl e, unref_opt sep_hash st3)
                      | (Inr offset, st3) \<Rightarrow>
                          (let ent = index_entry_new (lf_file_id (nl_active st3)) offset (length buf) tstamp;
                               (old_hash, st4) =
                                 apply_valsep_insert key ent expires_at_ms sep_hash (add_unsynced (length buf) st3)
                           in maybe_rotate w tstamp (unref_opt old_hash st4)))))"

definition put_full ::
  "world \<Rightarrow> u64 \<Rightarrow> bytes \<Rightarrow> bytes \<Rightarrow> bytes \<Rightarrow> u64 option \<Rightarrow> ns_log \<Rightarrow> u64 eresult \<times> ns_log" where
  "put_full w clk key value metadata expires_at_ms =
     guarded (write_record w clk key value metadata expires_at_ms)"

definition live_rev :: "ns_index \<Rightarrow> bytes \<Rightarrow> u64 \<Rightarrow> u64 option" where
  "live_rev ix key now = (if is_expired ix key now then None else map_option ie_tstamp_ms (ix_get ix key))"

definition put_full_cond ::
  "world \<Rightarrow> u64 \<Rightarrow> bytes \<Rightarrow> bytes \<Rightarrow> bytes \<Rightarrow> u64 option \<Rightarrow> write_condition \<Rightarrow> u64 \<Rightarrow> ns_log \<Rightarrow>
     u64 option eresult \<times> ns_log" where
  "put_full_cond w clk key value metadata expires_at_ms cond now =
     guarded (\<lambda>st.
       if \<not> check_cond cond (live_rev (nl_index st) key now) then (Inr None, st)
       else (case write_record w clk key value metadata expires_at_ms st of
               (Inl e, st1) \<Rightarrow> (Inl e, st1)
             | (Inr tstamp, st1) \<Rightarrow> (Inr (Some tstamp), st1)))"

text \<open>
  The encoding loop of \<^verbatim>\<open>put_many\<close>: the buffer, the layout (start, size, timestamp) and the blob hashes
  so far. \<open>clks\<close> are the clock readings, one per pair.
\<close>

fun put_many_encode ::
  "world \<Rightarrow> u64 list \<Rightarrow> (bytes \<times> bytes) list \<Rightarrow> bytes \<Rightarrow> (nat \<times> nat \<times> u64) list \<Rightarrow> bytes option list \<Rightarrow> ns_log \<Rightarrow>
     (bytes \<times> (nat \<times> nat \<times> u64) list \<times> bytes option list) eresult \<times> ns_log" where
  "put_many_encode w clks [] buf layout seps st = (Inr (buf, layout, seps), st)"
| "put_many_encode w clks ((k, v) # pairs) buf layout seps st =
     (let (tstamp, st1) = next_tstamp (case clks of [] \<Rightarrow> 0 | c # cs \<Rightarrow> c) st
      in case maybe_separate w v NO_EXPIRY st1 of
           (Inl e, st2) \<Rightarrow> (Inl e, st2)
         | (Inr (sh, flags), st2) \<Rightarrow>
             (let stored = (case sh of Some h \<Rightarrow> h | None \<Rightarrow> v)
              in case encode_into (w_crc w) buf tstamp flags 0 k stored [] of
                   Inl e \<Rightarrow> (Inl e, st2)
                 | Inr buf' \<Rightarrow>
                     put_many_encode w (tl clks) pairs buf'
                       (layout @ [(length buf, length buf' - length buf, tstamp)]) (seps @ [sh]) st2))"

text \<open>The index loop of \<^verbatim>\<open>put_many\<close>; it collects the blob hashes the batch supersedes.\<close>

fun put_many_index ::
  "nat \<Rightarrow> nat \<Rightarrow> ((bytes \<times> nat \<times> nat \<times> u64) \<times> bytes option) list \<Rightarrow> bytes list \<Rightarrow> ns_index \<Rightarrow> bytes list \<times> ns_index" where
  "put_many_index fid base [] olds ix = (olds, ix)"
| "put_many_index fid base (((k, rel_start, sz, tstamp), sh) # rest) olds ix =
     (let ent = index_entry_new fid (base + rel_start) sz tstamp;
          olds' = (case valsep ix k of Some oh \<Rightarrow> olds @ [oh] | None \<Rightarrow> olds)
      in put_many_index fid base rest olds' (set_valsep k sh (ix_insert k ent None ix)))"

definition put_many :: "world \<Rightarrow> u64 list \<Rightarrow> (bytes \<times> bytes) list \<Rightarrow> ns_log \<Rightarrow> u64 list eresult \<times> ns_log" where
  "put_many w clks pairs =
     guarded (\<lambda>st.
       if pairs = [] then (Inr [], st)
       else case put_many_encode w clks pairs [] [] [] st of
              (Inl e, st1) \<Rightarrow> (Inl e, st1)
            | (Inr (buf, layout, seps), st1) \<Rightarrow>
                (case append_active buf st1 of
                   (Inl e, st2) \<Rightarrow> (Inl e, fold (\<lambda>sh. unref_opt sh) seps st2)
                 | (Inr base_offset, st2) \<Rightarrow>
                     (let st3 = add_unsynced (length buf) st2;
                          (olds, ix) = put_many_index (lf_file_id (nl_active st3)) base_offset
                            (zip (map (\<lambda>((k, v), l). (k, l)) (zip pairs layout)) seps) [] (nl_index st3);
                          st4 = with_values (fold unref olds) (st3\<lparr>nl_index := ix\<rparr>)
                      in maybe_rotate w (map (\<lambda>(s, n, t). t) layout) st4)))"

text \<open>The part the two tombstone methods share, after the key has left the index.\<close>

definition append_tombstone ::
  "world \<Rightarrow> u64 \<Rightarrow> bytes \<Rightarrow> bytes option \<Rightarrow> ns_log \<Rightarrow> u64 option eresult \<times> ns_log" where
  "append_tombstone w clk key old_hash st =
     (let (tstamp, st1) = next_tstamp clk st
      in case encode_into (w_crc w) [] tstamp TOMBSTONE 0 key [] [] of
           Inl e \<Rightarrow> (Inl e, st1)
         | Inr buf \<Rightarrow>
             (case append_active buf st1 of
                (Inl e, st2) \<Rightarrow> (Inl e, st2)
              | (Inr off, st2) \<Rightarrow> (Inr (Some tstamp), unref_opt old_hash (add_unsynced (length buf) st2))))"

definition tombstone :: "world \<Rightarrow> u64 \<Rightarrow> bytes \<Rightarrow> ns_log \<Rightarrow> u64 option eresult \<times> ns_log" where
  "tombstone w clk key =
     guarded (\<lambda>st.
       let h = valsep (nl_index st) key;
           (removed, ix) = ix_remove key (nl_index st);
           st1 = st\<lparr>nl_index := ix\<rparr>
       in if removed = None then (Inr None, st1) else append_tombstone w clk key h st1)"

definition tombstone_cond :: "world \<Rightarrow> u64 \<Rightarrow> bytes \<Rightarrow> u64 \<Rightarrow> u64 \<Rightarrow> ns_log \<Rightarrow> u64 option eresult \<times> ns_log" where
  "tombstone_cond w clk key expected_rev now =
     guarded (\<lambda>st.
       if live_rev (nl_index st) key now \<noteq> Some expected_rev then (Inr None, st)
       else append_tombstone w clk key (valsep (nl_index st) key)
              (with_index (\<lambda>ix. snd (ix_remove key ix)) st))"

definition ttl_update :: "world \<Rightarrow> u64 \<Rightarrow> bytes \<Rightarrow> u64 option \<Rightarrow> ns_log \<Rightarrow> u64 eresult \<times> ns_log" where
  "ttl_update w clk key expires_at_ms =
     guarded (\<lambda>st.
       let (tstamp, st1) = next_tstamp clk st;
           (flags, exp) = (case expires_at_ms of Some ms \<Rightarrow> (TTL_UPDATE, ms) | None \<Rightarrow> (TTL_UPDATE OR NO_EXPIRY, 0))
       in case encode_into (w_crc w) [] tstamp flags exp key [] [] of
            Inl e \<Rightarrow> (Inl e, st1)
          | Inr buf \<Rightarrow>
              (case append_active buf st1 of
                 (Inl e, st2) \<Rightarrow> (Inl e, st2)
               | (Inr off, st2) \<Rightarrow>
                   (Inr tstamp, with_index (set_ttl key expires_at_ms) (add_unsynced (length buf) st2))))"

definition sync_log :: "world \<Rightarrow> ns_log \<Rightarrow> unit eresult \<times> ns_log" where
  "sync_log w st =
     (let gc = with_values (collect_garbage (w_blob_rm w))
      in if nl_unsynced_bytes st > 0
         then (case lf_sync (nl_active st) of
                 Inl e \<Rightarrow> (Inl e, st)
               | Inr u \<Rightarrow> (Inr (), gc (st\<lparr>nl_unsynced_bytes := 0\<rparr>)))
         else (Inr (), gc st))"

section \<open>Reads\<close>

definition locate_file :: "ns_log \<Rightarrow> nat \<Rightarrow> log_file option" where
  "locate_file st file_id =
     (if lf_file_id (nl_active st) = file_id then Some (nl_active st)
      else om_lookup (nl_sealed st) file_id)"

definition read_record :: "ns_log \<Rightarrow> index_entry \<Rightarrow> bytes eresult" where
  "read_record st ent =
     rbind (ok_or (locate_file st (ie_file_id ent)) (BadRecord (ie_record_offset ent) ''file_id not found''))
       (\<lambda>f. read_exact f (ie_record_offset ent) (ie_record_size ent))"

definition extract_value_meta :: "(bytes \<Rightarrow> u64) \<Rightarrow> bytes \<Rightarrow> (bytes \<times> bytes \<times> u8) eresult" where
  "extract_value_meta crc b =
     rbind (parse_header (take HEADER_LEN b) 0) (\<lambda>h.
       let key_end = HEADER_LEN + unat (hdr_key_size h);
           val_end = key_end + unat (hdr_val_size h);
           meta_end = val_end + unat (hdr_meta_size h)
       in if length b < meta_end
          then Inl (BadRecord 0 ''record bytes shorter than declared sizes'')
          else rbind (verify_crc crc h (take HEADER_LEN b) (subslice b HEADER_LEN (meta_end - HEADER_LEN)) 0)
                 (\<lambda>u. Inr (subslice b key_end (val_end - key_end), subslice b val_end (meta_end - val_end),
                             hdr_flags h)))"

definition deref :: "world \<Rightarrow> value_store \<Rightarrow> bytes \<Rightarrow> u8 \<Rightarrow> bytes eresult" where
  "deref w vs value flags =
     (if \<not> has_flag flags VALUE_SEP then Inr value
      else if length value \<noteq> 16
      then Inl (BadRecord 0 ''value-separated record's value field is not a 16-byte hash'')
      else rbind (vs_get (w_blob_read w) vs value) (\<lambda>b.
             if content_hash (w_blake w) b \<noteq> value
             then Inl (BadRecord 0 ''value-separated blob content hash mismatch (corruption)'')
             else Inr b))"

definition read_value :: "world \<Rightarrow> ns_log \<Rightarrow> index_entry \<Rightarrow> (bytes \<times> bytes) eresult" where
  "read_value w st ent =
     rbind (read_record st ent) (\<lambda>b.
     rbind (extract_value_meta (w_crc w) b) (\<lambda>(value, metadata, flags).
     rbind (deref w (nl_values st) value flags) (\<lambda>v. Inr (v, metadata))))"

definition bulk_read :: "world \<Rightarrow> ns_log \<Rightarrow> (nat \<times> index_entry) list \<Rightarrow> (nat \<times> bytes \<times> bytes) list eresult" where
  "bulk_read w st misses =
     rbind (collect_results (\<lambda>(slot, ent).
              rbind (read_record st ent) (\<lambda>b.
              rbind (extract_value_meta (w_crc w) b) (\<lambda>(value, metadata, flags).
                Inr (slot, value, metadata, flags)))) misses)
       (collect_results (\<lambda>(slot, value, metadata, flags).
          rbind (deref w (nl_values st) value flags) (\<lambda>v. Inr (slot, v, metadata))))"

text \<open>\<^verbatim>\<open>serde_json::from_slice\<close> is the parameter \<open>jp\<close>; metadata that does not parse is dropped.\<close>

definition parse_meta :: "(bytes \<Rightarrow> 'j option) \<Rightarrow> bytes \<Rightarrow> 'j option" where
  "parse_meta jp m = (if m = [] then None else jp m)"

definition current_entries ::
  "(bytes \<Rightarrow> 'j option) \<Rightarrow> world \<Rightarrow> key_filter \<Rightarrow> u64 \<Rightarrow> ns_log \<Rightarrow> 'j watch_event list eresult" where
  "current_entries jp w flt now st =
     (let ix = nl_index st;
          live = map (\<lambda>(k, e). (k, e, ttl_of ix k))
                   (filter (\<lambda>(k, e). filter_matches flt k \<and> \<not> is_expired ix k now) (entries (ix_map ix)))
      in rbind (bulk_read w st (map (\<lambda>(i, k, e, t). (i, e)) (enumerate 0 live))) (\<lambda>results.
           Inr (map (\<lambda>(slot, value, m).
                  let (k, e, t) = live ! slot in WatchSet k value (parse_meta jp m) t (ie_tstamp_ms e)) results)))"

text \<open>
  What a record turns into when it is scanned for a watcher: \<open>None\<close> for the records the scan passes over
  (another key, a separated value whose blob is missing or does not match).
\<close>

definition record_event ::
  "(bytes \<Rightarrow> 'j option) \<Rightarrow> world \<Rightarrow> key_filter \<Rightarrow> value_store \<Rightarrow> record_header \<Rightarrow> bytes \<Rightarrow> 'j watch_event option" where
  "record_event jp w flt vs h body =
     (let ks = unat (hdr_key_size h); vsz = unat (hdr_val_size h); key = take ks body
      in if \<not> filter_matches flt key then None
         else if has_flag (hdr_flags h) TOMBSTONE then Some (WatchDel key (hdr_tstamp_ms h))
         else let field = subslice body ks vsz;
                  meta = subslice body (ks + vsz) (unat (hdr_meta_size h));
                  mk = (\<lambda>value. WatchSet key value (parse_meta jp meta) (rec_ttl h) (hdr_tstamp_ms h))
              in if has_flag (hdr_flags h) VALUE_SEP
                 then if length field \<noteq> 16 then None
                      else (case vs_get (w_blob_read w) vs field of
                              Inl e \<Rightarrow> None
                            | Inr b \<Rightarrow> if content_hash (w_blake w) b = field then Some (mk b) else None)
                 else Some (mk field))"

function scan_file_records ::
  "(bytes \<Rightarrow> 'j option) \<Rightarrow> world \<Rightarrow> log_file \<Rightarrow> nat \<Rightarrow> key_filter \<Rightarrow> u64 \<Rightarrow> value_store \<Rightarrow> nat \<Rightarrow>
     'j watch_event list \<Rightarrow> 'j watch_event list" where
  "scan_file_records jp w f end_offset flt since vs offset events =
     (if offset + HEADER_LEN \<le> end_offset
      then (case read_exact f offset HEADER_LEN of
              Inl e \<Rightarrow> events
            | Inr hdr_bytes \<Rightarrow>
                (case parse_header hdr_bytes offset of
                   Inl e \<Rightarrow> events
                 | Inr h \<Rightarrow>
                     if hdr_key_size h = 0 then events
                     else if offset + record_len h > end_offset then events
                     else if hdr_tstamp_ms h > since \<and> \<not> has_flag (hdr_flags h) TTL_UPDATE
                     then (case read_exact f (offset + HEADER_LEN) (body_len h) of
                             Inl e \<Rightarrow> events
                           | Inr body \<Rightarrow>
                               (case verify_crc (w_crc w) h hdr_bytes body offset of
                                  Inl e \<Rightarrow> events
                                | Inr u \<Rightarrow>
                                    scan_file_records jp w f end_offset flt since vs (offset + record_len h)
                                      (case record_event jp w flt vs h body of
                                         Some ev \<Rightarrow> events @ [ev] | None \<Rightarrow> events)))
                     else scan_file_records jp w f end_offset flt since vs (offset + record_len h) events))
      else events)"
  by pat_completeness auto
termination
  by (relation "measure (\<lambda>(jp, w, f, end_offset, flt, since, vs, offset, events). end_offset - offset)")
    (auto intro!: diff_less_mono2)

declare scan_file_records.simps [simp del]

definition scan_since ::
  "(bytes \<Rightarrow> 'j option) \<Rightarrow> world \<Rightarrow> key_filter \<Rightarrow> u64 \<Rightarrow> ns_log \<Rightarrow> 'j watch_event list" where
  "scan_since jp w flt since st =
     (let files = map snd (entries (nl_sealed st)) @ [nl_active st];
          events = fold (\<lambda>f events. scan_file_records jp w f (data_end_offset f) flt since (nl_values st) 0 events) files []
      in sort_key event_revision events)"

end
