(* ===== verification/Ns_Reclaim.thy ===== *)
theory Ns_Reclaim
  imports Ns_Log
begin

text \<open>
  \<^verbatim>\<open>engine/src/log/reclaim.rs\<close> and the methods of \<^verbatim>\<open>engine/src/log/mod.rs\<close> that replace files: size-tiered
  compaction (\<^verbatim>\<open>reclaim\<close>) and \<^verbatim>\<open>flush\<close>. The cascade of merges is a total function because every merge
  consumes a fresh file id and ids are bounded by \<^verbatim>\<open>u32::MAX\<close>.
\<close>

section \<open>Merging sealed files\<close>

record reclaim_report =
  rr_live_keys :: nat
  rr_live_bytes :: nat
  rr_dead_files_dropped :: nat
  rr_dead_files_leaked :: nat
  rr_new_file_id :: nat

definition value_hash_of :: "bytes \<Rightarrow> bytes option" where
  "value_hash_of record_bytes =
     (case parse_header record_bytes 0 of
        Inl e \<Rightarrow> None
      | Inr h \<Rightarrow>
          if \<not> has_flag (hdr_flags h) VALUE_SEP \<or> unat (hdr_val_size h) \<noteq> 16 then None
          else get_slice record_bytes (HEADER_LEN + unat (hdr_key_size h)) 16)"

type_synonym live_key = "bytes \<times> index_entry \<times> u64 option"

definition read_live :: "log_file list \<Rightarrow> index_entry \<Rightarrow> bytes eresult" where
  "read_live files ent =
     (case List.find (\<lambda>f. lf_file_id f = ie_file_id ent) files of
        None \<Rightarrow> Inl (BadRecord (ie_record_offset ent) ''reclaim: file_id not in sealed snapshot'')
      | Some f \<Rightarrow> read_exact f (ie_record_offset ent) (ie_record_size ent))"

text \<open>The copying loop: the new file, the footer, the new index entries and the bytes copied so far.\<close>

fun copy_live ::
  "log_file list \<Rightarrow> nat \<Rightarrow> live_key list \<Rightarrow> log_file \<Rightarrow> footer_entry list \<Rightarrow> live_key list \<Rightarrow> nat \<Rightarrow>
     (log_file \<times> footer_entry list \<times> live_key list \<times> nat) eresult" where
  "copy_live files next_id [] new_file ftr new_entries live_bytes = Inr (new_file, ftr, new_entries, live_bytes)"
| "copy_live files next_id ((key, old_entry, ttl) # live) new_file ftr new_entries live_bytes =
     rbind (read_live files old_entry) (\<lambda>b.
       case append_buf new_file b of
         (Inl e, f) \<Rightarrow> Inl e
       | (Inr new_offset, f) \<Rightarrow>
           (let new_entry = index_entry_new next_id new_offset (ie_record_size old_entry) (ie_tstamp_ms old_entry)
            in copy_live files next_id live f
                 (ftr @ [footer_entry_from_index key new_entry ttl (value_hash_of b)])
                 (new_entries @ [(key, new_entry, ttl)])
                 (live_bytes + ie_record_size old_entry)))"

text \<open>
  The merged file up to its rename. The temporary file may be a stale one that could not be removed
  (\<open>w_tmp_stale\<close>); it is truncated first.
\<close>

definition write_merged ::
  "world \<Rightarrow> log_file list \<Rightarrow> nat \<Rightarrow> live_key list \<Rightarrow> (bytes \<times> live_key list \<times> nat) eresult" where
  "write_merged w files next_id live =
     rbind (case w_tmp_open_err w next_id of
              Some e \<Rightarrow> Inl (Io e)
            | None \<Rightarrow> open_file next_id (w_tmp_dev w next_id) (w_tmp_stale w next_id)) (\<lambda>f0.
     rbind (truncate_to f0 0) (\<lambda>f1.
     rbind (copy_live files next_id live f1 [] [] 0) (\<lambda>(f2, ftr, new_entries, live_bytes).
       let (res, f3) = write_footer (w_crc w) f2 ftr
       in rbind res (\<lambda>u.
          rbind (case w_rename_err w next_id of Some e \<Rightarrow> Inl (Io e) | None \<Rightarrow> Inr ()) (\<lambda>v.
            Inr (lf_data f3, new_entries, live_bytes))))))"

definition reclaim_namespace ::
  "world \<Rightarrow> log_file list \<Rightarrow> nat \<Rightarrow> live_key list \<Rightarrow> data_dir \<Rightarrow>
     (reclaim_report \<times> live_key list) eresult \<times> data_dir" where
  "reclaim_namespace w files next_id live dir =
     (case write_merged w files next_id live of
        Inl e \<Rightarrow> (Inl e, dir)
      | Inr (data, new_entries, live_bytes) \<Rightarrow>
          (let dropped = filter (\<lambda>f. w_unlink w (lf_file_id f)) files;
               dir' = fold (\<lambda>f. om_delete (lf_file_id f)) dropped (om_insert next_id data dir)
           in (Inr (\<lparr>rr_live_keys = length new_entries, rr_live_bytes = live_bytes,
                     rr_dead_files_dropped = length dropped,
                     rr_dead_files_leaked = length files - length dropped,
                     rr_new_file_id = next_id\<rparr>, new_entries), dir')))"

section \<open>Tiers\<close>

definition level_of :: "ns_log \<Rightarrow> nat \<Rightarrow> nat" where
  "level_of st fid = (case om_lookup (nl_level st) fid of Some l \<Rightarrow> l | None \<Rightarrow> 0)"

definition ids_at :: "ns_log \<Rightarrow> nat \<Rightarrow> nat list" where
  "ids_at st lvl = filter (\<lambda>fid. level_of st fid = lvl) (om_keys (nl_sealed st))"

text \<open>The lowest level that holds at least \<^verbatim>\<open>fanout\<close> runs.\<close>

definition pick_level :: "ns_log \<Rightarrow> nat option" where
  "pick_level st =
     List.find (\<lambda>lvl. length (ids_at st lvl) \<ge> fanout (nl_config st))
       (sort (remdups (map (level_of st) (om_keys (nl_sealed st)))))"

definition merge_level :: "world \<Rightarrow> nat \<Rightarrow> nat list \<Rightarrow> nat \<Rightarrow> ns_log \<Rightarrow> reclaim_report eresult \<times> ns_log" where
  "merge_level w lvl ids next_id st =
     (let files = List.map_filter (om_lookup (nl_sealed st)) ids;
          live = map (\<lambda>(k, e). (k, e, ttl_of (nl_index st) k))
                   (filter (\<lambda>(k, e). ie_file_id e \<in> set ids) (entries (ix_map (nl_index st))))
      in case reclaim_namespace w files next_id live (nl_dir st) of
           (Inl e, dir') \<Rightarrow> (Inl e, st\<lparr>nl_dir := dir'\<rparr>)
         | (Inr (report, new_entries), dir') \<Rightarrow>
             (let st1 = st\<lparr>nl_dir := dir',
                           nl_compaction_bytes := nl_compaction_bytes st + rr_live_bytes report\<rparr>
              in case open_ro (w_env w) next_id dir' of
                   Inl e \<Rightarrow> (Inl e, st1)
                 | Inr new_file \<Rightarrow>
                     (Inr report,
                      st1\<lparr>nl_index := fold (\<lambda>(k, e, t). ix_insert k e t) new_entries (nl_index st),
                          nl_sealed := om_insert next_id new_file (fold om_delete ids (nl_sealed st)),
                          nl_level := om_insert next_id (min (lvl + 1) 255) (fold om_delete ids (nl_level st))\<rparr>)))"

definition add_report :: "reclaim_report \<Rightarrow> reclaim_report \<Rightarrow> reclaim_report" where
  "add_report sum_so_far r =
     sum_so_far\<lparr>rr_live_keys := rr_live_keys r, rr_live_bytes := rr_live_bytes r,
       rr_dead_files_dropped := rr_dead_files_dropped sum_so_far + rr_dead_files_dropped r,
       rr_dead_files_leaked := rr_dead_files_leaked sum_so_far + rr_dead_files_leaked r\<rparr>"

lemma fold_max: "fold max xs (a :: nat) = Max (insert a (set xs))"
proof (induction xs arbitrary: a)
  case (Cons x xs)
  show ?case by (cases "xs = []") (simp_all add: Cons.IH max.assoc max.commute max.left_commute)
qed simp

lemma max_file_id_ge:
  "lf_file_id (nl_active st) \<le> max_file_id st" "i \<in> set (om_keys (nl_sealed st)) \<Longrightarrow> i \<le> max_file_id st"
  by (auto simp: max_file_id_def fold_max intro: max.coboundedI1)

lemma fold_om_delete: "om_lookup (fold om_delete ids m) k = (if k \<in> set ids then None else om_lookup m k)"
  by (induction ids arbitrary: m) auto

lemma merge_level_sealed:
  assumes "merge_level w lvl ids next_id st = (Inr r, st')"
  obtains new_file where
    "nl_sealed st' = om_insert next_id new_file (fold om_delete ids (nl_sealed st))"
    "lf_file_id new_file = next_id" "nl_active st' = nl_active st" "nl_config st' = nl_config st"
proof -
  from assms obtain new_file dir' where
      "nl_sealed st' = om_insert next_id new_file (fold om_delete ids (nl_sealed st))"
      "open_ro (w_env w) next_id dir' = Inr new_file" "nl_active st' = nl_active st" "nl_config st' = nl_config st"
    by (auto simp: merge_level_def Let_def split: prod.splits sum.splits)
  then show thesis
    by (intro that) (auto simp: open_ro_def open_file_def split: option.splits)
qed

lemma merge_level_next_id:
  assumes "next_file_id st = Inr next_id" "merge_level w lvl ids next_id st = (Inr r, st')"
  shows "max_file_id st < max_file_id st'" and "max_file_id st' \<le> u32_max"
proof -
  obtain new_file where s: "nl_sealed st' = om_insert next_id new_file (fold om_delete ids (nl_sealed st))"
    and a: "nl_active st' = nl_active st"
    using merge_level_sealed[OF assms(2)] by metis
  have n: "next_id = max_file_id st + 1" "next_id \<le> u32_max"
    using assms(1) by (auto simp: next_file_id_def split: if_splits)
  have "next_id \<in> set (om_keys (nl_sealed st'))" by (simp add: s set_om_keys)
  then show "max_file_id st < max_file_id st'" using n max_file_id_ge(2)[of next_id st'] by simp
  have "i \<le> next_id" if "i \<in> set (om_keys (nl_sealed st'))" for i
    using that n max_file_id_ge(2)[of i st] by (auto simp: s set_om_keys fold_om_delete split: if_splits)
  moreover have "lf_file_id (nl_active st') \<le> next_id" using a n max_file_id_ge(1)[of st] by simp
  ultimately have "max_file_id st' \<le> next_id" by (simp add: max_file_id_def fold_max)
  then show "max_file_id st' \<le> u32_max" using n by simp
qed

function reclaim_cascade :: "world \<Rightarrow> reclaim_report \<Rightarrow> ns_log \<Rightarrow> reclaim_report eresult \<times> ns_log" where
  "reclaim_cascade w sum_so_far st =
     (case pick_level st of
        None \<Rightarrow> (Inr sum_so_far, st)
      | Some lvl \<Rightarrow>
          (case next_file_id st of
             Inl e \<Rightarrow> (Inl e, st)
           | Inr next_id \<Rightarrow>
               (case merge_level w lvl (ids_at st lvl) next_id st of
                  (Inl e, st1) \<Rightarrow> (Inl e, st1)
                | (Inr report, st1) \<Rightarrow> reclaim_cascade w (add_report sum_so_far report) st1)))"
  by pat_completeness auto
termination
proof (relation "measure (\<lambda>(w, t, st). Suc u32_max - max_file_id st)", goal_cases)
  case 1
  show ?case by simp
next
  case (2 w t st lvl next_id r st1 report)
  then show ?case using merge_level_next_id[of st next_id w lvl "ids_at st lvl" report st1] by auto
qed

declare reclaim_cascade.simps [simp del]

definition reclaim_inner :: "world \<Rightarrow> ns_log \<Rightarrow> reclaim_report eresult \<times> ns_log" where
  "reclaim_inner w st =
     (case write_footer (w_crc w) (nl_active st) (active_footer st) of
        (Inl e, f) \<Rightarrow> (Inl e, set_active f st)
      | (Inr u, f) \<Rightarrow>
          (let zero = \<lparr>rr_live_keys = 0, rr_live_bytes = 0, rr_dead_files_dropped = 0,
                       rr_dead_files_leaked = 0, rr_new_file_id = 0\<rparr>
           in case reclaim_cascade w zero (seal_into_sealed (set_active f st)) of
                (Inl e, st1) \<Rightarrow> (Inl e, st1)
              | (Inr sum_so_far, st1) \<Rightarrow>
                  (case next_file_id st1 of
                     Inl e \<Rightarrow> (Inl e, st1)
                   | Inr new_active_id \<Rightarrow>
                       (case open_new_active w new_active_id st1 of
                          (Inl e, st2) \<Rightarrow> (Inl e, st2)
                        | (Inr v, st2) \<Rightarrow> (Inr (sum_so_far\<lparr>rr_new_file_id := new_active_id\<rparr>), st2)))))"

definition reclaim :: "world \<Rightarrow> ns_log \<Rightarrow> reclaim_report eresult \<times> ns_log" where
  "reclaim w st =
     (if nl_reclaim_in_progress st then (Inl ReclamationBusy, st)
      else let (r, st1) = reclaim_inner w (st\<lparr>nl_reclaim_in_progress := True\<rparr>)
           in (r, st1\<lparr>nl_reclaim_in_progress := False\<rparr>))"

section \<open>Flush\<close>

definition flush_inner :: "world \<Rightarrow> ns_log \<Rightarrow> unit eresult \<times> ns_log" where
  "flush_inner w st =
     (let st1 = st\<lparr>nl_sealed := om_empty, nl_index := ix_clear (nl_index st)\<rparr>
      in case fs_list_err (w_env w) of
           Some e \<Rightarrow> if e = NotFound then open_new_active w 0 st1 else (Inl (Io e), st1)
         | None \<Rightarrow>
             open_new_active w 0 (st1\<lparr>nl_dir := om_filter (\<lambda>(fid, b). \<not> w_unlink w fid) (nl_dir st1)\<rparr>))"

definition flush :: "world \<Rightarrow> u64 \<Rightarrow> ns_log \<Rightarrow> u64 eresult \<times> ns_log" where
  "flush w clk st =
     (if nl_reclaim_in_progress st then (Inl ReclamationBusy, st)
      else let (revision, st1) = next_tstamp clk (st\<lparr>nl_reclaim_in_progress := True\<rparr>);
               (r, st2) = flush_inner w st1
           in (rbind r (\<lambda>u. Inr revision), st2\<lparr>nl_reclaim_in_progress := False\<rparr>))"

end
