(* ===== verification/Ns_Refine.thy ===== *)
theory Ns_Refine
  imports Ns_Reclaim
begin

text \<open>
  What a namespace's log promises its client: a finite map from keys to value, metadata, expiry and
  revision (\<open>kv_map\<close>). \<open>log_rel\<close> relates such a map to the detailed state: every key's index entry points at
  an intact record, in a file that is still open, whose value is the map's (behind one blob indirection
  where it was separated). Every method preserves the relation, for every answer of the kernel.
\<close>

section \<open>The abstract store\<close>

record kv =
  kv_value :: bytes
  kv_meta :: bytes
  kv_ttl :: "u64 option"
  kv_rev :: u64

type_synonym kv_map = "bytes \<Rightarrow> kv option"

definition spec_put :: "bytes \<Rightarrow> bytes \<Rightarrow> bytes \<Rightarrow> u64 option \<Rightarrow> u64 \<Rightarrow> kv_map \<Rightarrow> kv_map" where
  "spec_put k v m t r A = A(k \<mapsto> \<lparr>kv_value = v, kv_meta = m, kv_ttl = t, kv_rev = r\<rparr>)"

definition spec_del :: "bytes \<Rightarrow> kv_map \<Rightarrow> kv_map" where
  "spec_del k A = A(k := None)"

definition spec_expire :: "bytes \<Rightarrow> u64 option \<Rightarrow> kv_map \<Rightarrow> kv_map" where
  "spec_expire k t A = A(k := map_option (\<lambda>x. x\<lparr>kv_ttl := t\<rparr>) (A k))"

definition spec_live :: "kv_map \<Rightarrow> bytes \<Rightarrow> u64 \<Rightarrow> u64 option" where
  "spec_live A k now =
     (case A k of
        None \<Rightarrow> None
      | Some x \<Rightarrow> (case kv_ttl x of Some ms \<Rightarrow> if ms \<le> now then None else Some (kv_rev x) | None \<Rightarrow> Some (kv_rev x)))"

section \<open>The simulation relation\<close>

definition rec_in :: "(bytes \<Rightarrow> u64) \<Rightarrow> log_file \<Rightarrow> nat \<Rightarrow> log_rec \<Rightarrow> bool" where
  "rec_in crc f off r \<longleftrightarrow>
     rec_fits r \<and> off + length (enc_rec crc r) \<le> length (lf_data f) \<and>
     subslice (lf_data f) off (length (enc_rec crc r)) = enc_rec crc r"

definition value_in :: "world \<Rightarrow> value_store \<Rightarrow> bytes option \<Rightarrow> log_rec \<Rightarrow> bytes \<Rightarrow> bool" where
  "value_in w vs sep r v \<longleftrightarrow>
     (if has_flag (lr_flags r) VALUE_SEP
      then sep = Some (lr_val r) \<and> om_lookup (vs_blobs vs) (lr_val r) = Some v \<and>
           content_hash (w_blake w) v = lr_val r
      else lr_val r = v)"

text \<open>What it means that the index entry \<open>e\<close> of key \<open>k\<close> stands for \<open>x\<close>.\<close>

definition entry_holds :: "world \<Rightarrow> ns_log \<Rightarrow> bytes \<Rightarrow> index_entry \<Rightarrow> kv \<Rightarrow> bool" where
  "entry_holds w st k e x \<longleftrightarrow>
     kv_ttl x = ttl_of (nl_index st) k \<and> kv_rev x = ie_tstamp_ms e \<and>
     (\<exists>f r. locate_file st (ie_file_id e) = Some f \<and> rec_in (w_crc w) f (ie_record_offset e) r \<and>
        ie_record_size e = length (enc_rec (w_crc w) r) \<and> lr_key r = k \<and> lr_tstamp r = ie_tstamp_ms e \<and>
        lr_meta r = kv_meta x \<and> value_in w (nl_values st) (valsep (nl_index st) k) r (kv_value x))"

definition nrefs :: "ns_index \<Rightarrow> bytes \<Rightarrow> nat" where
  "nrefs ix h = card {k. valsep ix k = Some h}"

text \<open>An active file is either poisoned or has nothing reserved past its end.\<close>

definition act_ok :: "log_file \<Rightarrow> bool" where
  "act_ok f \<longleftrightarrow> lf_poisoned f \<or> lf_write_offset f = length (lf_data f)"

definition log_inv :: "world \<Rightarrow> ns_log \<Rightarrow> bool" where
  "log_inv w st \<longleftrightarrow>
     ix_inv (nl_index st) \<and> vs_inv (w_blake w) (nl_values st) \<and>
     (\<forall>h. nrefs (nl_index st) h \<le> refcount (nl_values st) h) \<and>
     (\<forall>k. valsep (nl_index st) k \<noteq> None \<longrightarrow> ix_get (nl_index st) k \<noteq> None) \<and>
     (\<forall>k e. ix_get (nl_index st) k = Some e \<longrightarrow> ie_tstamp_ms e \<le> nl_last_tstamp st) \<and>
     (\<forall>i f. om_lookup (nl_sealed st) i = Some f \<longrightarrow> lf_file_id f = i) \<and>
     (\<forall>f. om_lookup (nl_sealed st) (lf_file_id (nl_active st)) = Some f \<longrightarrow> f = nl_active st) \<and>
     act_ok (nl_active st)"

definition log_rel :: "world \<Rightarrow> kv_map \<Rightarrow> ns_log \<Rightarrow> bool" where
  "log_rel w A st \<longleftrightarrow>
     log_inv w st \<and>
     (\<forall>k. case ix_get (nl_index st) k of
            None \<Rightarrow> A k = None
          | Some e \<Rightarrow> \<exists>x. A k = Some x \<and> entry_holds w st k e x)"

section \<open>Reading through the relation\<close>

lemma extract_enc_rec:
  assumes "rec_fits r"
  shows "extract_value_meta crc (enc_rec crc r) = Inr (lr_val r, lr_meta r, lr_flags r)"
proof -
  let ?b = "enc_rec crc r" and ?h = "rec_header crc r"
  have sizes: "unat (hdr_key_size ?h) = length (lr_key r)" "unat (hdr_val_size ?h) = length (lr_val r)"
    "unat (hdr_meta_size ?h) = length (lr_meta r)"
    using assms by (simp_all add: rec_header_def rec_fits_def)
  have t: "take HEADER_LEN ?b = header_image ?h"
    by (simp add: enc_rec_header_image)
  have p: "parse_header (take HEADER_LEN ?b) 0 = Inr ?h"
    using parse_header_image[of ?h "[]" 0] by (simp add: t)
  have body: "subslice ?b HEADER_LEN (length (rec_body r)) = rec_body r"
    using subslice_append_eq[of HEADER_LEN "header_image ?h" "length (rec_body r)" "rec_body r" "[]"]
    by (simp add: enc_rec_header_image)
  have v: "subslice ?b (HEADER_LEN + length (lr_key r)) (length (lr_val r)) = lr_val r"
    using subslice_append_eq[of "HEADER_LEN + length (lr_key r)" "header_image ?h @ lr_key r"
        "length (lr_val r)" "lr_val r" "lr_meta r"]
    by (simp add: enc_rec_header_image rec_body_def)
  have m: "subslice ?b (HEADER_LEN + length (lr_key r) + length (lr_val r)) (length (lr_meta r)) = lr_meta r"
    using subslice_append_eq[of "HEADER_LEN + length (lr_key r) + length (lr_val r)"
        "header_image ?h @ lr_key r @ lr_val r" "length (lr_meta r)" "lr_meta r" "[]"]
    by (simp add: enc_rec_header_image rec_body_def)
  have len: "length (rec_body r) = length (lr_key r) + length (lr_val r) + length (lr_meta r)"
    by (simp add: rec_body_def)
  have crc: "verify_crc crc ?h (take HEADER_LEN ?b) (rec_body r) 0 = Inr ()"
    by (simp add: t)
  show ?thesis
    using v m body crc
    by (simp add: extract_value_meta_def p sizes Let_def len rec_header_def[of crc r, THEN arg_cong[where f = hdr_flags]] add.assoc)
qed


definition reads_at :: "world \<Rightarrow> ns_log \<Rightarrow> index_entry \<Rightarrow> bool" where
  "reads_at w st e \<longleftrightarrow>
     (case locate_file st (ie_file_id e) of None \<Rightarrow> False | Some f \<Rightarrow> dv_read_err (lf_dev f) (ie_record_offset e) = None)"

lemma read_record_holds:
  assumes "entry_holds w st k e x" "reads_at w st e"
  obtains r where "read_record st e = Inr (enc_rec (w_crc w) r)" "rec_fits r" "lr_meta r = kv_meta x"
    "value_in w (nl_values st) (valsep (nl_index st) k) r (kv_value x)"
  using assms
  by (auto simp: entry_holds_def reads_at_def rec_in_def read_record_def read_exact_def Let_def)

definition hash_ok :: "world \<Rightarrow> bool" where
  "hash_ok w \<longleftrightarrow> (\<forall>v. length (w_blake w v) = 32)"

lemma length_content_hash: "hash_ok w \<Longrightarrow> length (content_hash (w_blake w) v) = 16"
  by (simp add: hash_ok_def content_hash_def)

lemma deref_holds:
  assumes "value_in w vs sep r v" "hash_ok w" "\<And>h. w_blob_read w h = None"
  shows "deref w vs (lr_val r) (lr_flags r) = Inr v"
  using assms length_content_hash[OF assms(2), of v]
  by (auto simp: value_in_def deref_def vs_get_def split: if_splits)

lemma read_value_holds:
  assumes "entry_holds w st k e x" "reads_at w st e" "hash_ok w" "\<And>h. w_blob_read w h = None"
  shows "read_value w st e = Inr (kv_value x, kv_meta x)"
proof -
  obtain r where r: "read_record st e = Inr (enc_rec (w_crc w) r)" "rec_fits r" "lr_meta r = kv_meta x"
    "value_in w (nl_values st) (valsep (nl_index st) k) r (kv_value x)"
    using read_record_holds[OF assms(1,2)] by metis
  then show ?thesis
    using deref_holds[OF r(4) assms(3,4)] by (simp add: read_value_def extract_enc_rec)
qed

lemma log_rel_None: "log_rel w A st \<Longrightarrow> ix_get (nl_index st) k = None \<longleftrightarrow> A k = None"
  by (auto simp: log_rel_def split: option.splits dest!: spec[of _ k])

lemma log_rel_Some: "log_rel w A st \<Longrightarrow> ix_get (nl_index st) k = Some e \<Longrightarrow> \<exists>x. A k = Some x \<and> entry_holds w st k e x"
  by (auto simp: log_rel_def split: option.splits dest!: spec[of _ k])

lemma log_relI:
  assumes "log_inv w st" "\<And>k. ix_get (nl_index st) k = None \<Longrightarrow> A k = None"
    "\<And>k e. ix_get (nl_index st) k = Some e \<Longrightarrow> \<exists>x. A k = Some x \<and> entry_holds w st k e x"
  shows "log_rel w A st"
  using assms by (auto simp: log_rel_def split: option.split)

lemma spec_live_rel:
  assumes "log_rel w A st"
  shows "live_rev (nl_index st) k now = spec_live A k now"
proof (cases "ix_get (nl_index st) k")
  case None
  then show ?thesis using log_rel_None[OF assms, of k] by (simp add: live_rev_def spec_live_def)
next
  case (Some e)
  then obtain x where "A k = Some x" "entry_holds w st k e x" using log_rel_Some[OF assms] by blast
  with Some show ?thesis
    by (auto simp: live_rev_def spec_live_def is_expired_ttl entry_holds_def split: option.splits)
qed

section \<open>Frame conditions\<close>

text \<open>Every file some key's entry points into is still there and only grew.\<close>

definition files_extend :: "ns_log \<Rightarrow> ns_log \<Rightarrow> bool" where
  "files_extend st st' \<longleftrightarrow>
     (\<forall>k e i f. ix_get (nl_index st) k = Some e \<and> ie_file_id e = i \<and> locate_file st i = Some f \<longrightarrow>
        (\<exists>f'. locate_file st' i = Some f' \<and> prefix (lf_data f) (lf_data f')))"

lemma rec_in_prefix: "rec_in crc f off r \<Longrightarrow> prefix (lf_data f) (lf_data f') \<Longrightarrow> rec_in crc f' off r"
  by (auto simp: rec_in_def prefix_def subslice_append_left)

lemma files_extend_refl [simp]: "files_extend st st"
  by (auto simp: files_extend_def)

lemma entry_holdsI:
  assumes "kv_ttl x = ttl_of (nl_index st) k" "kv_rev x = ie_tstamp_ms e"
    "locate_file st (ie_file_id e) = Some f" "rec_in (w_crc w) f (ie_record_offset e) r"
    "ie_record_size e = length (enc_rec (w_crc w) r)" "lr_key r = k" "lr_tstamp r = ie_tstamp_ms e"
    "lr_meta r = kv_meta x" "value_in w (nl_values st) (valsep (nl_index st) k) r (kv_value x)"
  shows "entry_holds w st k e x"
  using assms unfolding entry_holds_def by blast

lemma value_in_cong: "vs_blobs vs' = vs_blobs vs \<Longrightarrow> value_in w vs' sep r v = value_in w vs sep r v"
  by (simp add: value_in_def)

lemma entry_holds_move:
  assumes "entry_holds w st k e x"
    and "\<And>f. locate_file st (ie_file_id e) = Some f \<Longrightarrow>
      \<exists>f'. locate_file st' (ie_file_id e) = Some f' \<and> prefix (lf_data f) (lf_data f')"
    and "ttl_of (nl_index st') k = ttl_of (nl_index st) k" "valsep (nl_index st') k = valsep (nl_index st) k"
    and "\<And>h. valsep (nl_index st) k = Some h \<Longrightarrow>
      om_lookup (vs_blobs (nl_values st')) h = om_lookup (vs_blobs (nl_values st)) h"
  shows "entry_holds w st' k e x"
proof -
  from assms(1) obtain f r where fr: "locate_file st (ie_file_id e) = Some f"
    "rec_in (w_crc w) f (ie_record_offset e) r" "ie_record_size e = length (enc_rec (w_crc w) r)"
    "lr_key r = k" "lr_tstamp r = ie_tstamp_ms e" "lr_meta r = kv_meta x"
    "value_in w (nl_values st) (valsep (nl_index st) k) r (kv_value x)"
    "kv_ttl x = ttl_of (nl_index st) k" "kv_rev x = ie_tstamp_ms e"
    by (auto simp: entry_holds_def)
  obtain f' where f': "locate_file st' (ie_file_id e) = Some f'" "prefix (lf_data f) (lf_data f')"
    using fr(1) assms(2) by blast
  have "value_in w (nl_values st') (valsep (nl_index st') k) r (kv_value x)"
    using fr(7) assms(4,5) by (auto simp: value_in_def split: if_splits)
  then show ?thesis
    using fr f' rec_in_prefix[OF fr(2) f'(2)] assms(3) unfolding entry_holds_def by metis
qed

lemma entry_holds_frame:
  assumes "entry_holds w st k e x" "files_extend st st'" "ix_get (nl_index st) k = Some e"
    and "ttl_of (nl_index st') k = ttl_of (nl_index st) k" "valsep (nl_index st') k = valsep (nl_index st) k"
    and "\<And>h. valsep (nl_index st) k = Some h \<Longrightarrow>
      om_lookup (vs_blobs (nl_values st')) h = om_lookup (vs_blobs (nl_values st)) h"
  shows "entry_holds w st' k e x"
  using assms(2,3) by (intro entry_holds_move[OF assms(1) _ assms(4-6)]) (auto simp: files_extend_def)

lemma finite_valsep [simp]: "finite {k. valsep ix k = Some h}"
  by (rule finite_subset[OF _ finite_dom_map_of[of "entries (ix_valsep ix)"]])
    (auto simp: valsep_def om_lookup_entries)

lemma nrefs_pos: "valsep ix k = Some h \<Longrightarrow> 0 < nrefs ix h"
  by (auto simp: nrefs_def card_gt_0_iff)

text \<open>A step that changes no key of the index keeps the relation if it keeps the invariant.\<close>

lemma log_rel_frame:
  assumes "log_rel w A st" "log_inv w st'" "nl_index st' = nl_index st" "files_extend st st'"
    and "\<And>h. 0 < refcount (nl_values st) h \<Longrightarrow>
      om_lookup (vs_blobs (nl_values st')) h = om_lookup (vs_blobs (nl_values st)) h"
  shows "log_rel w A st'"
proof -
  have cover: "nrefs (nl_index st) h \<le> refcount (nl_values st) h" for h
    using assms(1) by (simp add: log_rel_def log_inv_def)
  have "entry_holds w st' k e x" if "entry_holds w st k e x" "ix_get (nl_index st) k = Some e" for k e x
    using that(1) assms(4) that(2)
  proof (rule entry_holds_frame)
    fix h
    assume "valsep (nl_index st) k = Some h"
    then have "0 < nrefs (nl_index st) h" by (rule nrefs_pos)
    then show "om_lookup (vs_blobs (nl_values st')) h = om_lookup (vs_blobs (nl_values st)) h"
      using assms(5) cover[of h] by simp
  qed (simp_all add: assms(3))
  then show ?thesis
    using assms(2,3) log_rel_None[OF assms(1)] log_rel_Some[OF assms(1)]
    by (intro log_relI) (simp_all, metis)
qed


section \<open>Appends, footers and rotation\<close>

lemma append_act_ok:
  assumes "append_buf f buf = (res, f')" "act_ok f"
  shows "act_ok f' \<and> prefix (lf_data f) (lf_data f') \<and> lf_file_id f' = lf_file_id f"
  using assms by (auto simp: append_buf_def act_ok_def Let_def split: if_splits option.splits)

lemma append_Inr:
  assumes "append_buf f buf = (Inr off, f')" "act_ok f"
  shows "off = length (lf_data f) \<and> lf_data f' = lf_data f @ buf"
  using assms by (auto simp: append_buf_def act_ok_def Let_def split: if_splits option.splits)

lemma write_footer_act_ok:
  assumes "write_footer crc f es = (res, f')" "act_ok f"
  shows "act_ok f' \<and> prefix (lf_data f) (lf_data f') \<and> lf_file_id f' = lf_file_id f"
proof -
  obtain r1 f1 where 1: "append_buf f (footer_body es) = (r1, f1)" by force
  obtain r2 f2 where 2: "append_buf f1 (footer_trailer crc (footer_body es)) = (r2, f2)" by force
  note a1 = append_act_ok[OF 1 assms(2)]
  note a2 = append_act_ok[OF 2]
  have "f' = f1 \<or> f' = f2"
    using assms(1) 1 2 by (auto simp: write_footer_def Let_def split: sum.splits)
  then show ?thesis using a1 a2 by (auto dest: prefix_order.trans)
qed

lemma locate_set_active:
  "lf_file_id f = lf_file_id (nl_active st) \<Longrightarrow>
   locate_file (set_active f st) i = (if i = lf_file_id f then Some f else locate_file st i)"
  by (auto simp: locate_file_def set_active_def)

lemma set_active_simps [simp]:
  "nl_values (set_active f st) = nl_values st" "nl_index (set_active f st) = nl_index st"
  "nl_config (set_active f st) = nl_config st" "nl_last_tstamp (set_active f st) = nl_last_tstamp st"
  "nl_active (set_active f st) = f" "nl_level (set_active f st) = nl_level st"
  "nl_frozen (set_active f st) = nl_frozen st"
  "nl_in_flight_writes (set_active f st) = nl_in_flight_writes st"
  "nl_reclaim_in_progress (set_active f st) = nl_reclaim_in_progress st"
  by (simp_all add: set_active_def)

lemma files_extend_set_active:
  "lf_file_id f = lf_file_id (nl_active st) \<Longrightarrow> prefix (lf_data (nl_active st)) (lf_data f) \<Longrightarrow>
   files_extend st (set_active f st)"
  by (auto simp: files_extend_def locate_set_active) (auto simp: locate_file_def)

lemma log_inv_set_active:
  assumes "log_inv w st" "act_ok f" "lf_file_id f = lf_file_id (nl_active st)"
  shows "log_inv w (set_active f st)"
  using assms by (simp add: log_inv_def) (auto simp: set_active_def)

lemma log_rel_set_active:
  assumes "log_rel w A st" "act_ok f" "lf_file_id f = lf_file_id (nl_active st)"
    "prefix (lf_data (nl_active st)) (lf_data f)"
  shows "log_rel w A (set_active f st)"
  using assms(1) log_inv_set_active[OF _ assms(2,3)] files_extend_set_active[OF assms(3,4)]
  by (intro log_rel_frame[OF assms(1)]) (simp_all add: log_rel_def)

lemma act_ok_rel: "log_rel w A st \<Longrightarrow> act_ok (nl_active st)"
  by (simp add: log_rel_def log_inv_def)

lemma log_rel_write_footer:
  assumes "log_rel w A st" "write_footer crc (nl_active st) es = (res, f)"
  shows "log_rel w A (set_active f st)"
  using write_footer_act_ok[OF assms(2) act_ok_rel[OF assms(1)]] log_rel_set_active[OF assms(1)] by simp

lemma log_rel_append:
  assumes "log_rel w A st" "append_active buf st = (res, st')"
  shows "log_rel w A st'"
proof -
  obtain r f where "append_buf (nl_active st) buf = (r, f)" by force
  then show ?thesis
    using assms append_act_ok[OF _ act_ok_rel[OF assms(1)]] log_rel_set_active[OF assms(1), of f]
    by (auto simp: append_active_def)
qed

lemma log_rel_seal:
  assumes "log_rel w A st"
  shows "log_rel w A (seal_into_sealed st)"
proof (rule log_rel_frame[OF assms])
  show "log_inv w (seal_into_sealed st)"
    using assms by (auto simp: log_rel_def log_inv_def seal_into_sealed_def)
  show "files_extend st (seal_into_sealed st)"
    by (auto simp: files_extend_def locate_file_def seal_into_sealed_def)
qed (simp_all add: seal_into_sealed_def)

lemma open_rw_file:
  "open_rw env i dir = (Inr f, dir') \<Longrightarrow> lf_file_id f = i \<and> act_ok f"
  by (auto simp: open_rw_def open_file_def act_ok_def Let_def split: option.splits)

text \<open>Opening a fresh active file: the old one must already be in the sealed map.\<close>

lemma log_rel_open_new:
  assumes rel: "log_rel w A st" and fresh: "next_file_id st = Inr i"
    and sealed: "om_lookup (nl_sealed st) (lf_file_id (nl_active st)) \<noteq> None \<or>
      (\<forall>k e. ix_get (nl_index st) k = Some e \<longrightarrow> ie_file_id e \<noteq> lf_file_id (nl_active st))"
    and new: "open_new_active w i st = (res, st')"
  shows "log_rel w A st'"
proof (cases res)
  case (Inl e)
  then have st': "st' = st\<lparr>nl_dir := nl_dir st'\<rparr>"
    using new by (auto simp: open_new_active_def split: prod.splits sum.splits)
  show ?thesis
    by (subst st', rule log_rel_frame[OF rel])
      (use rel in \<open>auto simp: log_rel_def log_inv_def files_extend_def locate_file_def\<close>)
next
  case (Inr u)
  then obtain f dir' where o: "open_rw (w_env w) i (nl_dir st) = (Inr f, dir')"
    and st': "st' = st\<lparr>nl_dir := dir', nl_active := f, nl_unsynced_bytes := 0\<rparr>"
    using new by (auto simp: open_new_active_def split: prod.splits sum.splits)
  note f = open_rw_file[OF o]
  have i: "i = max_file_id st + 1" using fresh by (auto simp: next_file_id_def split: if_splits)
  have "om_lookup (nl_sealed st) i = None"
    using max_file_id_ge(2)[of i st] i by (metis (mono_tags) mem_Collect_eq not_add_less1 less_eq_Suc_le Suc_eq_plus1 not_less_eq_eq order_refl set_om_keys)
  then have inv: "log_inv w st'"
    using rel f by (auto simp: st' log_rel_def log_inv_def)
  have act: "g = nl_active st" if "om_lookup (nl_sealed st) (lf_file_id (nl_active st)) = Some g" for g
    using rel that by (simp add: log_rel_def log_inv_def)
  have loc: "locate_file st' j = om_lookup (nl_sealed st) j" if "j \<noteq> i" for j
    using that f by (simp add: st' locate_file_def)
  have "locate_file st' j = Some g"
    if "ix_get (nl_index st) k = Some e" "ie_file_id e = j" "locate_file st j = Some g" for k e j g
  proof (cases "j = lf_file_id (nl_active st)")
    case True
    then have "j \<noteq> i" using i max_file_id_ge(1)[of st] by simp
    moreover from True that sealed obtain g' where "om_lookup (nl_sealed st) j = Some g'" by blast
    ultimately show ?thesis using True that(3) act loc by (simp add: locate_file_def)
  next
    case False
    then have "om_lookup (nl_sealed st) j = Some g" using that(3) by (simp add: locate_file_def split: if_splits)
    moreover from this have "j \<noteq> i" using i max_file_id_ge(2)[of j st] by (auto simp: set_om_keys)
    ultimately show ?thesis using loc by simp
  qed
  then have "files_extend st st'" unfolding files_extend_def by (metis prefix_order.refl)
  then show ?thesis by (intro log_rel_frame[OF rel inv]) (simp_all add: st')
qed

lemma next_file_id_cong:
  "nl_active a = nl_active b \<Longrightarrow> om_keys (nl_sealed a) = om_keys (nl_sealed b) \<Longrightarrow> next_file_id a = next_file_id b"
  by (simp add: next_file_id_def max_file_id_def)

lemma max_file_id_Max:
  "max_file_id st = Max (insert 0 (insert (lf_file_id (nl_active st)) (set (om_keys (nl_sealed st)))))"
proof -
  have "max (Max (insert 0 S)) a = Max (insert 0 (insert a S))" if "finite S" for S and a :: nat
    using that by (cases "S = {}") (simp_all add: max.commute max.left_commute)
  then show ?thesis by (simp add: max_file_id_def fold_max)
qed

lemma next_file_id_seal [simp]: "next_file_id (seal_into_sealed st) = next_file_id st"
proof -
  have "set (om_keys (nl_sealed (seal_into_sealed st))) =
      insert (lf_file_id (nl_active st)) (set (om_keys (nl_sealed st)))"
    by (auto simp: set_om_keys seal_into_sealed_def)
  then have "max_file_id (seal_into_sealed st) = max_file_id st"
    by (simp add: max_file_id_Max insert_commute) (simp add: seal_into_sealed_def)
  then show ?thesis by (simp add: next_file_id_def)
qed

lemma log_rel_upd:
  assumes "log_rel w A st"
  shows "log_rel w A (st\<lparr>nl_rotate_in_progress := b\<rparr>)" "log_rel w A (st\<lparr>nl_reclaim_in_progress := b\<rparr>)"
    "log_rel w A (st\<lparr>nl_in_flight_writes := n\<rparr>)" "log_rel w A (st\<lparr>nl_unsynced_bytes := n\<rparr>)"
    "log_rel w A (st\<lparr>nl_frozen := b\<rparr>)" "log_rel w A (st\<lparr>nl_dir := d\<rparr>)"
    "log_rel w A (st\<lparr>nl_compaction_bytes := n\<rparr>)"
    "nl_last_tstamp st \<le> t \<Longrightarrow> log_rel w A (st\<lparr>nl_last_tstamp := t\<rparr>)"
  by (rule log_rel_frame[OF assms];
      use assms in \<open>fastforce simp: log_rel_def log_inv_def files_extend_def locate_file_def intro: order_trans\<close>)+

lemma log_rel_rotate_inner:
  assumes "log_rel w A st" "rotate_active_inner w st = (res, st')"
  shows "log_rel w A st'"
proof -
  obtain r f where ft: "write_footer (w_crc w) (nl_active st) (active_footer st) = (r, f)" by force
  note a = log_rel_write_footer[OF assms(1) ft]
  note open_new = log_rel_open_new[OF log_rel_seal[OF a]]
  show ?thesis
    using assms(2) ft a open_new
    by (auto simp: rotate_active_inner_def Let_def seal_into_sealed_def[of "set_active f st", THEN arg_cong[where f = nl_sealed]]
        seal_into_sealed_def[of "set_active f st", THEN arg_cong[where f = nl_active]] split: sum.splits)
qed

lemma log_rel_rotate:
  assumes "log_rel w A st" "rotate_active w st = (res, st')"
  shows "log_rel w A st'"
  using assms log_rel_rotate_inner[OF log_rel_upd(1)[OF assms(1)]] log_rel_upd(1)
  by (auto simp: rotate_active_def Let_def split: prod.splits if_splits)

section \<open>The write path\<close>

text \<open>The revision clock has not reached the end of the \<^verbatim>\<open>u64\<close> range, where \<^verbatim>\<open>last + 1\<close> would wrap.\<close>

definition tstamp_room :: "ns_log \<Rightarrow> bool" where
  "tstamp_room st \<longleftrightarrow> nl_last_tstamp st \<noteq> - 1"

text \<open>A value about to be stored does not collide with the content of a blob already on disk.\<close>

definition no_collision :: "world \<Rightarrow> bytes \<Rightarrow> ns_log \<Rightarrow> bool" where
  "no_collision w v st \<longleftrightarrow>
     (\<forall>h b. om_lookup (vs_blobs (nl_values st)) h = Some b \<and>
        content_hash (w_blake w) b = content_hash (w_blake w) v \<longrightarrow> b = v)"

lemma next_tstamp_mono:
  assumes "next_tstamp clk st = (t, st')" "tstamp_room st"
  shows "nl_last_tstamp st < t" and "st' = st\<lparr>nl_last_tstamp := t\<rparr>"
proof -
  have "1 + nl_last_tstamp st \<noteq> 0"
    using assms(2) unfolding tstamp_room_def by (metis add_eq_0_iff)
  then have "nl_last_tstamp st < nl_last_tstamp st + 1"
    by (simp add: word_less_nat_alt unatSuc add.commute)
  then show "nl_last_tstamp st < t" "st' = st\<lparr>nl_last_tstamp := t\<rparr>"
    using assms(1) by (auto simp: next_tstamp_def Let_def split: if_splits)
qed

lemma log_rel_next_tstamp:
  "log_rel w A st \<Longrightarrow> tstamp_room st \<Longrightarrow> next_tstamp clk st = (t, st') \<Longrightarrow> log_rel w A st'"
  using next_tstamp_mono[of clk st t st'] log_rel_upd(8)[of w A st t] by simp

lemma has_flag_or [simp]: "has_flag (a OR b) f \<longleftrightarrow> has_flag a f \<or> has_flag b f"
  by (simp add: has_flag_def bit.conj_disj_distrib2 or_eq_0_iff)

lemma has_flag_consts [simp]:
  "\<not> has_flag 0 f" "has_flag VALUE_SEP VALUE_SEP" "\<not> has_flag NO_EXPIRY VALUE_SEP"
  "\<not> has_flag TOMBSTONE VALUE_SEP" "\<not> has_flag TTL_UPDATE VALUE_SEP"
  "has_flag TOMBSTONE TOMBSTONE" "\<not> has_flag NO_EXPIRY TOMBSTONE" "\<not> has_flag VALUE_SEP TOMBSTONE"
  "\<not> has_flag TTL_UPDATE TOMBSTONE" "has_flag TTL_UPDATE TTL_UPDATE" "\<not> has_flag NO_EXPIRY TTL_UPDATE"
  "\<not> has_flag VALUE_SEP TTL_UPDATE" "has_flag NO_EXPIRY NO_EXPIRY" "\<not> has_flag VALUE_SEP NO_EXPIRY"
  "\<not> has_flag TTL_UPDATE NO_EXPIRY"
  by (simp_all add: has_flag_def flag_defs)

text \<open>The log holds one more reference to \<open>sep\<close> than the index accounts for.\<close>

definition ref_held :: "bytes option \<Rightarrow> ns_log \<Rightarrow> bool" where
  "ref_held sep st \<longleftrightarrow>
     (\<forall>h. nrefs (nl_index st) h + (if sep = Some h then 1 else 0) \<le> refcount (nl_values st) h)"

lemma log_rel_values:
  assumes rel: "log_rel w A st" and inv: "vs_inv (w_blake w) vs"
    and cover: "\<And>h. nrefs (nl_index st) h \<le> refcount vs h"
    and blobs: "\<And>h. 0 < refcount (nl_values st) h \<Longrightarrow> om_lookup (vs_blobs vs) h = om_lookup (vs_blobs (nl_values st)) h"
  shows "log_rel w A (st\<lparr>nl_values := vs\<rparr>)"
  by (rule log_rel_frame[OF rel])
    (use rel inv cover blobs in \<open>auto simp: log_rel_def log_inv_def files_extend_def locate_file_def\<close>)

lemma refs_cover: "log_rel w A st \<Longrightarrow> nrefs (nl_index st) h \<le> refcount (nl_values st) h"
  by (simp add: log_rel_def log_inv_def)

lemma vs_inv_rel: "log_rel w A st \<Longrightarrow> vs_inv (w_blake w) (nl_values st)"
  by (simp add: log_rel_def log_inv_def)

lemma log_rel_put_value:
  assumes rel: "log_rel w A st" and put: "vs_put (w_blake w) bio v (nl_values st) = (res, vs)"
  shows "log_rel w A (st\<lparr>nl_values := vs\<rparr>)"
proof (rule log_rel_values[OF rel vs_inv_put[OF vs_inv_rel[OF rel] put]])
  show "nrefs (nl_index st) h \<le> refcount vs h" for h
    using refs_cover[OF rel, of h] put vs_put_ok_refcount(2)[of _ _ v "nl_values st" _ vs h]
      vs_put_err_refcount[of _ _ v "nl_values st" _ vs h]
    by (cases res) (auto split: if_splits)
  show "om_lookup (vs_blobs vs) h = om_lookup (vs_blobs (nl_values st)) h" if "0 < refcount (nl_values st) h" for h
    using that put vs_put_ok_blobs[of _ _ v "nl_values st" _ vs h] vs_put_err_blobs[of _ _ v "nl_values st" _ vs h]
    by (cases res) auto
qed

lemma maybe_separate_rel:
  assumes "log_rel w A st" "maybe_separate w v fl st = (res, st')"
  shows "log_rel w A st'" "st' = st\<lparr>nl_values := nl_values st'\<rparr>"
  using assms log_rel_put_value[OF assms(1)]
  by (auto simp: maybe_separate_def split: if_splits prod.splits sum.splits)

lemma maybe_separate_ok:
  assumes rel: "log_rel w A st" and sep: "maybe_separate w v fl st = (Inr (h, fl'), st')"
    and coll: "no_collision w v st" and fl: "\<not> has_flag fl VALUE_SEP"
  shows "ref_held h st'"
    and "value_in w (nl_values st') h
      \<lparr>lr_tstamp = ts, lr_flags = fl', lr_expires = ex, lr_key = k, lr_val = (case h of Some x \<Rightarrow> x | None \<Rightarrow> v), lr_meta = m\<rparr> v"
proof -
  show "ref_held h st'"
    using sep refs_cover[OF rel]
    by (auto simp: maybe_separate_def ref_held_def le_SucI vs_put_ok_refcount split: if_splits prod.splits sum.splits)
  show "value_in w (nl_values st') h
      \<lparr>lr_tstamp = ts, lr_flags = fl', lr_expires = ex, lr_key = k, lr_val = (case h of Some x \<Rightarrow> x | None \<Rightarrow> v), lr_meta = m\<rparr> v"
  proof (cases h)
    case None
    then show ?thesis using sep fl by (auto simp: maybe_separate_def value_in_def split: if_splits prod.splits sum.splits)
  next
    case (Some x)
    then obtain bio where put: "vs_put (w_blake w) bio v (nl_values st) = (Inr x, nl_values st')"
      and fl': "fl' = fl OR VALUE_SEP"
      using sep by (auto simp: maybe_separate_def split: if_splits prod.splits sum.splits)
    have x: "x = content_hash (w_blake w) v" using vs_put_ok_refcount(1)[OF put] .
    have "om_lookup (vs_blobs (nl_values st')) x = Some v"
    proof (cases "refcount (nl_values st) x = 0")
      case True
      then show ?thesis using vs_put_ok_blobs[OF put, of x] x by simp
    next
      case False
      then obtain b where "om_lookup (vs_blobs (nl_values st)) x = Some b" "content_hash (w_blake w) b = x"
        using vs_invD[OF vs_inv_rel[OF rel]] by (auto simp: blob_ok_def)
      then show ?thesis using vs_put_ok_blobs[OF put, of x] False x coll by (auto simp: no_collision_def)
    qed
    then show ?thesis using x Some fl' by (simp add: value_in_def)
  qed
qed

lemma nrefs_update:
  assumes "\<And>k'. valsep ix' k' = (if k' = k then y else valsep ix k')"
  shows "nrefs ix' h + (if valsep ix k = Some h then 1 else 0) = nrefs ix h + (if y = Some h then 1 else 0)"
proof -
  let ?R = "{k'. k' \<noteq> k \<and> valsep ix k' = Some h}"
  have fin: "finite ?R" by (rule finite_subset[OF _ finite_valsep[of ix h]]) auto
  have "{k'. valsep ix k' = Some h} = (if valsep ix k = Some h then insert k ?R else ?R)"
    "{k'. valsep ix' k' = Some h} = (if y = Some h then insert k ?R else ?R)"
    using assms by auto
  with fin show ?thesis by (simp add: nrefs_def)
qed

lemma unref_opt_simps [simp]:
  "nl_index (unref_opt h st) = nl_index st" "nl_sealed (unref_opt h st) = nl_sealed st"
  "nl_active (unref_opt h st) = nl_active st" "nl_last_tstamp (unref_opt h st) = nl_last_tstamp st"
  "nl_config (unref_opt h st) = nl_config st" "nl_dir (unref_opt h st) = nl_dir st"
  "nl_frozen (unref_opt h st) = nl_frozen st" "nl_in_flight_writes (unref_opt h st) = nl_in_flight_writes st"
  "locate_file (unref_opt h st) i = locate_file st i"
  "vs_blobs (nl_values (unref_opt h st)) = vs_blobs (nl_values st)"
  "refcount (nl_values (unref_opt h st)) g = (if h = Some g then refcount (nl_values st) g - 1 else refcount (nl_values st) g)"
  by (auto simp: unref_opt_def with_values_def locate_file_def split: option.splits)

lemma vs_inv_unref_opt: "vs_inv bl (nl_values st) \<Longrightarrow> vs_inv bl (nl_values (unref_opt h st))"
  by (auto simp: unref_opt_def with_values_def split: option.splits)

lemma log_rel_unref_held:
  assumes "log_rel w A st" "ref_held h st"
  shows "log_rel w A (unref_opt h st)"
proof (rule log_rel_frame[OF assms(1)])
  have "nrefs (nl_index st) g \<le> refcount (nl_values (unref_opt h st)) g" for g
    using assms(2) refs_cover[OF assms(1), of g] by (auto simp: ref_held_def dest: spec[of _ g])
  then show "log_inv w (unref_opt h st)"
    using assms(1) vs_inv_unref_opt[of "w_blake w" st h] unfolding log_rel_def log_inv_def by simp
qed (auto simp: files_extend_def)

text \<open>Committing a record that lies in the active file and whose value the log holds a reference to.\<close>

lemma commit_put:
  assumes rel: "log_rel w A st" and held: "ref_held sep st"
    and rin: "rec_in (w_crc w) (nl_active st) off r" and keys: "lr_key r = k" "lr_meta r = m" "lr_tstamp r = ts"
    and val: "value_in w (nl_values st) sep r v" and ts: "ts \<le> nl_last_tstamp st"
    and ent: "e = index_entry_new (lf_file_id (nl_active st)) off (length (enc_rec (w_crc w) r)) ts"
    and ins: "apply_valsep_insert k e t sep st = (old, st1)"
  shows "log_rel w (spec_put k v m t ts A) (unref_opt old st1)"
proof (rule log_relI)
  let ?st = "unref_opt old st1"
  have ix: "nl_index st1 = set_valsep k sep (ix_insert k e t (nl_index st))" and old: "old = valsep (nl_index st) k"
    and st1: "st1 = st\<lparr>nl_index := nl_index st1\<rparr>"
    using ins by (auto simp: apply_valsep_insert_def with_index_def)
  have loc: "locate_file st1 i = locate_file st i" for i
    by (subst st1) (simp add: locate_file_def)
  have vs: "nl_values st1 = nl_values st" "nl_sealed st1 = nl_sealed st" "nl_active st1 = nl_active st"
    "nl_last_tstamp st1 = nl_last_tstamp st"
    by (subst st1, simp)+
  have n: "nrefs (nl_index st1) h + (if old = Some h then 1 else 0) = nrefs (nl_index st) h + (if sep = Some h then 1 else 0)" for h
    unfolding old by (rule nrefs_update) (simp add: ix)
  have "nrefs (nl_index st1) h \<le> refcount (nl_values ?st) h" for h
    using n[of h] held[unfolded ref_held_def, THEN spec, of h] by (auto simp: vs split: if_splits)
  then show "log_inv w ?st"
    using rel ts vs_inv_unref_opt[of "w_blake w" st1 old] ent
    by (auto simp: log_rel_def log_inv_def ix vs index_entry_new_def)
  show "spec_put k v m t ts A j = None" if "ix_get (nl_index ?st) j = None" for j
    using that log_rel_None[OF rel, of j] by (auto simp: ix spec_put_def split: if_splits)
  show "\<exists>x. spec_put k v m t ts A j = Some x \<and> entry_holds w ?st j d x" if "ix_get (nl_index ?st) j = Some d" for j d
  proof (cases "j = k")
    case True
    then have "d = e" using that by (simp add: ix)
    have "entry_holds w ?st k e \<lparr>kv_value = v, kv_meta = m, kv_ttl = t, kv_rev = ts\<rparr>"
      using rin keys val
      by (intro entry_holdsI[where f = "nl_active st" and r = r])
        (simp_all add: loc locate_file_def ent index_entry_new_def ix value_in_cong[of "nl_values ?st" "nl_values st"] vs)
    then show ?thesis using True \<open>d = e\<close> by (simp add: spec_put_def)
  next
    case False
    then have d: "ix_get (nl_index st) j = Some d" using that by (simp add: ix)
    then obtain x where x: "A j = Some x" "entry_holds w st j d x" using log_rel_Some[OF rel] by blast
    have "entry_holds w ?st j d x"
      by (rule entry_holds_frame[OF x(2) _ d]) (use False in \<open>auto simp: files_extend_def loc ix vs\<close>)
    then show ?thesis using x False by (simp add: spec_put_def)
  qed
qed


lemma maybe_rotate_rel:
  assumes "log_rel w A st" "maybe_rotate w r st = (res, st')"
  shows "log_rel w A st'" "res = Inr x \<Longrightarrow> x = r"
  using assms log_rel_rotate[OF assms(1)] by (auto simp: maybe_rotate_def split: if_splits prod.splits sum.splits)

lemma append_file_id: "append_buf f b = (r, f') \<Longrightarrow> lf_file_id f' = lf_file_id f"
  by (metis append_keeps(1) snd_conv)

lemma append_active_frame:
  assumes "append_active buf st = (res, st')"
  shows "nl_values st' = nl_values st" "nl_index st' = nl_index st" "nl_last_tstamp st' = nl_last_tstamp st"
    "nl_config st' = nl_config st" "lf_file_id (nl_active st') = lf_file_id (nl_active st)"
  using assms by (auto simp: append_active_def append_file_id split: prod.splits)

lemma append_active_rec:
  assumes rel: "log_rel w A st" and app: "append_active (enc_rec crc r) st = (Inr off, st')" and "rec_fits r"
  shows "rec_in crc (nl_active st') off r"
proof -
  obtain f where f: "append_buf (nl_active st) (enc_rec crc r) = (Inr off, f)" "st' = set_active f st"
    using app by (auto simp: append_active_def split: prod.splits)
  then show ?thesis
    using append_Inr[OF f(1) act_ok_rel[OF rel]] assms(3)
    by (simp add: rec_in_def subslice_append_eq[of _ _ _ _ "[]", simplified])
qed

lemma ref_held_cong:
  "nl_index st' = nl_index st \<Longrightarrow> nl_values st' = nl_values st \<Longrightarrow> ref_held h st' = ref_held h st"
  by (simp add: ref_held_def)

lemma add_unsynced_simps [simp]:
  "nl_values (add_unsynced n st) = nl_values st" "nl_index (add_unsynced n st) = nl_index st"
  "nl_last_tstamp (add_unsynced n st) = nl_last_tstamp st" "nl_active (add_unsynced n st) = nl_active st"
  "nl_sealed (add_unsynced n st) = nl_sealed st" "nl_dir (add_unsynced n st) = nl_dir st"
  "log_rel w A st \<Longrightarrow> log_rel w A (add_unsynced n st)"
  by (simp_all add: add_unsynced_def log_rel_upd)

lemma expiry_flags [simp]: "\<not> has_flag (fst (expiry_fields t)) VALUE_SEP"
  by (simp add: expiry_fields_def split: option.splits)

text \<open>
  A write either takes effect, whatever happens to the rotation after it, or leaves the store as it was.
\<close>

lemma write_record_cases:
  assumes rel: "log_rel w A st" and room: "tstamp_room st" and coll: "no_collision w v st"
    and wr: "write_record w clk k v m t st = (res, st')"
  obtains (written) ts where "ts = fst (next_tstamp clk st)" "log_rel w (spec_put k v m t ts A) st'"
      "\<And>x. res = Inr x \<Longrightarrow> x = ts"
    | (failed) e where "res = Inl e" "log_rel w A st'"
proof -
  obtain ts st1 where n: "next_tstamp clk st = (ts, st1)" by force
  note mono = next_tstamp_mono[OF n room]
  have rel1: "log_rel w A st1" using log_rel_next_tstamp[OF rel room n] .
  obtain fl ex where fe: "expiry_fields t = (fl, ex)" by force
  then have fl: "\<not> has_flag fl VALUE_SEP" using expiry_flags[of t] by simp
  obtain r2 st2 where sep: "maybe_separate w v fl st1 = (r2, st2)" by force
  note rel2 = maybe_separate_rel[OF rel1 sep]
  have coll1: "no_collision w v st1" using coll mono(2) by (simp add: no_collision_def)
  show thesis
  proof (cases r2)
    case (Inl e)
    then show thesis using wr failed[of e] rel2(1) n fe sep by (simp add: write_record_def)
  next
    case (Inr hf)
    then obtain h fl' where hf: "r2 = Inr (h, fl')" by (cases hf) auto
    let ?r = "\<lparr>lr_tstamp = ts, lr_flags = fl', lr_expires = ex, lr_key = k,
               lr_val = (case h of Some x \<Rightarrow> x | None \<Rightarrow> v), lr_meta = m\<rparr>"
    note ok = maybe_separate_ok[OF rel1 sep[unfolded hf] coll1 fl]
    note enc = encode_into_enc_rec[of "w_crc w" "[]" ts fl' ex k "lr_val ?r" m]
    show thesis
    proof (cases "rec_fits ?r")
      case False
      then show thesis
        using wr failed[of "BadRecord 0 ''record exceeds 4 GiB limit''"] rel2(1) n fe sep hf enc
        by (simp add: write_record_def Let_def)
    next
      case True
      obtain r3 st3 where app: "append_active (enc_rec (w_crc w) ?r) st2 = (r3, st3)" by force
      note rel3 = log_rel_append[OF rel2(1) app]
      note fr = append_active_frame[OF app]
      have held: "ref_held h st3" using ok(1) by (simp add: ref_held_cong[OF fr(2,1)])
      show thesis
      proof (cases r3)
        case (Inl e)
        then have "res = Inl e" "st' = unref_opt h st3"
          using wr n fe sep hf enc True app by (simp_all add: write_record_def Let_def)
        then show thesis using failed log_rel_unref_held[OF rel3 held] by simp
      next
        case (Inr off)
        let ?st = "add_unsynced (length (enc_rec (w_crc w) ?r)) st3"
        let ?e = "index_entry_new (lf_file_id (nl_active st3)) off (length (enc_rec (w_crc w) ?r)) ts"
        obtain old st4 where ins: "apply_valsep_insert k ?e t h ?st = (old, st4)" by force
        have rin: "rec_in (w_crc w) (nl_active ?st) off ?r"
          using append_active_rec[OF rel2(1) app[unfolded Inr] True] by simp
        have ts: "ts \<le> nl_last_tstamp ?st"
          using fr(3) arg_cong[OF rel2(2), of nl_last_tstamp] mono(2) by simp
        have val: "value_in w (nl_values ?st) h ?r v" using ok(2) fr(1) by simp
        have held': "ref_held h ?st" using held by (simp add: ref_held_def)
        have com: "log_rel w (spec_put k v m t ts A) (unref_opt old st4)"
          by (rule commit_put[OF add_unsynced_simps(7)[OF rel3] held' rin _ _ _ val ts _ ins]) simp_all
        have rot: "maybe_rotate w ts (unref_opt old st4) = (res, st')"
          using wr n fe sep hf enc True app Inr ins by (simp add: write_record_def Let_def)
        show thesis
        proof (rule written)
          show "ts = fst (next_tstamp clk st)" using n by simp
          show "log_rel w (spec_put k v m t ts A) st'" using maybe_rotate_rel(1)[OF com rot] .
          show "x = ts" if "res = Inr x" for x using maybe_rotate_rel(2)[OF com rot that] .
        qed
      qed
    qed
  qed
qed

section \<open>The write methods\<close>

lemma guarded_cases:
  assumes "guarded body st = (res, st')"
  obtains (frozen) "nl_frozen st" "res = Inl Frozen" "st' = st"
    | (ran) st2 where "\<not> nl_frozen st"
      "body (st\<lparr>nl_in_flight_writes := nl_in_flight_writes st + 1\<rparr>) = (res, st2)"
      "st' = st2\<lparr>nl_in_flight_writes := nl_in_flight_writes st2 - 1\<rparr>"
  using assms by (auto simp: guarded_def begin_write_def split: if_splits prod.splits)

lemma room_in_flight [simp]:
  "tstamp_room (st\<lparr>nl_in_flight_writes := n\<rparr>) = tstamp_room st"
  "no_collision w v (st\<lparr>nl_in_flight_writes := n\<rparr>) = no_collision w v st"
  "fst (next_tstamp clk (st\<lparr>nl_in_flight_writes := n\<rparr>)) = fst (next_tstamp clk st)"
  by (simp_all add: tstamp_room_def no_collision_def next_tstamp_def Let_def)

lemma log_rel_flags [simp]:
  "log_rel w A (st\<lparr>nl_in_flight_writes := n\<rparr>) = log_rel w A st"
  "log_rel w A (st\<lparr>nl_rotate_in_progress := b\<rparr>) = log_rel w A st"
  "log_rel w A (st\<lparr>nl_reclaim_in_progress := b\<rparr>) = log_rel w A st"
  "log_rel w A (st\<lparr>nl_unsynced_bytes := n\<rparr>) = log_rel w A st"
  "log_rel w A (st\<lparr>nl_frozen := b\<rparr>) = log_rel w A st"
  "log_rel w A (st\<lparr>nl_dir := d\<rparr>) = log_rel w A st"
  "log_rel w A (st\<lparr>nl_compaction_bytes := n\<rparr>) = log_rel w A st"
  by (simp_all add: log_rel_def log_inv_def entry_holds_def locate_file_def cong: option.case_cong)

lemma put_full_cases:
  assumes rel: "log_rel w A st" and room: "tstamp_room st" and coll: "no_collision w v st"
    and put: "put_full w clk k v m t st = (res, st')"
  obtains (written) ts where "ts = fst (next_tstamp clk st)" "log_rel w (spec_put k v m t ts A) st'"
      "\<And>x. res = Inr x \<Longrightarrow> x = ts"
    | (failed) e where "res = Inl e" "log_rel w A st'"
  using put[unfolded put_full_def]
proof (cases rule: guarded_cases)
  case frozen
  then show thesis using failed rel by simp
next
  case (ran st2)
  let ?st = "st\<lparr>nl_in_flight_writes := nl_in_flight_writes st + 1\<rparr>"
  have r: "log_rel w A ?st" "tstamp_room ?st" "no_collision w v ?st" using rel room coll by (simp_all add: log_rel_upd)
  from r ran(2) show thesis
  proof (cases rule: write_record_cases)
    case (written ts)
    then show thesis using that(1)[of ts] ran(3) by (simp add: log_rel_upd)
  next
    case (failed e)
    then show thesis using that(2) ran(3) by (simp add: log_rel_upd)
  qed
qed

lemma put_full_cond_cases:
  assumes rel: "log_rel w A st" and room: "tstamp_room st" and coll: "no_collision w v st"
    and put: "put_full_cond w clk k v m t cond now st = (res, st')"
  obtains (written) ts where "check_cond cond (spec_live A k now)" "ts = fst (next_tstamp clk st)"
      "log_rel w (spec_put k v m t ts A) st'" "\<And>x. res = Inr x \<Longrightarrow> x = Some ts"
    | (refused) "\<not> check_cond cond (spec_live A k now)" "res = Inr None" "log_rel w A st'"
        "nl_dir st' = nl_dir st" "nl_values st' = nl_values st" "nl_last_tstamp st' = nl_last_tstamp st"
    | (failed) e where "res = Inl e" "log_rel w A st'"
  using put[unfolded put_full_cond_def]
proof (cases rule: guarded_cases)
  case frozen
  then show thesis using failed rel by simp
next
  case (ran st2)
  let ?st = "st\<lparr>nl_in_flight_writes := nl_in_flight_writes st + 1\<rparr>"
  have r: "log_rel w A ?st" "tstamp_room ?st" "no_collision w v ?st" using rel room coll by (simp_all add: log_rel_upd)
  have live: "live_rev (nl_index st) k now = spec_live A k now" using spec_live_rel[OF rel] .
  show thesis
  proof (cases "check_cond cond (spec_live A k now)")
    case False
    then have "res = Inr None" "st2 = ?st" using ran(2) live by auto
    then show thesis using refused False ran(3) rel by (simp add: log_rel_upd)
  next
    case True
    obtain res2 where wr: "write_record w clk k v m t ?st = (res2, st2)" and
        res: "res = (case res2 of Inl e \<Rightarrow> Inl e | Inr x \<Rightarrow> Inr (Some x))"
      using ran(2) True live by (auto split: prod.splits sum.splits)
    from r wr show thesis
    proof (cases rule: write_record_cases)
      case (written ts)
      then show thesis using that(1)[of ts] True ran(3) res by (auto simp add: log_rel_upd split: sum.splits)
    next
      case (failed e)
      then show thesis using that(3) ran(3) res by (simp add: log_rel_upd)
    qed
  qed
qed

lemma remove_rel:
  assumes rel: "log_rel w A st"
  shows "log_rel w (spec_del k A) (st\<lparr>nl_index := snd (ix_remove k (nl_index st))\<rparr>)"
    and "ref_held (valsep (nl_index st) k) (st\<lparr>nl_index := snd (ix_remove k (nl_index st))\<rparr>)"
proof -
  let ?st = "st\<lparr>nl_index := snd (ix_remove k (nl_index st))\<rparr>"
  have n: "nrefs (nl_index ?st) h + (if valsep (nl_index st) k = Some h then 1 else 0) = nrefs (nl_index st) h" for h
    using nrefs_update[of "nl_index ?st" k None "nl_index st" h] by simp
  show held: "ref_held (valsep (nl_index st) k) ?st"
    unfolding ref_held_def using n refs_cover[OF rel] by simp
  have "nrefs (nl_index ?st) h \<le> refcount (nl_values ?st) h" for h
    using n[of h] refs_cover[OF rel, of h] by simp
  then have inv: "log_inv w ?st"
    using rel by (auto simp: log_rel_def log_inv_def)
  show "log_rel w (spec_del k A) ?st"
  proof (rule log_relI[OF inv])
    show "spec_del k A j = None" if "ix_get (nl_index ?st) j = None" for j
      using that log_rel_None[OF rel, of j] by (auto simp: spec_del_def split: if_splits)
    show "\<exists>x. spec_del k A j = Some x \<and> entry_holds w ?st j e x" if "ix_get (nl_index ?st) j = Some e" for j e
    proof -
      have j: "j \<noteq> k" "ix_get (nl_index st) j = Some e" using that by (auto split: if_splits)
      then obtain x where x: "A j = Some x" "entry_holds w st j e x" using log_rel_Some[OF rel] by blast
      have "entry_holds w ?st j e x"
        by (rule entry_holds_frame[OF x(2) _ j(2)]) (use j in \<open>auto simp: files_extend_def locate_file_def\<close>)
      then show ?thesis using x j by (simp add: spec_del_def)
    qed
  qed
qed

lemma append_tombstone_rel:
  assumes rel: "log_rel w A st" and held: "ref_held h st" and room: "tstamp_room st"
    and app: "append_tombstone w clk k h st = (res, st')"
  shows "log_rel w A st'" and "res = Inr x \<Longrightarrow> x = Some (fst (next_tstamp clk st))"
proof -
  obtain ts st1 where n: "next_tstamp clk st = (ts, st1)" by force
  have rel1: "log_rel w A st1" using log_rel_next_tstamp[OF rel room n] .
  have held1: "ref_held h st1" using held next_tstamp_mono(2)[OF n room] by (simp add: ref_held_def)
  have "log_rel w A st' \<and> (res = Inr x \<longrightarrow> x = Some ts)"
  proof (cases "encode_into (w_crc w) [] ts TOMBSTONE 0 k [] []")
    case (Inl e)
    then show ?thesis using app n rel1 by (auto simp: append_tombstone_def)
  next
    case (Inr buf)
    obtain r2 st2 where a: "append_active buf st1 = (r2, st2)" by force
    have rel2: "log_rel w A st2" using log_rel_append[OF rel1 a] .
    have "ref_held h st2" using held1 by (simp add: ref_held_cong[OF append_active_frame(2,1)[OF a]])
    then have "log_rel w A (unref_opt h (add_unsynced (length buf) st2))"
      using rel2 by (intro log_rel_unref_held) (simp_all add: ref_held_def)
    then show ?thesis using app n Inr a rel2 by (cases r2) (auto simp: append_tombstone_def)
  qed
  then show "log_rel w A st'" "res = Inr x \<Longrightarrow> x = Some (fst (next_tstamp clk st))" using n by auto
qed

lemma next_tstamp_index [simp]: "fst (next_tstamp clk (st\<lparr>nl_index := ix\<rparr>)) = fst (next_tstamp clk st)"
  "tstamp_room (st\<lparr>nl_index := ix\<rparr>) = tstamp_room st"
  by (simp_all add: next_tstamp_def Let_def tstamp_room_def)

text \<open>
  A delete that is let in always takes effect in memory, even when its record could not be written.
\<close>

lemma tombstone_rel:
  assumes rel: "log_rel w A st" and room: "tstamp_room st" and del: "tombstone w clk k st = (res, st')"
  shows "log_rel w (if nl_frozen st then A else spec_del k A) st'"
    and "res = Inr x \<Longrightarrow> x = (if A k = None then None else Some (fst (next_tstamp clk st)))"
    and "nl_frozen st \<Longrightarrow> res = Inl Frozen"
proof -
  have "log_rel w (if nl_frozen st then A else spec_del k A) st' \<and>
      (\<forall>x. res = Inr x \<longrightarrow> x = (if A k = None then None else Some (fst (next_tstamp clk st)))) \<and>
      (nl_frozen st \<longrightarrow> res = Inl Frozen)"
    using del[unfolded tombstone_def]
  proof (cases rule: guarded_cases)
    case frozen
    then show ?thesis using rel by simp
  next
    case (ran st2)
    let ?st = "st\<lparr>nl_in_flight_writes := nl_in_flight_writes st + 1\<rparr>"
    have r: "log_rel w A ?st" using rel by (simp add: log_rel_upd)
    obtain removed ix where ix: "ix_remove k (nl_index st) = (removed, ix)" by force
    note rm = remove_rel[OF r, of k, simplified, simplified ix]
    have none: "removed = None \<longleftrightarrow> A k = None"
      using log_rel_None[OF rel, of k] ix_remove_lookups(1)[of k "nl_index st", unfolded ix] by simp
    show ?thesis
    proof (cases "A k = None")
      case True
      then have "res = Inr None" "st2 = ?st\<lparr>nl_index := ix\<rparr>" using ran(2) none ix by (auto simp: Let_def)
      then show ?thesis using ran(1,3) remove_rel(1)[OF rel, of k] ix True by simp
    next
      case False
      then have "removed \<noteq> None" using none by simp
      then have "append_tombstone w clk k (valsep (nl_index st) k) (?st\<lparr>nl_index := ix\<rparr>) = (res, st2)"
        using ran(2) ix by (auto simp: Let_def)
      from append_tombstone_rel[OF _ _ _ this, of "spec_del k A"] show ?thesis
        using rm room ran(1,3) False by auto
    qed
  qed
  then show "log_rel w (if nl_frozen st then A else spec_del k A) st'"
    "res = Inr x \<Longrightarrow> x = (if A k = None then None else Some (fst (next_tstamp clk st)))"
    "nl_frozen st \<Longrightarrow> res = Inl Frozen" by auto
qed


lemma tombstone_cond_rel:
  assumes rel: "log_rel w A st" and room: "tstamp_room st"
    and del: "tombstone_cond w clk k rv now st = (res, st')"
  shows "log_rel w (if \<not> nl_frozen st \<and> spec_live A k now = Some rv then spec_del k A else A) st'"
    and "res = Inr x \<Longrightarrow> x = (if spec_live A k now = Some rv then Some (fst (next_tstamp clk st)) else None)"
proof -
  have "log_rel w (if \<not> nl_frozen st \<and> spec_live A k now = Some rv then spec_del k A else A) st' \<and>
      (\<forall>x. res = Inr x \<longrightarrow> x = (if spec_live A k now = Some rv then Some (fst (next_tstamp clk st)) else None))"
    using del[unfolded tombstone_cond_def]
  proof (cases rule: guarded_cases)
    case frozen
    then show ?thesis using rel by simp
  next
    case (ran st2)
    let ?st = "st\<lparr>nl_in_flight_writes := nl_in_flight_writes st + 1\<rparr>"
    have r: "log_rel w A ?st" using rel by simp
    note rm = remove_rel[OF r, of k, simplified]
    have live: "live_rev (nl_index st) k now = spec_live A k now" using spec_live_rel[OF rel] .
    show ?thesis
    proof (cases "spec_live A k now = Some rv")
      case False
      then have "res = Inr None" "st2 = ?st" using ran(2) live by auto
      then show ?thesis using ran(1,3) False rel by simp
    next
      case True
      then have "append_tombstone w clk k (valsep (nl_index st) k)
          (?st\<lparr>nl_index := snd (ix_remove k (nl_index st))\<rparr>) = (res, st2)"
        using ran(2) live by (simp add: with_index_def)
      from append_tombstone_rel[OF _ _ _ this, of "spec_del k A"] show ?thesis
        using rm room ran(1,3) True by simp
    qed
  qed
  then show "log_rel w (if \<not> nl_frozen st \<and> spec_live A k now = Some rv then spec_del k A else A) st'"
    "res = Inr x \<Longrightarrow> x = (if spec_live A k now = Some rv then Some (fst (next_tstamp clk st)) else None)" by auto
qed

lemma with_index_simps [simp]:
  "nl_index (with_index g st) = g (nl_index st)" "nl_values (with_index g st) = nl_values st"
  "nl_sealed (with_index g st) = nl_sealed st" "nl_active (with_index g st) = nl_active st"
  "nl_last_tstamp (with_index g st) = nl_last_tstamp st" "nl_dir (with_index g st) = nl_dir st"
  by (simp_all add: with_index_def)

lemma set_ttl_rel:
  assumes rel: "log_rel w A st"
  shows "log_rel w (spec_expire k t A) (with_index (set_ttl k t) st)"
proof (rule log_relI)
  let ?st = "with_index (set_ttl k t) st"
  have n: "nrefs (nl_index ?st) h = nrefs (nl_index st) h" for h by (simp add: nrefs_def)
  have loc: "locate_file ?st = locate_file st" by (simp add: fun_eq_iff locate_file_def)
  show "log_inv w ?st" using rel n unfolding log_rel_def log_inv_def by simp
  show "spec_expire k t A j = None" if "ix_get (nl_index ?st) j = None" for j
    using that log_rel_None[OF rel, of j] by (auto simp: spec_expire_def)
  show "\<exists>x. spec_expire k t A j = Some x \<and> entry_holds w ?st j e x" if "ix_get (nl_index ?st) j = Some e" for j e
  proof -
    have j: "ix_get (nl_index st) j = Some e" using that by simp
    then obtain x where x: "A j = Some x" "entry_holds w st j e x" using log_rel_Some[OF rel] by blast
    let ?x = "if j = k then x\<lparr>kv_ttl := t\<rparr> else x"
    have "entry_holds w ?st j e ?x"
      using x(2) unfolding entry_holds_def loc by (cases "j = k") simp_all
    then show ?thesis using x by (auto simp: spec_expire_def)
  qed
qed

lemma ttl_update_cases:
  assumes rel: "log_rel w A st" and room: "tstamp_room st" and upd: "ttl_update w clk k t st = (res, st')"
  obtains (written) ts where "ts = fst (next_tstamp clk st)" "res = Inr ts" "log_rel w (spec_expire k t A) st'"
    | (failed) e where "res = Inl e" "log_rel w A st'"
  using upd[unfolded ttl_update_def]
proof (cases rule: guarded_cases)
  case frozen
  then show thesis using failed rel by simp
next
  case (ran st2)
  let ?st = "st\<lparr>nl_in_flight_writes := nl_in_flight_writes st + 1\<rparr>"
  obtain ts st1 where n: "next_tstamp clk ?st = (ts, st1)" by force
  have rel1: "log_rel w A st1" using log_rel_next_tstamp[OF _ _ n] rel room by simp
  obtain fl ex where fe: "(case t of Some ms \<Rightarrow> (TTL_UPDATE, ms) | None \<Rightarrow> (TTL_UPDATE OR NO_EXPIRY, 0)) = (fl, ex)"
    by force
  have ts: "ts = fst (next_tstamp clk st)" using n room_in_flight(3)[of clk "nl_in_flight_writes st + 1" st] by simp
  show thesis
  proof (cases "encode_into (w_crc w) [] ts fl ex k [] []")
    case (Inl e)
    then show thesis using failed ran(2,3) n fe rel1 by auto
  next
    case (Inr buf)
    obtain r3 st3 where a: "append_active buf st1 = (r3, st3)" by force
    have rel3: "log_rel w A st3" using log_rel_append[OF rel1 a] .
    have "log_rel w (spec_expire k t A) (with_index (set_ttl k t) (add_unsynced (length buf) st3))"
      using set_ttl_rel add_unsynced_simps(7)[OF rel3] by blast
    then show thesis
      using ran(2,3) n fe Inr a rel3 failed written[OF ts] by (cases r3) auto
  qed
qed

section \<open>Syncing, sealing, flushing\<close>

lemma sync_log_rel:
  assumes rel: "log_rel w A st" and s: "sync_log w st = (res, st')"
  shows "log_rel w A st'"
proof -
  have gc: "log_rel w A (with_values (collect_garbage rm) st)" if "log_rel w A st" for st rm
    unfolding with_values_def
    by (rule log_rel_values[OF that]) (use that in \<open>auto simp: vs_inv_rel refs_cover collect_garbage_blobs\<close>)
  show ?thesis
    using s rel gc[of st] gc[of "st\<lparr>nl_unsynced_bytes := 0\<rparr>"]
    by (auto simp: sync_log_def Let_def split: if_splits sum.splits)
qed

lemma seal_active_for_shutdown_rel:
  assumes rel: "log_rel w A st" and s: "seal_active_for_shutdown w st = (res, st')"
  shows "log_rel w A st'"
proof -
  let ?st = "st\<lparr>nl_unsynced_bytes := 0\<rparr>"
  obtain r f where ft: "write_footer (w_crc w) (nl_active ?st) (active_footer ?st) = (r, f)" by force
  have "log_rel w A (set_active f ?st)" using log_rel_write_footer[OF _ ft] rel by simp
  then show ?thesis
    using s rel ft by (auto simp: seal_active_for_shutdown_def Let_def split: if_splits sum.splits)
qed

lemma seal_into_sealed_simps [simp]:
  "nl_active (seal_into_sealed st) = nl_active st" "nl_index (seal_into_sealed st) = nl_index st"
  "nl_values (seal_into_sealed st) = nl_values st" "nl_config (seal_into_sealed st) = nl_config st"
  "nl_sealed (seal_into_sealed st) = om_insert (lf_file_id (nl_active st)) (nl_active st) (nl_sealed st)"
  "nl_dir (seal_into_sealed st) = nl_dir st" "nl_last_tstamp (seal_into_sealed st) = nl_last_tstamp st"
  by (simp_all add: seal_into_sealed_def)

lemma reopen_active_after_seal_rel:
  assumes rel: "log_rel w A st" and s: "reopen_active_after_seal w st = (res, st')"
  shows "log_rel w A st'"
proof (cases "next_file_id st")
  case (Inl e)
  then show ?thesis using s rel by (auto simp: reopen_active_after_seal_def)
next
  case (Inr i)
  then have "open_new_active w i (seal_into_sealed st) = (res, st')" using s by (simp add: reopen_active_after_seal_def)
  from log_rel_open_new[OF log_rel_seal[OF rel] _ _ this] show ?thesis using Inr by simp
qed

lemma flush_rel:
  assumes rel: "log_rel w A st" and room: "tstamp_room st" and idle: "\<not> nl_reclaim_in_progress st"
    and f: "flush w clk st = (res, st')"
  shows "log_rel w (\<lambda>k. None) st'" and "res = Inr r \<Longrightarrow> r = fst (next_tstamp clk st)"
proof -
  obtain ts st1 where n: "next_tstamp clk (st\<lparr>nl_reclaim_in_progress := True\<rparr>) = (ts, st1)" by force
  obtain r2 st2 where fi: "flush_inner w st1 = (r2, st2)" by force
  have out: "res = rbind r2 (\<lambda>u. Inr ts)" "st' = st2\<lparr>nl_reclaim_in_progress := False\<rparr>"
    using f idle n fi by (auto simp: flush_def)
  have rel1: "log_rel w A st1"
    using log_rel_next_tstamp[OF _ _ n] rel room by (simp add: tstamp_room_def)
  let ?E = "\<lambda>d. st1\<lparr>nl_sealed := om_empty, nl_index := ix_clear (nl_index st1), nl_dir := d\<rparr>"
  have nr: "nrefs (ix_clear (nl_index st1)) h = 0" for h by (simp add: nrefs_def)
  have base: "log_rel w (\<lambda>k. None) (?E d)" for d
    using rel1 by (intro log_relI) (auto simp: log_rel_def log_inv_def nr)
  have new: "log_rel w (\<lambda>k. None) s2" if "open_new_active w 0 (?E d) = (r, s2)" for d r s2
  proof -
    have "act_ok (nl_active s2) \<and> nl_sealed s2 = om_empty \<and> nl_index s2 = ix_clear (nl_index st1) \<and> nl_values s2 = nl_values st1"
      using that open_rw_file act_ok_rel[OF base[of d]] by (auto simp: open_new_active_def split: prod.splits sum.splits)
    then show ?thesis using rel1 by (intro log_relI) (auto simp: log_rel_def log_inv_def nr)
  qed
  have "log_rel w (\<lambda>k. None) st2"
    using fi base[of "nl_dir st1"] new[of "nl_dir st1"] new
    by (auto simp: flush_inner_def Let_def split: option.splits if_splits)
  then show "log_rel w (\<lambda>k. None) st'" using out by simp
  show "res = Inr r \<Longrightarrow> r = fst (next_tstamp clk st)"
    using out n by (cases r2) (auto simp: next_tstamp_def Let_def)
qed

end
