(* ===== verification/Ns_Compact.thy ===== *)
theory Ns_Compact
  imports Ns_Refine
begin

text \<open>
  Compaction keeps every key: merging the files of a level copies each live record verbatim, so the
  relation to the abstract store holds before, between and after the merges, and also when a merge fails
  half way.
\<close>

section \<open>Copying live records\<close>

text \<open>A live key's record was copied verbatim into the merged file \<open>data\<close>.\<close>

definition copied :: "log_file list \<Rightarrow> nat \<Rightarrow> bytes \<Rightarrow> live_key \<Rightarrow> live_key \<Rightarrow> bool" where
  "copied files next_id data l l' \<longleftrightarrow>
     (case (l, l') of ((k, e, t), (k', e', t')) \<Rightarrow>
        k' = k \<and> t' = t \<and>
        (\<exists>b off. read_live files e = Inr b \<and> off + length b \<le> length data \<and> subslice data off (length b) = b \<and>
           e' = index_entry_new next_id off (ie_record_size e) (ie_tstamp_ms e)))"

lemma copied_prefix:
  assumes "copied files i data l l'" "prefix data data'"
  shows "copied files i data' l l'"
proof -
  obtain k e t k' e' t' where l: "l = (k, e, t)" "l' = (k', e', t')" by (metis prod_cases3)
  with assms(1) obtain b off where c: "k' = k" "t' = t" "read_live files e = Inr b" "off + length b \<le> length data"
    "subslice data off (length b) = b" "e' = index_entry_new i off (ie_record_size e) (ie_tstamp_ms e)"
    by (auto simp: copied_def)
  obtain z where "data' = data @ z" using assms(2) by (auto simp: prefix_def)
  then have "off + length b \<le> length data'" "subslice data' off (length b) = b"
    using c(4,5) subslice_append_left[of off "length b" data z] by simp_all
  then show ?thesis using c l by (auto simp: copied_def)
qed

lemma copy_live_copied:
  "copy_live files i live f ftr ents nb = Inr (f', ftr', ents', nb') \<Longrightarrow> act_ok f \<Longrightarrow>
     prefix (lf_data f) (lf_data f') \<and> act_ok f' \<and>
     (\<exists>new. ents' = ents @ new \<and> list_all2 (copied files i (lf_data f')) live new)"
proof (induction files i live f ftr ents nb rule: copy_live.induct)
  case (1 files i f ftr ents nb)
  then show ?case by auto
next
  case (2 files i k e t live f ftr ents nb)
  obtain b where b: "read_live files e = Inr b" using 2(2) by (auto simp: rbind_eq_Inr)
  obtain off g where app: "append_buf f b = (Inr off, g)"
    using 2(2) b by (auto split: prod.splits sum.splits)
  note a = append_act_ok[OF app 2(3)] append_Inr[OF app 2(3)]
  let ?e = "index_entry_new i off (ie_record_size e) (ie_tstamp_ms e)"
  have rest: "copy_live files i live g (ftr @ [footer_entry_from_index k ?e t (value_hash_of b)])
      (ents @ [(k, ?e, t)]) (nb + ie_record_size e) = Inr (f', ftr', ents', nb')"
    using 2(2) b app by (simp add: Let_def)
  from 2(1)[OF app[symmetric] refl refl rest] a obtain new where
    n: "prefix (lf_data g) (lf_data f')" "act_ok f'" "ents' = (ents @ [(k, ?e, t)]) @ new"
      "list_all2 (copied files i (lf_data f')) live new"
    by auto
  have "copied files i (lf_data g) (k, e, t) (k, ?e, t)"
    using a b by (auto simp: copied_def subslice_append_eq[of _ _ _ _ "[]", simplified])
  then have "copied files i (lf_data f') (k, e, t) (k, ?e, t)" using n(1) by (rule copied_prefix)
  moreover have "prefix (lf_data f) (lf_data f')" using a n(1) by (metis append_prefixD)
  ultimately show ?case using n by (auto intro!: exI[of _ "(k, ?e, t) # new"])
qed

lemma fold_ix_insert:
  assumes "\<And>k e t. (k, e, t) \<in> set new \<Longrightarrow> t = ttl_of ix k" "distinct (map fst new)"
  defines "ix' \<equiv> fold (\<lambda>(k, e, t). ix_insert k e t) new ix"
  shows "ttl_of ix' k = ttl_of ix k" "valsep ix' k = valsep ix k"
    "ix_get ix' k = (case map_of new k of None \<Rightarrow> ix_get ix k | Some (e, t) \<Rightarrow> Some e)"
    "ix_inv ix \<Longrightarrow> ix_inv ix'"
proof -
  have "ttl_of ix' k = ttl_of ix k \<and> valsep ix' k = valsep ix k \<and>
      ix_get ix' k = (case map_of new k of None \<Rightarrow> ix_get ix k | Some (e, t) \<Rightarrow> Some e) \<and>
      (ix_inv ix \<longrightarrow> ix_inv ix')"
    using assms(1,2) unfolding ix'_def
  proof (induction new arbitrary: ix)
    case (Cons n new)
    obtain j e t where n: "n = (j, e, t)" by (cases n)
    have t: "t = ttl_of ix j" using Cons.prems(1)[of j e t] n by simp
    have ih: "t' = ttl_of (ix_insert j e t ix) k'" if "(k', e', t') \<in> set new" for k' e' t'
      using Cons.prems(1)[of k' e' t'] that t by simp
    have "map_of new j = None" using Cons.prems(2) n by (simp add: map_of_eq_None_iff)
    then show ?case using Cons.IH[OF ih] Cons.prems(2) n t by (auto split: option.splits)
  qed simp
  then show "ttl_of ix' k = ttl_of ix k" "valsep ix' k = valsep ix k"
    "ix_get ix' k = (case map_of new k of None \<Rightarrow> ix_get ix k | Some (e, t) \<Rightarrow> Some e)"
    "ix_inv ix \<Longrightarrow> ix_inv ix'" by auto
qed

lemma fold_delete_files:
  "om_lookup (fold (\<lambda>f. om_delete (lf_file_id f)) fs m) k = (if k \<in> lf_file_id ` set fs then None else om_lookup m k)"
  by (induction fs arbitrary: m) auto

lemma truncate_0: "truncate_to f 0 = Inr f' \<Longrightarrow> lf_data f' = [] \<and> lf_write_offset f' = 0"
  by (auto simp: truncate_to_def split: option.splits)

lemma reclaim_namespace_ok:
  assumes "reclaim_namespace w files i live dir = (Inr (report, new), dir')" "\<And>f. f \<in> set files \<Longrightarrow> lf_file_id f \<noteq> i"
  obtains data where "om_lookup dir' i = Some data" "list_all2 (copied files i data) live new"
    "\<And>j. j \<noteq> i \<Longrightarrow> om_lookup dir' j =
       (if j \<in> lf_file_id ` set files \<and> w_unlink w j then None else om_lookup dir j)"
proof -
  let ?dir = "\<lambda>data. fold (\<lambda>f. om_delete (lf_file_id f)) (filter (\<lambda>f. w_unlink w (lf_file_id f)) files) (om_insert i data dir)"
  obtain data nb where m: "write_merged w files i live = Inr (data, new, nb)" and d0: "dir' = ?dir data"
    using assms(1) by (auto simp: reclaim_namespace_def Let_def split: sum.splits)
  from m obtain f0 f1 f2 f3 ftr where t: "truncate_to f0 0 = Inr f1"
    and c: "copy_live files i live f1 [] [] 0 = Inr (f2, ftr, new, nb)"
    and w: "write_footer (w_crc w) f2 ftr = (Inr (), f3)" and "data = lf_data f3"
    by (auto simp: write_merged_def rbind_eq_Inr split: prod.splits) (metis surj_pair)
  then have d: "dir' = ?dir (lf_data f3)" using d0 by simp
  have "act_ok f1" using truncate_0[OF t] by (simp add: act_ok_def)
  note cc = copy_live_copied[OF c this]
  from cc have "prefix (lf_data f2) (lf_data f3)" using write_footer_act_ok[OF w] by simp
  moreover from cc have "list_all2 (copied files i (lf_data f2)) live new" by auto
  ultimately have "list_all2 (copied files i (lf_data f3)) live new"
    by (auto elim!: list_all2_mono dest: copied_prefix)
  moreover have "om_lookup dir' i = Some (lf_data f3)"
    using assms(2) by (auto simp: d fold_delete_files)
  moreover have "om_lookup dir' j = (if j \<in> lf_file_id ` set files \<and> w_unlink w j then None else om_lookup dir j)"
    if "j \<noteq> i" for j
    using that by (auto simp: d fold_delete_files)
  ultimately show thesis using that by blast
qed

lemma read_live_holds:
  assumes rel: "log_rel w A st" and holds: "entry_holds w st k e x"
    and rd: "read_live (List.map_filter (om_lookup (nl_sealed st)) ids) e = Inr b"
  obtains r where "b = enc_rec (w_crc w) r" "rec_fits r" "ie_record_size e = length b" "lr_key r = k"
    "lr_tstamp r = ie_tstamp_ms e" "lr_meta r = kv_meta x"
    "value_in w (nl_values st) (valsep (nl_index st) k) r (kv_value x)"
proof -
  let ?files = "List.map_filter (om_lookup (nl_sealed st)) ids"
  from rd obtain f where f: "List.find (\<lambda>f. lf_file_id f = ie_file_id e) ?files = Some f"
    and re: "read_exact f (ie_record_offset e) (ie_record_size e) = Inr b"
    by (auto simp: read_live_def split: option.splits)
  from f have id: "lf_file_id f = ie_file_id e" and "f \<in> set ?files"
    by (auto simp: find_Some_iff)
  then obtain j where "om_lookup (nl_sealed st) j = Some f" by (auto simp: List.map_filter_def)
  then have sealed: "om_lookup (nl_sealed st) (ie_file_id e) = Some f"
    using rel id by (auto simp: log_rel_def log_inv_def)
  from holds obtain g r where g: "locate_file st (ie_file_id e) = Some g" "rec_in (w_crc w) g (ie_record_offset e) r"
    "ie_record_size e = length (enc_rec (w_crc w) r)" "lr_key r = k" "lr_tstamp r = ie_tstamp_ms e"
    "lr_meta r = kv_meta x" "value_in w (nl_values st) (valsep (nl_index st) k) r (kv_value x)"
    unfolding entry_holds_def by blast
  have "g = f"
    using g(1) sealed rel by (auto simp: locate_file_def log_rel_def log_inv_def split: if_splits)
  then have "b = enc_rec (w_crc w) r" "rec_fits r"
    using g(2,3) re by (auto simp: rec_in_def read_exact_def Let_def split: option.splits if_splits)
  then show thesis using that g by simp
qed

text \<open>
  The step that opens a fresh active file needs every key of the old one to be reachable without it.
\<close>

definition active_covered :: "ns_log \<Rightarrow> bool" where
  "active_covered st \<longleftrightarrow>
     om_lookup (nl_sealed st) (lf_file_id (nl_active st)) \<noteq> None \<or>
     (\<forall>k e. ix_get (nl_index st) k = Some e \<longrightarrow> ie_file_id e \<noteq> lf_file_id (nl_active st))"

definition live_keys :: "ns_index \<Rightarrow> nat list \<Rightarrow> live_key list" where
  "live_keys ix ids =
     map (\<lambda>(k, e). (k, e, ttl_of ix k)) (filter (\<lambda>(k, e). ie_file_id e \<in> set ids) (entries (ix_map ix)))"

lemma live_keys_props:
  "distinct (map fst (live_keys ix ids))"
  "(k, e, t) \<in> set (live_keys ix ids) \<longleftrightarrow> ix_get ix k = Some e \<and> ie_file_id e \<in> set ids \<and> t = ttl_of ix k"
proof -
  have "map fst (live_keys ix ids) = map fst (filter (\<lambda>(k, e). ie_file_id e \<in> set ids) (entries (ix_map ix)))"
    by (simp add: live_keys_def case_prod_beta comp_def)
  then show "distinct (map fst (live_keys ix ids))"
    using asc_distinct[OF entries_asc[of "ix_map ix"]] by (simp add: distinct_map_filter)
  show "(k, e, t) \<in> set (live_keys ix ids) \<longleftrightarrow> ix_get ix k = Some e \<and> ie_file_id e \<in> set ids \<and> t = ttl_of ix k"
    by (auto simp: live_keys_def ix_get_def in_entries_iff)
qed

lemma list_all2_copied_keys:
  "list_all2 (copied files i data) live new \<Longrightarrow> map fst new = map fst live"
  by (induction rule: list_all2_induct) (auto simp: copied_def)

lemma copied_lookup:
  assumes "list_all2 (copied files i data) live new" "distinct (map fst live)"
  shows "map_of live k = None \<Longrightarrow> map_of new k = None"
    and "map_of live k = Some (e, t) \<Longrightarrow> \<exists>e'. map_of new k = Some (e', t) \<and> copied files i data (k, e, t) (k, e', t)"
  using assms
proof (induction rule: list_all2_induct)
  case (Cons l live n new)
  case 1
  then show ?case using Cons by (auto simp: copied_def split: prod.splits if_splits)
next
  case (Cons l live n new)
  case 2
  then show ?case using Cons by (auto simp: copied_def split: prod.splits if_splits)
qed simp_all

lemma open_ro_data: "open_ro env i dir = Inr f \<Longrightarrow> om_lookup dir i = Some data \<Longrightarrow> lf_data f = data \<and> lf_file_id f = i"
  by (auto simp: open_ro_def open_file_def split: option.splits)

lemma copied_fold_index:
  assumes c: "list_all2 (copied files i data) (live_keys ix ids) new"
  defines "ix' \<equiv> fold (\<lambda>(k, e, t). ix_insert k e t) new ix"
  shows "ttl_of ix' k = ttl_of ix k" "valsep ix' k = valsep ix k" "ix_inv ix \<Longrightarrow> ix_inv ix'"
    and "ix_get ix k = Some e \<Longrightarrow> ie_file_id e \<in> set ids \<Longrightarrow>
      \<exists>e'. ix_get ix' k = Some e' \<and> copied files i data (k, e, ttl_of ix k) (k, e', ttl_of ix k)"
    and "ix_get ix k = None \<Longrightarrow> ix_get ix' k = None"
    and "ix_get ix k = Some e \<Longrightarrow> ie_file_id e \<notin> set ids \<Longrightarrow> ix_get ix' k = Some e"
proof -
  note lk = live_keys_props[where ix = ix and ids = ids]
  have d: "distinct (map fst new)" using lk(1) list_all2_copied_keys[OF c] by simp
  note cl = copied_lookup[OF c lk(1)]
  have live: "map_of (live_keys ix ids) k = Some (e, t) \<longleftrightarrow> ix_get ix k = Some e \<and> ie_file_id e \<in> set ids \<and> t = ttl_of ix k"
    for k e t using lk by (simp add: map_of_eq_Some_iff)
  have t: "t = ttl_of ix k" if "(k, e, t) \<in> set new" for k e t
  proof -
    have n: "map_of new k = Some (e, t)" using that d by (simp add: map_of_eq_Some_iff)
    then obtain e0 t0 where p: "map_of (live_keys ix ids) k = Some (e0, t0)"
      using cl(1)[where k = k] by (cases "map_of (live_keys ix ids) k") auto
    show ?thesis using cl(2)[OF p] live[of k e0 t0] p n by auto
  qed
  note f = fold_ix_insert(1-3)[where k = k, OF t d, folded ix'_def] fold_ix_insert(4)[OF t d, folded ix'_def]
  show "ttl_of ix' k = ttl_of ix k" "valsep ix' k = valsep ix k" "ix_inv ix \<Longrightarrow> ix_inv ix'"
    using f by auto
  show "\<exists>e'. ix_get ix' k = Some e' \<and> copied files i data (k, e, ttl_of ix k) (k, e', ttl_of ix k)"
    if "ix_get ix k = Some e" "ie_file_id e \<in> set ids"
    using cl(2)[where k = k and e = e and t = "ttl_of ix k"] live that f(3) by auto
  have none: "map_of new k = None" if "\<And>e. ix_get ix k = Some e \<Longrightarrow> ie_file_id e \<notin> set ids"
    using cl(1)[where k = k] live that by (cases "map_of (live_keys ix ids) k") auto
  show "ix_get ix' k = None" if "ix_get ix k = None" using that none f(3) by simp
  show "ix_get ix' k = Some e" if "ix_get ix k = Some e" "ie_file_id e \<notin> set ids" using that none f(3) by simp
qed

lemma merge_commit:
  assumes rel: "log_rel w A st" and cov: "active_covered st"
    and fresh: "\<And>j. om_lookup (nl_sealed st) j \<noteq> None \<or> j = lf_file_id (nl_active st) \<Longrightarrow> j \<noteq> i"
    and c: "list_all2 (copied (List.map_filter (om_lookup (nl_sealed st)) ids) i (lf_data nf)) (live_keys (nl_index st) ids) new"
    and nf: "lf_file_id nf = i"
    and st': "nl_index st' = fold (\<lambda>(k, e, t). ix_insert k e t) new (nl_index st)"
      "nl_sealed st' = om_insert i nf (fold om_delete ids (nl_sealed st))"
      "nl_active st' = nl_active st" "nl_values st' = nl_values st" "nl_last_tstamp st' = nl_last_tstamp st"
  shows "log_rel w A st'" and "active_covered st'"
proof -
  note ix = copied_fold_index[OF c, folded st'(1)]
  have moved: "\<exists>e. ix_get (nl_index st) k = Some e \<and> ie_tstamp_ms e' = ie_tstamp_ms e \<and>
      (if ie_file_id e \<in> set ids then ie_file_id e' = i else e' = e)"
    if "ix_get (nl_index st') k = Some e'" for k e'
  proof (cases "ix_get (nl_index st) k")
    case None
    then show ?thesis using that ix(5)[of k] by simp
  next
    case (Some e)
    then show ?thesis
      using that ix(4)[OF Some] ix(6)[OF Some] by (auto simp: copied_def index_entry_new_def)
  qed
  have nr: "nrefs (nl_index st') h = nrefs (nl_index st) h" for h using ix(2) by (simp add: nrefs_def)
  have loc: "locate_file st' j = (if j = i then Some nf else if j \<in> set ids \<and> j \<noteq> lf_file_id (nl_active st) then None else locate_file st j)" for j
    using fresh by (auto simp: locate_file_def st' fold_om_delete)
  have kept: "ix_get (nl_index st') k \<noteq> None" if e: "ix_get (nl_index st) k = Some e" for k e
    using ix(4)[OF e] ix(6)[OF e] by (cases "ie_file_id e \<in> set ids") auto
  have L: "log_inv w st" using rel by (simp add: log_rel_def)
  have act_id: "lf_file_id (nl_active st) \<noteq> i" using fresh by blast
  have share: "g = nl_active st" if "om_lookup (nl_sealed st) (lf_file_id (nl_active st)) = Some g" for g
    using L that unfolding log_inv_def by blast
  have inv: "log_inv w st'"
    unfolding log_inv_def
  proof (intro conjI allI impI)
    show "ix_inv (nl_index st')" using L ix(3) by (simp add: log_inv_def)
    show "vs_inv (w_blake w) (nl_values st')" using L st' by (simp add: log_inv_def)
    show "nrefs (nl_index st') h \<le> refcount (nl_values st') h" for h using L st' nr by (simp add: log_inv_def)
    show "ix_get (nl_index st') k \<noteq> None" if "valsep (nl_index st') k \<noteq> None" for k
      using L that ix(2) kept by (auto simp: log_inv_def)
    show "ie_tstamp_ms e \<le> nl_last_tstamp st'" if "ix_get (nl_index st') k = Some e" for k e
      using L moved[OF that] st' by (auto simp: log_inv_def)
    show "lf_file_id f = j" if "om_lookup (nl_sealed st') j = Some f" for j f
      using L that nf by (auto simp: log_inv_def st' fold_om_delete split: if_splits)
    show "f = nl_active st'" if "om_lookup (nl_sealed st') (lf_file_id (nl_active st')) = Some f" for f
      using that act_id share by (auto simp: st'(2,3) fold_om_delete split: if_splits)
    show "act_ok (nl_active st')" using L st' by (simp add: log_inv_def)
  qed
  have "ie_file_id e \<noteq> i" if e: "ix_get (nl_index st) k = Some e" for k e
  proof -
    obtain x where "entry_holds w st k e x" using log_rel_Some[OF rel e] by blast
    then obtain f where "locate_file st (ie_file_id e) = Some f" by (auto simp: entry_holds_def)
    then show ?thesis using fresh by (auto simp: locate_file_def split: if_splits)
  qed note old_id = this
  show "active_covered st'"
  proof (cases "lf_file_id (nl_active st) \<in> set ids \<or> om_lookup (nl_sealed st) (lf_file_id (nl_active st)) = None")
    case True
    have "ie_file_id e' \<noteq> lf_file_id (nl_active st)" if e': "ix_get (nl_index st') k = Some e'" for k e'
      using moved[OF e'] True cov act_id by (auto simp: active_covered_def split: if_splits)
    then show ?thesis by (simp add: active_covered_def st'(3))
  next
    case False
    then show ?thesis using act_id by (simp add: active_covered_def st'(2,3) fold_om_delete)
  qed
  show "log_rel w A st'"
  proof (rule log_relI[OF inv])
    show "A k = None" if "ix_get (nl_index st') k = None" for k
      using that ix(4,6)[of k] log_rel_None[OF rel, of k] by (cases "ix_get (nl_index st) k") force+
    show "\<exists>x. A k = Some x \<and> entry_holds w st' k e' x" if e': "ix_get (nl_index st') k = Some e'" for k e'
    proof -
      obtain e where e: "ix_get (nl_index st) k = Some e" using moved[OF e'] by blast
      obtain x where x: "A k = Some x" "entry_holds w st k e x" using log_rel_Some[OF rel e] by blast
      have "entry_holds w st' k e' x"
      proof (cases "ie_file_id e \<in> set ids")
        case False
        then have "e' = e" using ix(6)[OF e] e' by simp
        then show ?thesis
          using False x(2) old_id[OF e]
          by (intro entry_holds_move[OF x(2)[folded \<open>e' = e\<close>]]) (auto simp: loc ix(1,2) st'(4))
      next
        case True
        then obtain b off where b: "read_live (List.map_filter (om_lookup (nl_sealed st)) ids) e = Inr b"
          "off + length b \<le> length (lf_data nf)" "subslice (lf_data nf) off (length b) = b"
          "e' = index_entry_new i off (ie_record_size e) (ie_tstamp_ms e)"
          using ix(4)[OF e] e' by (auto simp: copied_def)
        from rel x(2) b(1) obtain r where r: "b = enc_rec (w_crc w) r" "rec_fits r" "ie_record_size e = length b"
          "lr_key r = k" "lr_tstamp r = ie_tstamp_ms e" "lr_meta r = kv_meta x"
          "value_in w (nl_values st) (valsep (nl_index st) k) r (kv_value x)"
          by (rule read_live_holds)
        have "rec_in (w_crc w) nf off r" using b(2,3) r(1,2) by (simp add: rec_in_def)
        then show ?thesis
          using r b(4) x(2)
          by (intro entry_holdsI[where f = nf and r = r])
            (simp_all add: loc index_entry_new_def ix(1,2) st'(4) entry_holds_def)
      qed
      then show ?thesis using x by blast
    qed
  qed
qed

lemma merge_level_rel:
  assumes rel: "log_rel w A st" and nid: "next_file_id st = Inr i" and cov: "active_covered st"
    and m: "merge_level w lvl ids i st = (res, st')"
  shows "log_rel w A st'" and "res = Inr r \<Longrightarrow> active_covered st'"
proof -
  let ?files = "List.map_filter (om_lookup (nl_sealed st)) ids"
  obtain res1 dir' where rn: "reclaim_namespace w ?files i (live_keys (nl_index st) ids) (nl_dir st) = (res1, dir')"
    by force
  note m' = m[unfolded merge_level_def live_keys_def[symmetric] Let_def rn, simplified]
  have "log_rel w A st' \<and> (res = Inr r \<longrightarrow> active_covered st')"
  proof (cases res1)
    case (Inl e)
    then show ?thesis using m' rel by auto
  next
    case (Inr rp)
    then obtain report new where rp: "res1 = Inr (report, new)" by (cases rp) auto
    show ?thesis
    proof (cases "open_ro (w_env w) i dir'")
      case (Inl e)
      then show ?thesis using m' rp rel by auto
    next
      case (Inr nf)
      have i: "i = max_file_id st + 1" using nid by (auto simp: next_file_id_def split: if_splits)
      have fresh: "j \<noteq> i" if "om_lookup (nl_sealed st) j \<noteq> None \<or> j = lf_file_id (nl_active st)" for j
        using that i max_file_id_ge(1)[of st] max_file_id_ge(2)[of j st] by (auto simp: set_om_keys)
      have "lf_file_id f = j" if "om_lookup (nl_sealed st) j = Some f" for j f
        using rel that by (simp add: log_rel_def log_inv_def)
      moreover have "\<exists>j. om_lookup (nl_sealed st) j = Some f" if "f \<in> set ?files" for f
        using that by (auto simp: List.map_filter_def)
      ultimately have "lf_file_id f \<noteq> i" if "f \<in> set ?files" for f
        using that fresh by (metis option.discI)
      then obtain data where data: "om_lookup dir' i = Some data"
        "list_all2 (copied ?files i data) (live_keys (nl_index st) ids) new"
        using reclaim_namespace_ok[OF rn[unfolded rp]] by metis
      note nf = open_ro_data[OF Inr data(1)]
      show ?thesis
        using merge_commit[OF rel cov fresh, of ids nf new st'] data(2) nf m' rp Inr by auto
    qed
  qed
  then show "log_rel w A st'" "res = Inr r \<Longrightarrow> active_covered st'" by auto
qed

lemma reclaim_cascade_rel:
  assumes "reclaim_cascade w t st = (res, st')" "log_rel w A st" "active_covered st"
  shows "log_rel w A st' \<and> (\<forall>r. res = Inr r \<longrightarrow> active_covered st')"
  using assms
proof (induction w t st rule: reclaim_cascade.induct)
  case (1 w t st)
  show ?case
  proof (cases "pick_level st")
    case None
    then show ?thesis using 1(2-4) by (auto simp: reclaim_cascade.simps[of w t st])
  next
    case (Some lvl)
    show ?thesis
    proof (cases "next_file_id st")
      case (Inl e)
      then show ?thesis using Some 1(2-4) by (auto simp: reclaim_cascade.simps[of w t st])
    next
      case (Inr i)
      obtain r1 st1 where m: "merge_level w lvl (ids_at st lvl) i st = (r1, st1)" by force
      note mr = merge_level_rel[OF 1(3) Inr 1(4) m]
      show ?thesis
      proof (cases r1)
        case (Inl e)
        then show ?thesis using Some Inr m mr(1) 1(2) by (auto simp: reclaim_cascade.simps[of w t st])
      next
        case r: (Inr rep)
        then have "reclaim_cascade w (add_report t rep) st1 = (res, st')"
          using Some Inr m 1(2) by (simp add: reclaim_cascade.simps[of w t st])
        then show ?thesis using 1(1)[OF Some Inr m[symmetric] r _ mr(1) mr(2)[OF r]] by simp
      qed
    qed
  qed
qed

lemma reclaim_inner_rel:
  assumes rel: "log_rel w A st" and r: "reclaim_inner w st = (res, st')"
  shows "log_rel w A st'"
proof -
  obtain r1 f where ft: "write_footer (w_crc w) (nl_active st) (active_footer st) = (r1, f)" by force
  note a = log_rel_write_footer[OF rel ft]
  let ?st = "seal_into_sealed (set_active f st)"
  let ?zero = "\<lparr>rr_live_keys = 0, rr_live_bytes = 0, rr_dead_files_dropped = 0, rr_dead_files_leaked = 0, rr_new_file_id = 0\<rparr>"
  obtain r2 st2 where c: "reclaim_cascade w ?zero ?st = (r2, st2)" by force
  have cov: "active_covered ?st" by (simp add: active_covered_def)
  note cr = reclaim_cascade_rel[OF c log_rel_seal[OF a] cov]
  show ?thesis
  proof (cases "\<exists>u t i. r1 = Inr u \<and> r2 = Inr t \<and> next_file_id st2 = Inr i")
    case False
    then show ?thesis using r ft c a cr by (auto simp: reclaim_inner_def split: sum.splits)
  next
    case True
    then obtain u t i where i: "r1 = Inr u" "r2 = Inr t" "next_file_id st2 = Inr i" by blast
    obtain r3 st3 where o: "open_new_active w i st2 = (r3, st3)" by force
    have "log_rel w A st3"
      using log_rel_open_new[OF _ i(3) _ o] cr i(2) by (auto simp: active_covered_def)
    then show ?thesis using r ft c i o by (auto simp: reclaim_inner_def split: sum.splits)
  qed
qed

lemma reclaim_rel:
  assumes rel: "log_rel w A st" and r: "reclaim w st = (res, st')"
  shows "log_rel w A st'"
proof -
  obtain r1 st1 where i: "reclaim_inner w (st\<lparr>nl_reclaim_in_progress := True\<rparr>) = (r1, st1)" by force
  have "log_rel w A st1" using reclaim_inner_rel[OF _ i] rel by simp
  then show ?thesis using r i rel by (auto simp: reclaim_def split: if_splits)
qed

end
