(* ===== verification/Ns_History.thy ===== *)
theory Ns_History
  imports Ns_Compact
begin

text \<open>
  Histories of one namespace: sequences of the log's methods, with injected failures anywhere, against
  the abstract map. \<open>spec_step\<close> says which replies and which new maps an operation may have; the
  refinement shows that every history of the code is one of the specification.
\<close>

section \<open>Operations\<close>

datatype log_op =
    LPut u64 bytes bytes bytes "u64 option"
  | LPutCond u64 bytes bytes bytes "u64 option" write_condition u64
  | LDel u64 bytes
  | LDelCond u64 bytes u64 u64
  | LExpire u64 bytes "u64 option"
  | LFlush u64
  | LSync
  | LRotate
  | LReclaim
  | LSeal
  | LReopen

definition replied :: "('a \<Rightarrow> u64 option) \<Rightarrow> 'a eresult \<times> ns_log \<Rightarrow> u64 option eresult \<times> ns_log" where
  "replied g p = (map_sum (\<lambda>e. e) g (fst p), snd p)"

fun log_step :: "world \<Rightarrow> log_op \<Rightarrow> ns_log \<Rightarrow> u64 option eresult \<times> ns_log" where
  "log_step w (LPut clk k v m t) st = replied Some (put_full w clk k v m t st)"
| "log_step w (LPutCond clk k v m t c now) st = put_full_cond w clk k v m t c now st"
| "log_step w (LDel clk k) st = tombstone w clk k st"
| "log_step w (LDelCond clk k r now) st = tombstone_cond w clk k r now st"
| "log_step w (LExpire clk k t) st = replied Some (ttl_update w clk k t st)"
| "log_step w (LFlush clk) st = replied Some (flush w clk st)"
| "log_step w LSync st = replied (\<lambda>u. None) (sync_log w st)"
| "log_step w LRotate st = replied (\<lambda>u. None) (rotate_active w st)"
| "log_step w LReclaim st = replied (\<lambda>r. None) (reclaim w st)"
| "log_step w LSeal st = replied (\<lambda>u. None) (seal_active_for_shutdown w st)"
| "log_step w LReopen st = replied (\<lambda>u. None) (reopen_active_after_seal w st)"

fun log_run :: "world \<Rightarrow> log_op list \<Rightarrow> ns_log \<Rightarrow> u64 option eresult list \<times> ns_log" where
  "log_run w [] st = ([], st)"
| "log_run w (c # cs) st =
     (let (rp, st1) = log_step w c st; (rps, st2) = log_run w cs st1 in (rp # rps, st2))"

text \<open>
  What the environment must grant along a history: the 64-bit revision counter has not reached its last
  value, and a value to be stored does not collide with a different stored blob under the content hash.
\<close>

fun values_of :: "log_op \<Rightarrow> bytes list" where
  "values_of (LPut clk k v m t) = [v]"
| "values_of (LPutCond clk k v m t c now) = [v]"
| "values_of c = []"

fun run_ok :: "world \<Rightarrow> log_op list \<Rightarrow> ns_log \<Rightarrow> bool" where
  "run_ok w [] st \<longleftrightarrow> True"
| "run_ok w (c # cs) st \<longleftrightarrow>
     tstamp_room st \<and> list_all (\<lambda>v. no_collision w v st) (values_of c) \<and> run_ok w cs (snd (log_step w c st))"

section \<open>Specification\<close>

definition newer :: "u64 \<Rightarrow> kv_map \<Rightarrow> bool" where
  "newer r A \<longleftrightarrow> (\<forall>k x. A k = Some x \<longrightarrow> kv_rev x < r)"

fun maintenance :: "log_op \<Rightarrow> bool" where
  "maintenance LSync \<longleftrightarrow> True"
| "maintenance LRotate \<longleftrightarrow> True"
| "maintenance LReclaim \<longleftrightarrow> True"
| "maintenance LSeal \<longleftrightarrow> True"
| "maintenance LReopen \<longleftrightarrow> True"
| "maintenance c \<longleftrightarrow> False"

text \<open>
  The effect an operation has when it takes place with revision \<open>r\<close>; \<open>None\<close> when it must not.
\<close>

fun effect :: "log_op \<Rightarrow> u64 \<Rightarrow> kv_map \<Rightarrow> kv_map option" where
  "effect (LPut clk k v m t) r A = Some (spec_put k v m t r A)"
| "effect (LPutCond clk k v m t c now) r A =
     (if check_cond c (spec_live A k now) then Some (spec_put k v m t r A) else None)"
| "effect (LDel clk k) r A = (if A k = None then None else Some (spec_del k A))"
| "effect (LDelCond clk k r' now) r A = (if spec_live A k now = Some r' then Some (spec_del k A) else None)"
| "effect (LExpire clk k t) r A = Some (spec_expire k t A)"
| "effect (LFlush clk) r A = Some (\<lambda>k. None)"
| "effect c r A = None"

inductive spec_step :: "log_op \<Rightarrow> u64 option eresult \<Rightarrow> kv_map \<Rightarrow> kv_map \<Rightarrow> bool" where
  took: "effect c r A = Some A' \<Longrightarrow> newer r A \<Longrightarrow> spec_step c (Inr (Some r)) A A'"
| refused: "(\<And>r. effect c r A = None) \<Longrightarrow> spec_step c (Inr None) A A"
| failed: "spec_step c (Inl e) A A"
| failed_late: "effect c r A = Some A' \<Longrightarrow> newer r A \<Longrightarrow> spec_step c (Inl e) A A'"

inductive spec_run :: "log_op list \<Rightarrow> u64 option eresult list \<Rightarrow> kv_map \<Rightarrow> kv_map \<Rightarrow> bool" where
  nil: "spec_run [] [] A A"
| step: "spec_step c rp A A1 \<Longrightarrow> spec_run cs rps A1 A2 \<Longrightarrow> spec_run (c # cs) (rp # rps) A A2"

inductive_simps spec_run_Nil [simp]: "spec_run [] rps A A'"
inductive_simps spec_run_Cons: "spec_run (c # cs) rps A A'"

section \<open>Each operation is a step of the specification\<close>

lemma newer_next:
  assumes rel: "log_rel w A st" and room: "tstamp_room st"
  shows "newer (fst (next_tstamp clk st)) A"
proof -
  obtain t st1 where n: "next_tstamp clk st = (t, st1)" by fastforce
  have "kv_rev x < t" if a: "A k = Some x" for k x
  proof -
    obtain e where e: "ix_get (nl_index st) k = Some e" using log_rel_None[OF rel, of k] a by auto
    then have "kv_rev x = ie_tstamp_ms e" using log_rel_Some[OF rel e] a by (auto simp: entry_holds_def)
    moreover have "ie_tstamp_ms e \<le> nl_last_tstamp st" using rel e by (auto simp: log_rel_def log_inv_def)
    ultimately show ?thesis using next_tstamp_mono(1)[OF n room] by (metis order_le_less_trans)
  qed
  then show ?thesis using n by (simp add: newer_def)
qed

lemma put_step:
  assumes rel: "log_rel w A st" and room: "tstamp_room st" and coll: "no_collision w v st"
    and put: "put_full w clk k v m t st = (res, st')"
  shows "\<exists>A'. spec_step (LPut clk k v m t) (map_sum (\<lambda>e. e) Some res) A A' \<and> log_rel w A' st'"
  using rel room coll put
proof (cases rule: put_full_cases)
  case (written ts)
  then have "spec_step (LPut clk k v m t) (map_sum (\<lambda>e. e) Some res) A (spec_put k v m t ts A)"
    using newer_next[OF rel room, of clk] by (cases res) (auto intro: spec_step.intros)
  then show ?thesis using written by blast
next
  case (failed e)
  then show ?thesis by (intro exI[of _ A]) (auto intro: spec_step.failed)
qed

lemma put_cond_step:
  assumes rel: "log_rel w A st" and room: "tstamp_room st" and coll: "no_collision w v st"
    and put: "put_full_cond w clk k v m t c now st = (res, st')"
  shows "\<exists>A'. spec_step (LPutCond clk k v m t c now) res A A' \<and> log_rel w A' st'"
  using rel room coll put
proof (cases rule: put_full_cond_cases)
  case (written ts)
  then have "spec_step (LPutCond clk k v m t c now) res A (spec_put k v m t ts A)"
    using newer_next[OF rel room, of clk] by (cases res) (auto intro: spec_step.intros)
  then show ?thesis using written by blast
next
  case refused
  then show ?thesis by (intro exI[of _ A]) (auto intro: spec_step.refused)
next
  case (failed e)
  then show ?thesis by (intro exI[of _ A]) (auto intro: spec_step.failed)
qed

lemma del_step:
  assumes rel: "log_rel w A st" and room: "tstamp_room st" and del: "tombstone w clk k st = (res, st')"
  shows "\<exists>A'. spec_step (LDel clk k) res A A' \<and> log_rel w A' st'"
proof -
  note t = tombstone_rel[OF rel room del]
  let ?A = "if nl_frozen st then A else spec_del k A"
  have same: "spec_del k A = A" if "A k = None" using that by (auto simp: spec_del_def)
  have "spec_step (LDel clk k) res A ?A"
  proof (cases res)
    case (Inl e)
    then show ?thesis using newer_next[OF rel room, of clk] same
      by (cases "A k = None") (auto intro: spec_step.failed spec_step.failed_late)
  next
    case (Inr x)
    then show ?thesis using t(2)[OF Inr] t(3) same newer_next[OF rel room, of clk]
      by (cases "A k = None") (auto intro: spec_step.refused spec_step.took)
  qed
  then show ?thesis using t(1) by blast
qed

lemma del_cond_step:
  assumes rel: "log_rel w A st" and room: "tstamp_room st" and del: "tombstone_cond w clk k r now st = (res, st')"
  shows "\<exists>A'. spec_step (LDelCond clk k r now) res A A' \<and> log_rel w A' st'"
proof -
  note t = tombstone_cond_rel[OF rel room del]
  let ?A = "if \<not> nl_frozen st \<and> spec_live A k now = Some r then spec_del k A else A"
  have fz: "res = Inl Frozen" if "nl_frozen st"
    using del that by (simp add: tombstone_cond_def guarded_def begin_write_def)
  have "spec_step (LDelCond clk k r now) res A ?A"
  proof (cases res)
    case (Inl e)
    then show ?thesis using newer_next[OF rel room, of clk]
      by (auto intro: spec_step.failed spec_step.failed_late)
  next
    case (Inr x)
    then show ?thesis using t(2)[OF Inr] fz newer_next[OF rel room, of clk]
      by (auto intro: spec_step.refused spec_step.took)
  qed
  then show ?thesis using t(1) by blast
qed

lemma expire_step:
  assumes rel: "log_rel w A st" and room: "tstamp_room st" and upd: "ttl_update w clk k t st = (res, st')"
  shows "\<exists>A'. spec_step (LExpire clk k t) (map_sum (\<lambda>e. e) Some res) A A' \<and> log_rel w A' st'"
  using rel room upd
proof (cases rule: ttl_update_cases)
  case (written ts)
  then have "spec_step (LExpire clk k t) (map_sum (\<lambda>e. e) Some res) A (spec_expire k t A)"
    using newer_next[OF rel room, of clk] by (auto intro: spec_step.intros)
  then show ?thesis using written by blast
next
  case (failed e)
  then show ?thesis by (intro exI[of _ A]) (auto intro: spec_step.failed)
qed

lemma flush_step:
  assumes rel: "log_rel w A st" and room: "tstamp_room st" and fl: "flush w clk st = (res, st')"
  shows "\<exists>A'. spec_step (LFlush clk) (map_sum (\<lambda>e. e) Some res) A A' \<and> log_rel w A' st'"
proof (cases "nl_reclaim_in_progress st")
  case True
  then show ?thesis using rel fl by (intro exI[of _ A]) (auto simp: flush_def intro: spec_step.failed)
next
  case False
  note f = flush_rel[OF rel room False fl]
  have "spec_step (LFlush clk) (map_sum (\<lambda>e. e) Some res) A (\<lambda>k. None)"
    using newer_next[OF rel room, of clk] f(2) by (cases res) (auto intro: spec_step.intros)
  then show ?thesis using f(1) by blast
qed

lemma maintenance_step:
  assumes c: "maintenance c" and rel: "log_rel w A (snd p)"
  shows "\<exists>A'. spec_step c (fst (replied (\<lambda>u. None) p)) A A' \<and> log_rel w A' (snd (replied (\<lambda>u. None) p))"
proof -
  have "effect c r A = None" for r using c by (cases c) auto
  then have "spec_step c (fst (replied (\<lambda>u. None) p)) A A"
    by (cases "fst p") (auto simp: replied_def intro: spec_step.failed spec_step.refused)
  then show ?thesis using rel by (auto simp: replied_def)
qed

lemma maintenance_rel:
  assumes "log_rel w A st"
  shows "log_rel w A (snd (sync_log w st))" "log_rel w A (snd (rotate_active w st))"
    "log_rel w A (snd (reclaim w st))" "log_rel w A (snd (seal_active_for_shutdown w st))"
    "log_rel w A (snd (reopen_active_after_seal w st))"
  using assms sync_log_rel log_rel_rotate reclaim_rel seal_active_for_shutdown_rel reopen_active_after_seal_rel
  by (metis prod.collapse)+

lemma log_step_refines:
  assumes rel: "log_rel w A st" and room: "tstamp_room st"
    and coll: "list_all (\<lambda>v. no_collision w v st) (values_of c)"
  shows "\<exists>A'. spec_step c (fst (log_step w c st)) A A' \<and> log_rel w A' (snd (log_step w c st))"
proof (cases c)
  case (LPut clk k v m t)
  then show ?thesis using put_step[OF rel room _ surjective_pairing] coll by (simp add: replied_def)
next
  case (LPutCond clk k v m t cd now)
  then show ?thesis using put_cond_step[OF rel room _ surjective_pairing] coll by simp
next
  case (LDel clk k)
  then show ?thesis using del_step[OF rel room surjective_pairing] by simp
next
  case (LDelCond clk k r now)
  then show ?thesis using del_cond_step[OF rel room surjective_pairing] by simp
next
  case (LExpire clk k t)
  then show ?thesis using expire_step[OF rel room surjective_pairing] by (simp add: replied_def)
next
  case (LFlush clk)
  then show ?thesis using flush_step[OF rel room surjective_pairing] by (simp add: replied_def)
qed (use maintenance_rel[OF rel] in \<open>simp_all add: maintenance_step\<close>)

lemma log_run_refines:
  assumes "log_rel w A st" "run_ok w cs st"
  shows "\<exists>A'. spec_run cs (fst (log_run w cs st)) A A' \<and> log_rel w A' (snd (log_run w cs st))"
  using assms
proof (induction cs arbitrary: A st)
  case Nil
  then show ?case by (auto intro: spec_run.nil)
next
  case (Cons c cs)
  from Cons.prems obtain A1 where A1: "spec_step c (fst (log_step w c st)) A A1" "log_rel w A1 (snd (log_step w c st))"
    using log_step_refines[of w A st c] by auto
  from Cons.IH[OF A1(2)] Cons.prems(2) obtain A2 where
      "spec_run cs (fst (log_run w cs (snd (log_step w c st)))) A1 A2" "log_rel w A2 (snd (log_run w cs (snd (log_step w c st))))"
    by auto
  then show ?case using A1(1) by (auto simp: case_prod_beta Let_def intro: spec_run.step)
qed

section \<open>A fresh namespace\<close>

lemma open_empty_rel:
  assumes "open_log w cfg om_empty blobs = (Inr st, dir)"
  shows "log_rel w (\<lambda>k. None) st"
proof -
  have e: "om_keys (om_empty :: data_dir) = []" "entries (ix_valsep ix_new) = []"
    by (simp_all add: om_keys_def ix_new_def)
  obtain f where f: "open_file 0 (fs_dev (w_env w) 0) [] = Inr f" "nl_active st = f"
    and st: "nl_index st = ix_new" "nl_sealed st = om_empty"
      "nl_values st = snd (sweep_orphans (w_blob_list w) (w_blob_rm w) (vs_new blobs))"
    using assms by (auto simp: open_log_def open_namespace_def open_rw_def e Let_def split: option.splits sum.splits)
  have "act_ok f" using f(1) by (auto simp: open_file_def act_ok_def split: option.splits)
  moreover have "valsep ix_new k = None" "ix_get ix_new k = None" for k
    by (simp_all add: valsep_def ix_get_def ix_new_def)
  ultimately show ?thesis using f st
    by (intro log_relI) (simp_all add: log_inv_def nrefs_def)
qed

text \<open>No read of a record or of a blob meets an I/O error.\<close>

definition readable :: "world \<Rightarrow> ns_log \<Rightarrow> bool" where
  "readable w st \<longleftrightarrow>
     (\<forall>h. w_blob_read w h = None) \<and> (\<forall>k e. ix_get (nl_index st) k = Some e \<longrightarrow> reads_at w st e)"

text \<open>What a caller sees of a state that represents the map \<open>A\<close>: every key of the map, and nothing else, can be read.\<close>

lemma log_rel_read:
  assumes "log_rel w A st" "hash_ok w" "readable w st"
  shows "(case ix_get (nl_index st) k of
            None \<Rightarrow> A k = None
          | Some e \<Rightarrow> (\<exists>v m. read_value w st e = Inr (v, m) \<and>
              A k = Some \<lparr>kv_value = v, kv_meta = m, kv_ttl = ttl_of (nl_index st) k, kv_rev = ie_tstamp_ms e\<rparr>))"
proof (cases "ix_get (nl_index st) k")
  case None
  then show ?thesis using log_rel_None[OF assms(1), of k] by simp
next
  case (Some e)
  then obtain x where x: "A k = Some x" "entry_holds w st k e x" using log_rel_Some[OF assms(1)] by blast
  then have "read_value w st e = Inr (kv_value x, kv_meta x)"
    using read_value_holds[OF x(2) _ assms(2)] assms(3) Some by (auto simp: readable_def)
  moreover have "kv_ttl x = ttl_of (nl_index st) k" "kv_rev x = ie_tstamp_ms e" using x(2) by (simp_all add: entry_holds_def)
  ultimately show ?thesis using Some x(1) by (cases x) auto
qed

section \<open>Revisions\<close>

definition revs :: "u64 option eresult list \<Rightarrow> u64 list" where
  "revs rps = List.map_filter (\<lambda>rp. case rp of Inr (Some r) \<Rightarrow> Some r | _ \<Rightarrow> None) rps"

text \<open>A method draws at most one revision, above all earlier ones, and answers with no other.\<close>

definition stamped :: "u64 option eresult \<Rightarrow> ns_log \<Rightarrow> ns_log \<Rightarrow> bool" where
  "stamped rp st st' \<longleftrightarrow>
     nl_last_tstamp st \<le> nl_last_tstamp st' \<and>
     (\<forall>r. rp = Inr (Some r) \<longrightarrow> nl_last_tstamp st < r \<and> r = nl_last_tstamp st')"

lemma last_tstamp_simps [simp]:
  "nl_last_tstamp (set_active f st) = nl_last_tstamp st"
  "nl_last_tstamp (with_values g st) = nl_last_tstamp st"
  "nl_last_tstamp (with_index h st) = nl_last_tstamp st"
  "nl_last_tstamp (unref_opt x st) = nl_last_tstamp st"
  "nl_last_tstamp (add_unsynced n st) = nl_last_tstamp st"
  "nl_last_tstamp (seal_into_sealed st) = nl_last_tstamp st"
  by (auto simp: set_active_def with_values_def with_index_def unref_opt_def add_unsynced_def seal_into_sealed_def
      split: option.split)

lemma last_tstamp_frames:
  "nl_last_tstamp (snd (open_new_active w i st)) = nl_last_tstamp st"
  "nl_last_tstamp (snd (append_active buf st)) = nl_last_tstamp st"
  "nl_last_tstamp (snd (maybe_separate w v fl st)) = nl_last_tstamp st"
  "nl_last_tstamp (snd (apply_valsep_insert k e t h st)) = nl_last_tstamp st"
  by (auto simp: open_new_active_def append_active_def maybe_separate_def apply_valsep_insert_def
      split: prod.splits sum.splits)

lemma rotate_inner_last: "nl_last_tstamp (snd (rotate_active_inner w st)) = nl_last_tstamp st"
  by (auto simp: rotate_active_inner_def Let_def last_tstamp_frames split: prod.splits sum.splits)

lemma rotate_last: "nl_last_tstamp (snd (rotate_active w st)) = nl_last_tstamp st"
  using rotate_inner_last[of w "st\<lparr>nl_rotate_in_progress := True\<rparr>"]
  by (simp add: rotate_active_def case_prod_beta Let_def)

lemma maybe_rotate_last:
  "nl_last_tstamp (snd (maybe_rotate w r st)) = nl_last_tstamp st"
  "fst (maybe_rotate w r st) = Inr x \<Longrightarrow> x = r"
  using rotate_last[of w st] by (cases "rotate_active w st"; auto simp: maybe_rotate_def split: sum.splits if_splits)+

lemma write_record_last:
  assumes "write_record w clk k v m t st = (res, st')"
  shows "nl_last_tstamp st' = fst (next_tstamp clk st)" "res = Inr r \<Longrightarrow> r = fst (next_tstamp clk st)"
proof -
  obtain ts st1 where n: "next_tstamp clk st = (ts, st1)" by fastforce
  have t1: "nl_last_tstamp st1 = ts" using n by (auto simp: next_tstamp_def Let_def)
  obtain fl ex where fe: "expiry_fields t = (fl, ex)" by fastforce
  obtain r2 st2 where sep: "maybe_separate w v fl st1 = (r2, st2)" by fastforce
  have t2: "nl_last_tstamp st2 = ts" using t1 last_tstamp_frames(3)[of w v fl st1] sep by simp
  have ap: "nl_last_tstamp st3 = ts" if "append_active buf st2 = (r3, st3)" for buf r3 st3
    using t2 last_tstamp_frames(2)[of buf st2] that by simp
  have mr: "nl_last_tstamp s' = nl_last_tstamp s \<and> (\<forall>y. x = Inr y \<longrightarrow> y = z)" if "maybe_rotate w z s = (x, s')"
    for z :: u64 and s x s' using maybe_rotate_last[of w z s] that by auto
  have "nl_last_tstamp st' = ts \<and> (res = Inr r \<longrightarrow> r = ts)"
    using assms t2
    by (auto simp: write_record_def n fe sep Let_def apply_valsep_insert_def dest!: ap mr split: sum.splits prod.splits)
  then show "nl_last_tstamp st' = fst (next_tstamp clk st)" "res = Inr r \<Longrightarrow> r = fst (next_tstamp clk st)"
    using n by auto
qed

lemma stamped_refl: "(\<And>r. rp \<noteq> Inr (Some r)) \<Longrightarrow> nl_last_tstamp st' = nl_last_tstamp st \<Longrightarrow> stamped rp st st'"
  by (simp add: stamped_def)

lemma stamped_next:
  assumes "tstamp_room st" "nl_last_tstamp st' = fst (next_tstamp clk st)"
    "\<And>r. rp = Inr (Some r) \<Longrightarrow> r = fst (next_tstamp clk st)"
  shows "stamped rp st st'"
proof -
  have "nl_last_tstamp st < fst (next_tstamp clk st)" using next_tstamp_mono(1)[OF surjective_pairing assms(1)] .
  then show ?thesis using assms(2,3) by (auto simp: stamped_def)
qed

lemma stamped_guarded:
  assumes "\<And>s. tstamp_room s \<Longrightarrow> stamped (map_sum (\<lambda>e. e) g (fst (body s))) s (snd (body s))" "tstamp_room st"
  shows "stamped (map_sum (\<lambda>e. e) g (fst (guarded body st))) st (snd (guarded body st))"
  using assms(1)[of "st\<lparr>nl_in_flight_writes := nl_in_flight_writes st + 1\<rparr>"] assms(2)
  by (auto simp: guarded_def begin_write_def stamped_def tstamp_room_def case_prod_beta Let_def split: sum.splits)

lemma put_stamped:
  assumes "tstamp_room st"
  shows "stamped (map_sum (\<lambda>e. e) Some (fst (put_full w clk k v m t st))) st (snd (put_full w clk k v m t st))"
  unfolding put_full_def
proof (rule stamped_guarded[OF _ assms])
  fix s :: ns_log
  assume "tstamp_room s"
  then show "stamped (map_sum (\<lambda>e. e) Some (fst (write_record w clk k v m t s))) s (snd (write_record w clk k v m t s))"
    using write_record_last[OF surjective_pairing, of w clk k v m t s]
    by (intro stamped_next[where clk = clk]) (cases "fst (write_record w clk k v m t s)"; auto)+
qed

lemma put_cond_stamped:
  assumes "tstamp_room st"
  shows "stamped (fst (put_full_cond w clk k v m t c now st)) st (snd (put_full_cond w clk k v m t c now st))"
proof -
  let ?body = "\<lambda>st. if \<not> check_cond c (live_rev (nl_index st) k now) then (Inr None, st)
       else (case write_record w clk k v m t st of (Inl e, st1) \<Rightarrow> (Inl e, st1) | (Inr tstamp, st1) \<Rightarrow> (Inr (Some tstamp), st1))"
  have "stamped (map_sum (\<lambda>e. e) (\<lambda>r. r) (fst (?body s))) s (snd (?body s))" if r: "tstamp_room s" for s
  proof (cases "check_cond c (live_rev (nl_index s) k now)")
    case True
    then show ?thesis using r write_record_last[OF surjective_pairing, of w clk k v m t s]
      by (intro stamped_next[where clk = clk])
        (cases "write_record w clk k v m t s"; cases "fst (write_record w clk k v m t s)"; auto)+
  qed (simp add: stamped_def)
  from stamped_guarded[OF this assms] show ?thesis
    unfolding put_full_cond_def map_sum.identity[unfolded id_def] by simp
qed

lemma append_tombstone_last:
  "nl_last_tstamp (snd (append_tombstone w clk k h st)) = fst (next_tstamp clk st)"
  "fst (append_tombstone w clk k h st) = Inr (Some r) \<Longrightarrow> r = fst (next_tstamp clk st)"
proof -
  obtain ts st1 where n: "next_tstamp clk st = (ts, st1)" by fastforce
  have t1: "nl_last_tstamp st1 = ts" using n by (auto simp: next_tstamp_def Let_def)
  have ap: "nl_last_tstamp s = ts" if "append_active buf st1 = (x, s)" for buf x s
    using t1 last_tstamp_frames(2)[of buf st1] that by simp
  show "nl_last_tstamp (snd (append_tombstone w clk k h st)) = fst (next_tstamp clk st)"
    "fst (append_tombstone w clk k h st) = Inr (Some r) \<Longrightarrow> r = fst (next_tstamp clk st)"
    using t1 by (auto simp: append_tombstone_def n dest: ap split: sum.splits prod.splits)
qed

lemma del_stamped:
  assumes "tstamp_room st"
  shows "stamped (fst (tombstone w clk k st)) st (snd (tombstone w clk k st))"
proof -
  let ?body = "\<lambda>st. let h = valsep (nl_index st) k; (removed, ix) = ix_remove k (nl_index st); st1 = st\<lparr>nl_index := ix\<rparr>
       in if removed = None then (Inr None, st1) else append_tombstone w clk k h st1"
  have "stamped (map_sum (\<lambda>e. e) (\<lambda>r. r) (fst (?body s))) s (snd (?body s))" if r: "tstamp_room s" for s
  proof -
    obtain rem ix where ir: "ix_remove k (nl_index s) = (rem, ix)" by fastforce
    have n: "fst (next_tstamp clk (s\<lparr>nl_index := ix\<rparr>)) = fst (next_tstamp clk s)"
      by (simp add: next_tstamp_def Let_def)
    show ?thesis
      using r append_tombstone_last[of w clk k "valsep (nl_index s) k" "s\<lparr>nl_index := ix\<rparr>"] n
      by (cases "rem = None") (auto simp: ir Let_def map_sum.identity[unfolded id_def] stamped_def[of "Inr None"]
          intro!: stamped_next[where clk = clk])
  qed
  from stamped_guarded[OF this assms] show ?thesis
    unfolding tombstone_def map_sum.identity[unfolded id_def] by simp
qed

lemma del_cond_stamped:
  assumes "tstamp_room st"
  shows "stamped (fst (tombstone_cond w clk k rv now st)) st (snd (tombstone_cond w clk k rv now st))"
proof -
  let ?body = "\<lambda>st. if live_rev (nl_index st) k now \<noteq> Some rv then (Inr None, st)
       else append_tombstone w clk k (valsep (nl_index st) k) (with_index (\<lambda>ix. snd (ix_remove k ix)) st)"
  have "stamped (map_sum (\<lambda>e. e) (\<lambda>r. r) (fst (?body s))) s (snd (?body s))" if r: "tstamp_room s" for s
  proof -
    let ?s = "with_index (\<lambda>ix. snd (ix_remove k ix)) s"
    have n: "fst (next_tstamp clk ?s) = fst (next_tstamp clk s)" by (simp add: next_tstamp_def Let_def)
    show ?thesis
      using r append_tombstone_last[of w clk k "valsep (nl_index s) k" ?s] n
      by (cases "live_rev (nl_index s) k now = Some rv") (auto simp: map_sum.identity[unfolded id_def] stamped_def[of "Inr None"]
          intro!: stamped_next[where clk = clk])
  qed
  from stamped_guarded[OF this assms] show ?thesis
    unfolding tombstone_cond_def map_sum.identity[unfolded id_def] by simp
qed

lemma expire_stamped:
  assumes "tstamp_room st"
  shows "stamped (map_sum (\<lambda>e. e) Some (fst (ttl_update w clk k t st))) st (snd (ttl_update w clk k t st))"
  unfolding ttl_update_def
proof (rule stamped_guarded[OF _ assms])
  fix s :: ns_log
  assume room: "tstamp_room s"
  obtain ts st1 where n: "next_tstamp clk s = (ts, st1)" by fastforce
  have t1: "nl_last_tstamp st1 = ts" using n by (auto simp: next_tstamp_def Let_def)
  have ap: "nl_last_tstamp s' = ts" if "append_active buf st1 = (x, s')" for buf x s'
    using t1 last_tstamp_frames(2)[of buf st1] that by simp
  let ?b = "let (tstamp, st1) = next_tstamp clk s;
         (flags, exp) = (case t of Some ms \<Rightarrow> (TTL_UPDATE, ms) | None \<Rightarrow> (TTL_UPDATE OR NO_EXPIRY, 0))
       in case encode_into (w_crc w) [] tstamp flags exp k [] [] of
            Inl e \<Rightarrow> (Inl e, st1)
          | Inr buf \<Rightarrow>
              (case append_active buf st1 of
                 (Inl e, st2) \<Rightarrow> (Inl e, st2)
               | (Inr off, st2) \<Rightarrow> (Inr tstamp, with_index (set_ttl k t) (add_unsynced (length buf) st2)))"
  show "stamped (map_sum (\<lambda>e. e) Some (fst ?b)) s (snd ?b)"
    using room t1
    by (intro stamped_next[where clk = clk])
      (auto simp: n Let_def dest: ap split: sum.splits prod.splits option.splits)
qed

lemma flush_stamped:
  assumes "tstamp_room st"
  shows "stamped (map_sum (\<lambda>e. e) Some (fst (flush w clk st))) st (snd (flush w clk st))"
proof (cases "nl_reclaim_in_progress st")
  case True
  then show ?thesis by (simp add: flush_def stamped_def)
next
  case False
  let ?s = "st\<lparr>nl_reclaim_in_progress := True\<rparr>"
  obtain ts st1 where n: "next_tstamp clk ?s = (ts, st1)" by fastforce
  have t: "nl_last_tstamp st1 = ts" "fst (next_tstamp clk st) = ts" using n by (auto simp: next_tstamp_def Let_def)
  have "nl_last_tstamp (snd (flush_inner w st1)) = ts"
    using t(1) by (auto simp: flush_inner_def Let_def last_tstamp_frames split: option.split)
  then show ?thesis using assms False n t
    by (intro stamped_next[where clk = clk]) (cases "fst (flush_inner w st1)"; auto simp: flush_def Let_def case_prod_beta)+
qed

lemma reclaim_cascade_last: "nl_last_tstamp (snd (reclaim_cascade w t st)) = nl_last_tstamp st"
proof (induction w t st rule: reclaim_cascade.induct)
  case (1 w t st)
  have "nl_last_tstamp (snd (merge_level w lvl ids i st)) = nl_last_tstamp st" for lvl ids i
    by (auto simp: merge_level_def Let_def split: prod.splits sum.splits)
  then show ?case using 1
    by (subst reclaim_cascade.simps) (auto split: option.split sum.split prod.split, (metis snd_conv)+)
qed

lemma reclaim_last: "nl_last_tstamp (snd (reclaim w st)) = nl_last_tstamp st"
  using reclaim_cascade_last
  by (auto simp: reclaim_def reclaim_inner_def Let_def case_prod_beta last_tstamp_frames split: prod.splits sum.splits)

lemma maintenance_last:
  "nl_last_tstamp (snd (sync_log w st)) = nl_last_tstamp st"
  "nl_last_tstamp (snd (seal_active_for_shutdown w st)) = nl_last_tstamp st"
  "nl_last_tstamp (snd (reopen_active_after_seal w st)) = nl_last_tstamp st"
  by (auto simp: sync_log_def seal_active_for_shutdown_def reopen_active_after_seal_def Let_def case_prod_beta
      last_tstamp_frames split: sum.split)

lemma stamped_replied: "nl_last_tstamp (snd p) = nl_last_tstamp st \<Longrightarrow>
  stamped (fst (replied (\<lambda>u. None) p)) st (snd (replied (\<lambda>u. None) p))"
  by (cases "fst p") (auto simp: replied_def stamped_def)

lemma log_step_stamped: "tstamp_room st \<Longrightarrow> stamped (fst (log_step w c st)) st (snd (log_step w c st))"
  using put_stamped put_cond_stamped del_stamped del_cond_stamped expire_stamped flush_stamped
  by (cases c) (simp_all add: stamped_replied maintenance_last rotate_last reclaim_last, simp_all add: replied_def)

lemma log_run_revs:
  "run_ok w cs st \<Longrightarrow> sorted_wrt (<) (nl_last_tstamp st # revs (fst (log_run w cs st)))"
proof (induction cs arbitrary: st)
  case (Cons c cs)
  let ?s = "snd (log_step w c st)"
  have s: "stamped (fst (log_step w c st)) st ?s" using Cons.prems log_step_stamped by simp
  have ih: "sorted_wrt (<) (nl_last_tstamp ?s # revs (fst (log_run w cs ?s)))" using Cons by simp
  have eq: "revs (fst (log_run w (c # cs) st)) =
      (case fst (log_step w c st) of Inr (Some r) \<Rightarrow> r # revs (fst (log_run w cs ?s)) | _ \<Rightarrow> revs (fst (log_run w cs ?s)))"
    by (auto simp: revs_def map_filter_simps Let_def case_prod_beta split: sum.split option.split)
  show ?case using s ih unfolding eq
    by (auto simp: stamped_def split: sum.split option.split)
qed (simp add: revs_def map_filter_simps)

section \<open>A concrete world\<close>

text \<open>A healthy disk, a constant checksum and a hash that pads short values: enough to run histories.\<close>

definition demo_world :: world where
  "demo_world = \<lparr>w_crc = (\<lambda>b. 0), w_blake = (\<lambda>b. take 32 (b @ replicate 32 0)), w_env = healthy_env,
     w_blob_write = (\<lambda>h. BlobOk), w_blob_read = (\<lambda>h. None), w_blob_rm = (\<lambda>h. True), w_blob_list = True,
     w_unlink = (\<lambda>i. True), w_tmp_open_err = (\<lambda>i. None), w_tmp_dev = (\<lambda>i. healthy_device), w_tmp_stale = (\<lambda>i. []),
     w_rename_err = (\<lambda>i. None), w_test_seal_fail = False\<rparr>"

definition demo_config :: log_config where
  "demo_config = \<lparr>rotate_threshold = 1000, fanout = 2, value_sep_threshold = 4\<rparr>"

definition demo_log :: ns_log where
  "demo_log =
     \<lparr>nl_dir = om_insert 0 [] om_empty, nl_values = vs_new om_empty, nl_index = ix_new, nl_sealed = om_empty,
      nl_level = om_empty,
      nl_active = \<lparr>lf_file_id = 0, lf_data = [], lf_dev = healthy_device, lf_write_offset = 0, lf_poisoned = False\<rparr>,
      nl_config = demo_config, nl_compaction_bytes = 0, nl_unsynced_bytes = 0, nl_last_tstamp = 0,
      nl_reclaim_in_progress = False, nl_rotate_in_progress = False, nl_frozen = False, nl_in_flight_writes = 0\<rparr>"

lemma demo_open: "open_log demo_world demo_config om_empty om_empty = (Inr demo_log, om_insert 0 [] om_empty)"
  by code_simp

text \<open>The log after one write of a value long enough to be separated.\<close>

definition demo_put :: log_op where
  "demo_put = LPut 5 [1] [2, 3, 4, 5, 6] [] None"

definition demo_log1 :: ns_log where
  "demo_log1 =
     (let h = [2, 3, 4, 5, 6, 0, 0, 0, 0, 0, 0, 0, 0, 0, 0, 0];
          rec_bytes = u64_to_le 0 @ record_payload 5 (NO_EXPIRY OR VALUE_SEP) 0 [1] h []
      in demo_log\<lparr>nl_dir := om_insert 0 rec_bytes om_empty,
           nl_values := \<lparr>vs_refs = om_insert h 1 om_empty, vs_pending = [], vs_blobs = om_insert h [2, 3, 4, 5, 6] om_empty\<rparr>,
           nl_index := \<lparr>ix_map = om_insert [1] (index_entry_new 0 0 54 5) om_empty, ix_ttl = om_empty,
             ix_valsep = om_insert [1] h om_empty, ix_live_count = 1\<rparr>,
           nl_active := (nl_active demo_log)\<lparr>lf_data := rec_bytes, lf_write_offset := 54\<rparr>,
           nl_unsynced_bytes := 54, nl_last_tstamp := 5\<rparr>)"

lemma demo_put_eq: "log_step demo_world demo_put demo_log = (Inr (Some 5), demo_log1)"
  by code_simp

lemma demo_facts [simp]:
  "hash_ok demo_world" "w_blob_read demo_world h = None" "tstamp_room demo_log" "no_collision demo_world v demo_log"
  by (auto simp: hash_ok_def demo_world_def tstamp_room_def no_collision_def demo_log_def vs_new_def min_def)

lemma demo_rel: "log_rel demo_world (\<lambda>k. None) demo_log"
  by (rule open_empty_rel[OF demo_open])

section \<open>Properties\<close>

text \<open>
  C1. Every history of a freshly created namespace, whatever fails in it, is a history of the abstract
  map: each operation answers and takes effect as \<open>spec_step\<close> allows (compare-and-set and conditional
  delete included; rotation, compaction, sync and sealing change nothing), and in the end every key of
  the map, and no other, reads back with its value, metadata, expiry and revision.
\<close>

theorem history_refines:
  assumes "open_log w cfg om_empty blobs = (Inr st, dir)" "run_ok w cs st" "log_run w cs st = (rps, st')"
    and "hash_ok w" "readable w st'"
  shows "\<exists>A. spec_run cs rps (\<lambda>k. None) A \<and>
    (\<forall>k. case ix_get (nl_index st') k of
            None \<Rightarrow> A k = None
          | Some e \<Rightarrow> (\<exists>v m. read_value w st' e = Inr (v, m) \<and>
              A k = Some \<lparr>kv_value = v, kv_meta = m, kv_ttl = ttl_of (nl_index st') k, kv_rev = ie_tstamp_ms e\<rparr>))"
proof -
  obtain A where "spec_run cs rps (\<lambda>k. None) A" "log_rel w A st'"
    using log_run_refines[OF open_empty_rel[OF assms(1)] assms(2)] assms(3) by auto
  then show ?thesis using log_rel_read[of w A st', OF _ assms(4,5)] by blast
qed

theorem history_refines_witness:
  "\<exists>A. spec_run [demo_put, LReclaim] [Inr (Some 5), Inr None] (\<lambda>k. None) A \<and>
    A [1] = Some \<lparr>kv_value = [2, 3, 4, 5, 6], kv_meta = [], kv_ttl = None, kv_rev = 5\<rparr> \<and> A [2] = None"
proof -
  define s where "s = snd (log_step demo_world LReclaim demo_log1)"
  have "tstamp_room demo_log1" unfolding tstamp_room_def by code_simp
  then have ok: "run_ok demo_world [demo_put, LReclaim] demo_log"
    using demo_put_eq by (simp add: demo_put_def)
  have rp: "fst (log_step demo_world LReclaim demo_log1) = Inr None" by code_simp
  have run: "log_run demo_world [demo_put, LReclaim] demo_log = ([Inr (Some 5), Inr None], s)"
    using rp demo_put_eq by (simp add: s_def case_prod_beta Let_def)
  have ix: "ix_map (nl_index s) = om_insert [1] (index_entry_new 0 0 54 5) om_empty" "ttl_of (nl_index s) [1] = None"
    unfolding s_def by code_simp+
  have rd: "dv_read_faults (lf_dev f) = []" if "locate_file s 0 = Some f" for f
  proof -
    have "map_option (\<lambda>f. dv_read_faults (lf_dev f)) (locate_file s 0) = Some []" unfolding s_def by code_simp
    then show ?thesis using that by simp
  qed
  have lc: "locate_file s 0 \<noteq> None" unfolding s_def by code_simp
  have rv: "read_value demo_world s (index_entry_new 0 0 54 5) = Inr ([2, 3, 4, 5, 6], [])" unfolding s_def by code_simp
  have e: "ix_get (nl_index s) k = (if k = [1] then Some (index_entry_new 0 0 54 5) else None)" for k
    by (simp add: ix_get_def ix)
  have ra: "readable demo_world s"
    using lc rd by (auto simp: readable_def e reads_at_def index_entry_new_def dv_read_err_def split: if_splits option.splits)
  obtain A where A: "spec_run [demo_put, LReclaim] [Inr (Some 5), Inr None] (\<lambda>k. None) A"
    and rd: "\<forall>k. case ix_get (nl_index s) k of None \<Rightarrow> A k = None
      | Some e \<Rightarrow> (\<exists>v m. read_value demo_world s e = Inr (v, m) \<and>
          A k = Some \<lparr>kv_value = v, kv_meta = m, kv_ttl = ttl_of (nl_index s) k, kv_rev = ie_tstamp_ms e\<rparr>)"
    using history_refines[OF demo_open ok run demo_facts(1) ra] by blast
  from rd[rule_format, of "[1]"] rd[rule_format, of "[2]"] show ?thesis
    using A rv ix(2) by (intro exI[of _ A]) (simp add: e index_entry_new_def)
qed

text \<open>
  C5. The revisions a namespace hands out along a history, whatever operations give them and whatever
  fails in between, are strictly increasing, and above the last revision before the history.
\<close>

theorem history_revisions_increase:
  assumes "run_ok w cs st" "log_run w cs st = (rps, st')"
  shows "sorted_wrt (<) (last_revision st # revs rps)"
  using log_run_revs[OF assms(1)] assms(2) by (simp add: last_revision_def)

theorem history_revisions_increase_witness:
  "sorted_wrt (<) (last_revision demo_log # revs [Inr (Some 5), fst (log_step demo_world (LDel 2 [1]) demo_log1)])"
proof -
  have "tstamp_room demo_log1" unfolding tstamp_room_def by code_simp
  then have ok: "run_ok demo_world [demo_put, LDel 2 [1]] demo_log"
    using demo_put_eq by (simp add: demo_put_def)
  show ?thesis
    by (rule history_revisions_increase[OF ok, of _ "snd (log_step demo_world (LDel 2 [1]) demo_log1)"])
      (simp add: demo_put_eq case_prod_beta Let_def)
qed

text \<open>
  C2. A write that succeeds can be read back: the key's entry carries the reply as its revision, its
  record reads back the value and the metadata (separated or inline), the expiry is the one given, and
  every other key keeps the value it had.
\<close>

theorem put_read_back:
  assumes "log_rel w A st" "tstamp_room st" "no_collision w v st" "put_full w clk k v m t st = (Inr r, st')"
    and "hash_ok w" "readable w st'"
  shows "(\<exists>e. ix_get (nl_index st') k = Some e \<and> read_value w st' e = Inr (v, m) \<and>
      ttl_of (nl_index st') k = t \<and> ie_tstamp_ms e = r) \<and>
    (\<forall>j. j \<noteq> k \<longrightarrow>
       (case ix_get (nl_index st') j of
          None \<Rightarrow> A j = None
        | Some e \<Rightarrow> (\<exists>u n. read_value w st' e = Inr (u, n) \<and>
            A j = Some \<lparr>kv_value = u, kv_meta = n, kv_ttl = ttl_of (nl_index st') j, kv_rev = ie_tstamp_ms e\<rparr>)))"
proof -
  have rel: "log_rel w (spec_put k v m t r A) st'"
    using assms(1-4) by (cases rule: put_full_cases) auto
  note rd = log_rel_read[OF rel assms(5,6)]
  show ?thesis
  proof (intro conjI allI impI)
    show "\<exists>e. ix_get (nl_index st') k = Some e \<and> read_value w st' e = Inr (v, m) \<and> ttl_of (nl_index st') k = t \<and> ie_tstamp_ms e = r"
      using rd[of k] by (auto simp: spec_put_def split: option.splits)
    show "case ix_get (nl_index st') j of None \<Rightarrow> A j = None
        | Some e \<Rightarrow> (\<exists>u n. read_value w st' e = Inr (u, n) \<and>
            A j = Some \<lparr>kv_value = u, kv_meta = n, kv_ttl = ttl_of (nl_index st') j, kv_rev = ie_tstamp_ms e\<rparr>)"
      if "j \<noteq> k" for j
      using rd[of j] that by (auto simp: spec_put_def split: option.splits)
  qed
qed

theorem put_read_back_witness:
  "\<exists>e. ix_get (nl_index demo_log1) [1] = Some e \<and> read_value demo_world demo_log1 e = Inr ([2, 3, 4, 5, 6], []) \<and>
     ttl_of (nl_index demo_log1) [1] = None \<and> ie_tstamp_ms e = 5"
proof -
  have p: "put_full demo_world 5 [1] [2, 3, 4, 5, 6] [] None demo_log = (Inr 5, demo_log1)" by code_simp
  have ix: "ix_map (nl_index demo_log1) = om_insert [1] (index_entry_new 0 0 54 5) om_empty"
    by (simp add: demo_log1_def Let_def)
  have "readable demo_world demo_log1"
    by (auto simp: readable_def ix_get_def ix reads_at_def index_entry_new_def locate_file_def demo_log1_def demo_log_def Let_def
        split: if_splits)
  from put_read_back[OF demo_rel _ _ p demo_facts(1) this] show ?thesis by simp
qed

text \<open>
  C3. A conditional write decides against the live (unexpired) view of the key: it answers \<^verbatim>\<open>None\<close> exactly
  when the condition fails there, and then it has written nothing and drawn no revision; otherwise a
  success carries the fresh revision and the map has the new value.
\<close>

theorem put_cond_exact:
  assumes "log_rel w A st" "tstamp_room st" "no_collision w v st" "put_full_cond w clk k v m t c now st = (Inr x, st')"
  shows "(x = None \<longleftrightarrow> \<not> check_cond c (spec_live A k now)) \<and>
    (x = None \<longrightarrow> log_rel w A st' \<and> nl_dir st' = nl_dir st \<and> last_revision st' = last_revision st) \<and>
    (\<forall>r. x = Some r \<longrightarrow> log_rel w (spec_put k v m t r A) st' \<and> last_revision st < r)"
  using assms
proof (cases rule: put_full_cond_cases)
  case (written ts)
  then show ?thesis using next_tstamp_mono(1)[OF surjective_pairing assms(2), of clk] by (auto simp: last_revision_def)
qed (auto simp: last_revision_def)

theorem put_cond_exact_witness:
  "log_rel demo_world (\<lambda>k. None) (snd (put_full_cond demo_world 5 [1] [2] [] None KeyPresent 7 demo_log)) \<and>
   (\<exists>r. log_rel demo_world (spec_put [1] [2] [] None r (\<lambda>k. None))
      (snd (put_full_cond demo_world 5 [1] [2] [] None KeyAbsent 7 demo_log)) \<and> 0 < r)"
proof -
  have a: "put_full_cond demo_world 5 [1] [2] [] None KeyPresent 7 demo_log =
      (Inr None, snd (put_full_cond demo_world 5 [1] [2] [] None KeyPresent 7 demo_log))"
    and b: "put_full_cond demo_world 5 [1] [2] [] None KeyAbsent 7 demo_log =
      (Inr (Some 5), snd (put_full_cond demo_world 5 [1] [2] [] None KeyAbsent 7 demo_log))"
    unfolding prod_eq_iff by (rule conjI, code_simp, simp)+
  show ?thesis
    using put_cond_exact[OF demo_rel demo_facts(3,4) a] put_cond_exact[OF demo_rel demo_facts(3,4) b]
    by (auto simp: last_revision_def demo_log_def)
qed

text \<open>
  C4. Compaction, whether it succeeds or fails midway, changes no visible key: the same keys are there,
  with the same revisions and expiries, and each reads back the same value and metadata.
\<close>

theorem reclaim_preserves_reads:
  assumes "log_rel w A st" "reclaim w st = (res, st')" "hash_ok w" "readable w st" "readable w st'"
  shows "case ix_get (nl_index st) k of
      None \<Rightarrow> ix_get (nl_index st') k = None
    | Some e \<Rightarrow> (\<exists>e'. ix_get (nl_index st') k = Some e' \<and> ie_tstamp_ms e' = ie_tstamp_ms e \<and>
        ttl_of (nl_index st') k = ttl_of (nl_index st) k \<and> read_value w st' e' = read_value w st e \<and>
        (\<exists>v m. read_value w st e = Inr (v, m)))"
proof -
  note rel' = reclaim_rel[OF assms(1,2)]
  note r = log_rel_read[OF assms(1,3,4), of k] log_rel_read[OF rel' assms(3,5), of k]
  show ?thesis using r by (auto split: option.splits)
qed

theorem reclaim_preserves_reads_witness:
  "\<exists>e e' v m. ix_get (nl_index demo_log1) [1] = Some e \<and>
     ix_get (nl_index (snd (reclaim demo_world demo_log1))) [1] = Some e' \<and>
     read_value demo_world (snd (reclaim demo_world demo_log1)) e' = Inr (v, m) \<and> read_value demo_world demo_log1 e = Inr (v, m)"
proof -
  let ?e = "index_entry_new 0 0 54 5"
  obtain A where rel: "log_rel demo_world A demo_log1"
    using log_step_refines[OF demo_rel, of demo_put] demo_put_eq by (auto simp: demo_put_def)
  define s where "s = snd (reclaim demo_world demo_log1)"
  have ix: "ix_map (nl_index demo_log1) = om_insert [1] ?e om_empty" by (simp add: demo_log1_def Let_def)
  have ix': "ix_map (nl_index s) = om_insert [1] ?e om_empty" unfolding s_def by code_simp
  have "map_option (\<lambda>f. dv_read_faults (lf_dev f)) (locate_file s 0) = Some []" unfolding s_def by code_simp
  then have "readable demo_world s"
    by (auto simp: readable_def ix_get_def ix' reads_at_def index_entry_new_def dv_read_err_def split: if_splits)
  moreover have "readable demo_world demo_log1"
    by (auto simp: readable_def ix_get_def ix reads_at_def index_entry_new_def locate_file_def demo_log1_def demo_log_def Let_def
        split: if_splits)
  ultimately show ?thesis
    using reclaim_preserves_reads[OF rel _ demo_facts(1), of "fst (reclaim demo_world demo_log1)" s "[1]"]
    by (auto simp: s_def ix_get_def ix ix'[unfolded s_def])
qed

end
