(* ===== verification/Log_Defects.thy ===== *)
theory Log_Defects
  imports Ns_History
begin

text \<open>
  Histories, with restarts between them, in which the log does not keep what it acknowledged. Each is a
  run of the model on a healthy disk (but for one failed \<^verbatim>\<open>open\<close> in the third), evaluated step by step.
\<close>

section \<open>Sessions\<close>

text \<open>A restart sees the directory and the blobs, and nothing of the memory of the process.\<close>

definition on_disk :: "ns_log \<Rightarrow> log_config \<times> data_dir \<times> (bytes, bytes) omap" where
  "on_disk st = (nl_config st, nl_dir st, vs_blobs (nl_values st))"

definition restart_on :: "world \<Rightarrow> log_config \<times> data_dir \<times> (bytes, bytes) omap \<Rightarrow> ns_log eresult" where
  "restart_on w d = (case d of (cfg, dir, blobs) \<Rightarrow> fst (open_log w cfg dir blobs))"

definition restart :: "world \<Rightarrow> ns_log \<Rightarrow> ns_log eresult" where
  "restart w st = restart_on w (on_disk st)"

definition run_disk ::
  "world \<Rightarrow> log_op list \<Rightarrow> ns_log \<Rightarrow> u64 option eresult list \<times> log_config \<times> data_dir \<times> (bytes, bytes) omap" where
  "run_disk w cs st = (let (rps, st') = log_run w cs st in (rps, on_disk st'))"

text \<open>Histories one after another, with a restart before each but the first.\<close>

fun sessions :: "world \<Rightarrow> log_op list list \<Rightarrow> ns_log \<Rightarrow> u64 option eresult list list \<times> ns_log eresult" where
  "sessions w [] st = ([], Inr st)"
| "sessions w (cs # css) st =
     (let (rps, st1) = log_run w cs st
      in if css = [] then ([rps], Inr st1)
         else (case restart w st1 of
                 Inl e \<Rightarrow> ([rps], Inl e)
               | Inr st2 \<Rightarrow> (let (rpss, res) = sessions w css st2 in (rps # rpss, res))))"

text \<open>A state of the demonstration log: its files, its values, its index and its counters.\<close>

definition demo_state ::
  "(nat, bytes) omap \<Rightarrow> nat list \<Rightarrow> nat \<Rightarrow> value_store \<Rightarrow> ns_index \<Rightarrow> nat \<Rightarrow> u64 \<Rightarrow> ns_log" where
  "demo_state dir sealed_ids active_id vs ix unsynced last_ts =
     (let file = (\<lambda>i. let d = (case om_lookup dir i of Some b \<Rightarrow> b | None \<Rightarrow> [])
                       in \<lparr>lf_file_id = i, lf_data = d, lf_dev = healthy_device, lf_write_offset = length d, lf_poisoned = False\<rparr>)
      in demo_log\<lparr>nl_dir := dir, nl_values := vs, nl_index := ix,
           nl_sealed := fold (\<lambda>i. om_insert i (file i)) sealed_ids om_empty,
           nl_level := fold (\<lambda>i. om_insert i 0) sealed_ids om_empty,
           nl_active := file active_id, nl_unsynced_bytes := unsynced, nl_last_tstamp := last_ts\<rparr>)"

definition demo_rec :: "u64 \<Rightarrow> u8 \<Rightarrow> bytes \<Rightarrow> bytes \<Rightarrow> bytes" where
  "demo_rec ts fl k v = u64_to_le 0 @ record_payload ts fl 0 k v []"

definition demo_footer :: "footer_entry list \<Rightarrow> bytes" where
  "demo_footer es = footer_body es @ footer_trailer (\<lambda>b. 0) (footer_body es)"

section \<open>A deletion sealed into a later file\<close>

definition resur_dir0 :: data_dir where
  "resur_dir0 = om_insert 0 (demo_rec 5 NO_EXPIRY [1] [2] @ demo_footer [footer_entry_from_index [1] (index_entry_new 0 0 39 5) None None]) om_empty"

definition resur_log1 :: ns_log where
  "resur_log1 = demo_state (om_insert 1 [] resur_dir0) [0] 1 (vs_new om_empty)
     \<lparr>ix_map = om_insert [1] (index_entry_new 0 0 39 5) om_empty, ix_ttl = om_empty, ix_valsep = om_empty, ix_live_count = 1\<rparr> 0 5"

definition resur_dir1 :: data_dir where
  "resur_dir1 = om_insert 1 (demo_rec 6 TOMBSTONE [1] [] @ demo_footer []) resur_dir0"

lemma resur_steps:
  "run_disk demo_world [LPut 5 [1] [2] [] None, LSeal] demo_log =
     ([Inr (Some 5), Inr None], demo_config, resur_dir0, om_empty)"
  "restart_on demo_world (demo_config, resur_dir0, om_empty) = Inr resur_log1"
  "run_disk demo_world [LDel 6 [1], LSeal] resur_log1 = ([Inr (Some 6), Inr None], demo_config, resur_dir1, om_empty)"
  by code_simp+

lemma resur_back:
  "case restart_on demo_world (demo_config, resur_dir1, om_empty) of
     Inl e \<Rightarrow> False
   | Inr st \<Rightarrow> map_option (read_value demo_world st) (ix_get (nl_index st) [1]) = Some (Inr ([2], []))"
  by code_simp

lemma sessions_step:
  assumes "run_disk w cs st = (rps, d)" "restart_on w d = Inr st2" "css \<noteq> []" "sessions w css st2 = (rpss, res)"
  shows "sessions w (cs # css) st = (rps # rpss, res)"
  using assms by (auto simp: run_disk_def restart_def split: prod.splits)

lemma sessions_dead:
  assumes "run_disk w cs st = (rps, d)" "restart_on w d = Inl e" "css \<noteq> []"
  shows "sessions w (cs # css) st = ([rps], Inl e)"
  using assms by (auto simp: run_disk_def restart_def split: prod.splits)

section \<open>A separated value replaced by an inline one\<close>

text \<open>
  The replay of an inline record leaves the sidecar entry of an earlier separated record of the key in
  place, so that the blob it names is counted although garbage collection has removed it.
\<close>

abbreviation "demo_hash \<equiv> [2, 3, 4, 5, 6, 0, 0, 0, 0, 0, 0, 0, 0, 0, 0, 0] :: bytes"

definition stale_dir :: data_dir where
  "stale_dir = om_insert 0 (demo_rec 5 (NO_EXPIRY OR VALUE_SEP) [1] demo_hash @ demo_rec 6 NO_EXPIRY [1] [7]) om_empty"

definition stale_log :: ns_log where
  "stale_log = demo_state stale_dir [] 0 \<lparr>vs_refs = om_insert demo_hash 1 om_empty, vs_pending = [], vs_blobs = om_empty\<rparr>
     \<lparr>ix_map = om_insert [1] (index_entry_new 0 54 39 6) om_empty, ix_ttl = om_empty,
      ix_valsep = om_insert [1] demo_hash om_empty, ix_live_count = 1\<rparr> 0 6"

lemma stale_steps:
  "run_disk demo_world [LPut 6 [1] [7] [] None, LSync] demo_log1 = ([Inr (Some 6), Inr None], demo_config, stale_dir, om_empty)"
  "restart_on demo_world (demo_config, stale_dir, om_empty) = Inr stale_log"
  by code_simp+

lemma stale_lost:
  "case log_step demo_world (LPut 7 [2] [2, 3, 4, 5, 6] [] None) stale_log of
     (rp, st) \<Rightarrow> rp = Inr (Some 7) \<and> map_option (read_value demo_world st) (ix_get (nl_index st) [2]) = Some (Inl (Io NotFound))"
  by code_simp

section \<open>A compaction that fails after sealing the active file\<close>

text \<open>One \<^verbatim>\<open>open\<close> fails (too many open files): the one that should create the next active file.\<close>

definition emfile_world :: world where
  "emfile_world = demo_world\<lparr>w_env := healthy_env\<lparr>fs_open_err := (\<lambda>i. if i = 1 then Some (OsError 24) else None)\<rparr>\<rparr>"

definition sealed_log :: ns_log where
  "sealed_log = (demo_state resur_dir0 [0] 0 (vs_new om_empty)
     \<lparr>ix_map = om_insert [1] (index_entry_new 0 0 39 5) om_empty, ix_ttl = om_empty, ix_valsep = om_empty, ix_live_count = 1\<rparr> 39 5)
     \<lparr>nl_level := om_empty\<rparr>"

definition sealed_dir :: data_dir where
  "sealed_dir = om_insert 0 (demo_rec 5 NO_EXPIRY [1] [2] @
     demo_footer [footer_entry_from_index [1] (index_entry_new 0 0 39 5) None None] @ demo_rec 6 NO_EXPIRY [3] [4]) om_empty"

lemma sealed_steps:
  "log_run emfile_world [LPut 5 [1] [2] [] None, LReclaim] demo_log = ([Inr (Some 5), Inl (Io (OsError 24))], sealed_log)"
  "run_disk demo_world [LPut 6 [3] [4] [] None, LSync] sealed_log = ([Inr (Some 6), Inr None], demo_config, sealed_dir, om_empty)"
  "map_sum (\<lambda>e. e) (\<lambda>st. ix_get (nl_index st) [3]) (restart_on demo_world (demo_config, sealed_dir, om_empty)) = Inr None"
  by code_simp+

section \<open>A value that looks like a footer\<close>

definition inline_log :: ns_log where
  "inline_log = demo_log\<lparr>nl_config := demo_config\<lparr>value_sep_threshold := 1000\<rparr>\<rparr>"

definition magic_value :: bytes where
  "magic_value = replicate 16 255 @ u64_to_le FOOTER_MAGIC"

lemma magic_steps:
  "case run_disk demo_world [LPut 5 [1] magic_value [] None, LSync] inline_log of
     (rps, d) \<Rightarrow> rps = [Inr (Some 5), Inr None] \<and> isl (restart_on demo_world d)"
  by code_simp

section \<open>Properties\<close>

text \<open>
  C28. A deletion does not survive being sealed. The key is written and its file sealed by a clean
  shutdown; after a restart the deletion is acknowledged and its file sealed in turn. A footer lists only
  live keys of its own file, so the next restart finds the key in the first footer and nothing that
  removes it: the deleted key reads back its old value.
\<close>

theorem sealed_deletion_is_lost:
  "\<exists>st. sessions demo_world [[LPut 5 [1] [2] [] None, LSeal], [LDel 6 [1], LSeal], []] demo_log =
      ([[Inr (Some 5), Inr None], [Inr (Some 6), Inr None], []], Inr st) \<and>
    map_option (read_value demo_world st) (ix_get (nl_index st) [1]) = Some (Inr ([2], []))"
proof -
  obtain st where st: "restart_on demo_world (demo_config, resur_dir1, om_empty) = Inr st"
      "map_option (read_value demo_world st) (ix_get (nl_index st) [1]) = Some (Inr ([2], []))"
    using resur_back by (auto split: sum.splits)
  have "sessions demo_world [[]] st = ([[]], Inr st)" by simp
  from sessions_step[OF resur_steps(1,2) _ sessions_step[OF resur_steps(3) st(1) _ this]] show ?thesis
    using st(2) by auto
qed

text \<open>
  C29. A write can be acknowledged and never be readable, with no I/O error anywhere. A key's separated
  value is replaced by an inline one, its blob is collected at the next sync, and the process restarts.
  Replay keeps the old sidecar entry, so the missing blob has a reference count of one; a later write of
  the same content is taken for a duplicate and its blob is never written.
\<close>

theorem stale_sidecar_loses_value:
  "\<exists>st. sessions demo_world [[demo_put, LPut 6 [1] [7] [] None, LSync], [LPut 7 [2] [2, 3, 4, 5, 6] [] None]] demo_log =
      ([[Inr (Some 5), Inr (Some 6), Inr None], [Inr (Some 7)]], Inr st) \<and>
    map_option (read_value demo_world st) (ix_get (nl_index st) [2]) = Some (Inl (Io NotFound))"
proof -
  have r: "run_disk demo_world [demo_put, LPut 6 [1] [7] [] None, LSync] demo_log =
      ([Inr (Some 5), Inr (Some 6), Inr None], demo_config, stale_dir, om_empty)"
    using stale_steps(1) by (auto simp: run_disk_def demo_put_eq Let_def split: prod.splits)
  obtain st where st: "log_step demo_world (LPut 7 [2] [2, 3, 4, 5, 6] [] None) stale_log = (Inr (Some 7), st)"
      "map_option (read_value demo_world st) (ix_get (nl_index st) [2]) = Some (Inl (Io NotFound))"
    using stale_lost by (auto split: prod.splits)
  have "sessions demo_world [[LPut 7 [2] [2, 3, 4, 5, 6] [] None]] stale_log = ([[Inr (Some 7)]], Inr st)"
    by (simp only: sessions.simps log_run.simps st(1) prod.case Let_def simp_thms if_True)
  from sessions_step[OF r stale_steps(2) _ this] show ?thesis using st(2) by auto
qed

text \<open>
  C30. Writes acknowledged after a failed compaction can be lost. The compaction seals the active file and
  then fails to create the next one; the sealed file stays active and the following write lands behind
  its footer. It is acknowledged and synced, but the next restart finds no trailing footer, replays the
  file up to the old one and cuts off the rest.
\<close>

theorem failed_reclaim_loses_later_writes:
  "\<exists>st1 st2 st3. log_run emfile_world [LPut 5 [1] [2] [] None, LReclaim] demo_log =
      ([Inr (Some 5), Inl (Io (OsError 24))], st1) \<and>
    log_run demo_world [LPut 6 [3] [4] [] None, LSync] st1 = ([Inr (Some 6), Inr None], st2) \<and>
    restart demo_world st2 = Inr st3 \<and> ix_get (nl_index st3) [3] = None"
proof -
  obtain st2 where s2: "log_run demo_world [LPut 6 [3] [4] [] None, LSync] sealed_log = ([Inr (Some 6), Inr None], st2)"
      "on_disk st2 = (demo_config, sealed_dir, om_empty)"
    using sealed_steps(2) by (auto simp: run_disk_def split: prod.splits)
  obtain st3 where "restart_on demo_world (demo_config, sealed_dir, om_empty) = Inr st3" "ix_get (nl_index st3) [3] = None"
    using sealed_steps(3) by (cases "restart_on demo_world (demo_config, sealed_dir, om_empty)") auto
  then show ?thesis using sealed_steps(1) s2 by (auto simp: restart_def)
qed

text \<open>
  C31. A client can make a namespace unopenable. A value whose last eight bytes are the footer's magic
  number, written last before an unclean stop, makes the file look sealed; the restart reads a footer
  length from the value and fails.
\<close>

theorem magic_value_blocks_restart:
  "\<exists>e. sessions demo_world [[LPut 5 [1] magic_value [] None, LSync], []] inline_log = ([[Inr (Some 5), Inr None]], Inl e)"
proof -
  obtain d e where "run_disk demo_world [LPut 5 [1] magic_value [] None, LSync] inline_log = ([Inr (Some 5), Inr None], d)"
      "restart_on demo_world d = Inl e"
    using magic_steps by (auto simp: isl_def split: prod.splits)
  from sessions_dead[OF this] show ?thesis by auto
qed

end
