(* ===== verification/Mem_Cache.thy ===== *)
theory Mem_Cache
  imports KV_Prelude
begin

text \<open>
  \<^verbatim>\<open>engine/src/cache.rs\<close>: the S3-FIFO cache in front of the log. The queues hold keys and may hold stale or
  repeated ones, so the eviction loops are not bounded by the entries alone; they are total functions
  here. The lemmas show the byte accounting, that every operation ends within the byte budget, that the
  ghost set is bounded, and that a hit is always the last value inserted.
\<close>

section \<open>Model\<close>

record 'j cache_entry =
  ce_value :: bytes
  ce_expires_at_ms :: "u64 option"
  ce_metadata :: "'j option"
  ce_freq :: nat
  ce_size :: nat
  ce_revision :: u64

record 'j mem_cache =
  mc_entries :: "(bytes, 'j cache_entry) omap"
  mc_small :: "bytes list"
  mc_main :: "bytes list"
  mc_ghost :: "bytes set"
  mc_ghost_queue :: "bytes list"
  mc_ghost_max :: nat
  mc_current_bytes :: nat
  mc_max_bytes :: nat
  mc_stale_slots :: nat

definition cache_new :: "nat \<Rightarrow> 'j mem_cache" where
  "cache_new max_bytes =
     \<lparr>mc_entries = om_empty, mc_small = [], mc_main = [], mc_ghost = {}, mc_ghost_queue = [],
      mc_ghost_max = max (max_bytes div 640) 64, mc_current_bytes = 0, mc_max_bytes = max_bytes,
      mc_stale_slots = 0\<rparr>"

subsection \<open>Ghosts\<close>

text \<open>The draining loop of \<^verbatim>\<open>ghost_insert\<close>; it recurses on the queue it pops from.\<close>

fun ghost_drain :: "nat \<Rightarrow> bytes set \<Rightarrow> bytes list \<Rightarrow> bytes set \<times> bytes list" where
  "ghost_drain ghost_max g [] = (g, [])"
| "ghost_drain ghost_max g (old # q) =
     (if card g \<ge> ghost_max then ghost_drain ghost_max (g - {old}) q else (g, old # q))"

definition ghost_insert :: "bytes \<Rightarrow> 'j mem_cache \<Rightarrow> 'j mem_cache" where
  "ghost_insert key c =
     (let (g, q) = ghost_drain (mc_ghost_max c) (mc_ghost c) (mc_ghost_queue c)
      in c\<lparr>mc_ghost := insert key g, mc_ghost_queue := (if key \<in> g then q else q @ [key])\<rparr>)"

definition ghost_remove :: "bytes \<Rightarrow> 'j mem_cache \<Rightarrow> 'j mem_cache" where
  "ghost_remove key c = c\<lparr>mc_ghost := mc_ghost c - {key}\<rparr>"

subsection \<open>Eviction\<close>

definition set_freq :: "bytes \<Rightarrow> nat \<Rightarrow> 'j mem_cache \<Rightarrow> 'j mem_cache" where
  "set_freq key n c =
     (case om_lookup (mc_entries c) key of
        None \<Rightarrow> c
      | Some e \<Rightarrow> c\<lparr>mc_entries := om_insert key (e\<lparr>ce_freq := n\<rparr>) (mc_entries c)\<rparr>)"

definition drop_entry :: "bytes \<Rightarrow> nat \<Rightarrow> 'j mem_cache \<Rightarrow> 'j mem_cache" where
  "drop_entry key n c =
     c\<lparr>mc_entries := om_delete key (mc_entries c), mc_current_bytes := mc_current_bytes c - n\<rparr>"

text \<open>Phase 1 of \<^verbatim>\<open>evict_one\<close>: the loop over Small. The argument is the rest of the queue.\<close>

fun evict_small :: "bytes list \<Rightarrow> 'j mem_cache \<Rightarrow> bool \<times> 'j mem_cache" where
  "evict_small [] c = (False, c\<lparr>mc_small := []\<rparr>)"
| "evict_small (key # q) c =
     (case om_lookup (mc_entries c) key of
        None \<Rightarrow> evict_small q c
      | Some e \<Rightarrow>
          if ce_freq e > 0
          then evict_small q (let c1 = set_freq key 0 c in c1\<lparr>mc_main := mc_main c1 @ [key]\<rparr>)
          else (True, (drop_entry key (ce_size e) (ghost_insert key c))\<lparr>mc_small := q\<rparr>))"

definition hot :: "'j mem_cache \<Rightarrow> bytes set" where
  "hot c = {k. \<exists>e. om_lookup (mc_entries c) k = Some e \<and> ce_freq e > 0}"

lemma finite_hot [simp]: "finite (hot c)"
  by (rule finite_subset[OF _ finite_set[of "om_keys (mc_entries c)"]]) (auto simp: hot_def set_om_keys)

lemma hot_set_freq: "om_lookup (mc_entries c) key = Some e \<Longrightarrow> hot (set_freq key 0 c) = hot c - {key}"
  by (auto simp: hot_def set_freq_def split: if_splits)

text \<open>Phase 2: the loop over Main.\<close>

function evict_main :: "bytes list \<Rightarrow> 'j mem_cache \<Rightarrow> bool \<times> 'j mem_cache" where
  "evict_main [] c = (False, c\<lparr>mc_main := []\<rparr>)"
| "evict_main (key # q) c =
     (case om_lookup (mc_entries c) key of
        None \<Rightarrow> evict_main q c
      | Some e \<Rightarrow>
          if ce_freq e > 0 then evict_main (q @ [key]) (set_freq key 0 c)
          else (True, (drop_entry key (ce_size e) c)\<lparr>mc_main := q\<rparr>))"
  by pat_completeness auto
termination
proof (relation "measures [\<lambda>(q, c). card (hot c), \<lambda>(q, c). length q]", goal_cases)
  case (3 key q c e)
  then have "key \<in> hot c" by (auto simp: hot_def)
  then have "card (hot (set_freq key 0 c)) < card (hot c)"
    using card_Diff1_less[OF finite_hot] by (simp only: hot_set_freq[OF 3(1)])
  then show ?case by simp
qed auto

definition evict_one :: "'j mem_cache \<Rightarrow> bool \<times> 'j mem_cache" where
  "evict_one c =
     (case evict_small (mc_small c) c of
        (True, c1) \<Rightarrow> (True, c1)
      | (False, c1) \<Rightarrow> evict_main (mc_main c1) c1)"

definition promote :: "bytes \<Rightarrow> 'j mem_cache \<Rightarrow> 'j mem_cache" where
  "promote key c = (let c1 = set_freq key 0 c in c1\<lparr>mc_main := mc_main c1 @ [key]\<rparr>)"

lemma evict_small_rule [consumes 1, case_names empty stale warm cold]:
  assumes "evict_small q c = (b, c')"
    and "\<And>c. P [] c False (c\<lparr>mc_small := []\<rparr>)"
    and "\<And>key q c b c'. om_lookup (mc_entries c) key = None \<Longrightarrow> P q c b c' \<Longrightarrow> P (key # q) c b c'"
    and "\<And>key q c e b c'. om_lookup (mc_entries c) key = Some e \<Longrightarrow> ce_freq e > 0 \<Longrightarrow> P q (promote key c) b c' \<Longrightarrow>
           P (key # q) c b c'"
    and "\<And>key q c e. om_lookup (mc_entries c) key = Some e \<Longrightarrow> ce_freq e = 0 \<Longrightarrow>
           P (key # q) c True ((drop_entry key (ce_size e) (ghost_insert key c))\<lparr>mc_small := q\<rparr>)"
  shows "P q c b c'"
  using assms(1)
proof (induction q c arbitrary: b c' rule: evict_small.induct)
  case (1 c)
  then show ?case using assms(2) by auto
next
  case (2 key q c)
  show ?case
  proof (cases "om_lookup (mc_entries c) key")
    case None
    then show ?thesis using 2(1)[OF None] 2(3) assms(3)[OF None] by simp
  next
    case (Some e)
    then show ?thesis using 2(2)[OF Some] 2(3) assms(4)[OF Some] assms(5)[OF Some]
      by (cases "ce_freq e > 0") (auto simp: promote_def)
  qed
qed

lemma evict_main_rule [consumes 1, case_names empty stale warm cold]:
  assumes "evict_main q c = (b, c')"
    and "\<And>c. P [] c False (c\<lparr>mc_main := []\<rparr>)"
    and "\<And>key q c b c'. om_lookup (mc_entries c) key = None \<Longrightarrow> P q c b c' \<Longrightarrow> P (key # q) c b c'"
    and "\<And>key q c e b c'. om_lookup (mc_entries c) key = Some e \<Longrightarrow> ce_freq e > 0 \<Longrightarrow>
           P (q @ [key]) (set_freq key 0 c) b c' \<Longrightarrow> P (key # q) c b c'"
    and "\<And>key q c e. om_lookup (mc_entries c) key = Some e \<Longrightarrow> ce_freq e = 0 \<Longrightarrow>
           P (key # q) c True ((drop_entry key (ce_size e) c)\<lparr>mc_main := q\<rparr>)"
  shows "P q c b c'"
  using assms(1)
proof (induction q c arbitrary: b c' rule: evict_main.induct)
  case (1 c)
  then show ?case using assms(2) by auto
next
  case (2 key q c)
  show ?case
  proof (cases "om_lookup (mc_entries c) key")
    case None
    then show ?thesis using 2(1)[OF None] 2(3) assms(3)[OF None] by simp
  next
    case (Some e)
    then show ?thesis using 2(2)[OF Some] 2(3) assms(4)[OF Some] assms(5)[OF Some]
      by (cases "ce_freq e > 0") auto
  qed
qed

text \<open>What no eviction step breaks: the accounting, the ghost bound, the limits, and the entries it keeps.\<close>

definition acct :: "'j mem_cache \<Rightarrow> bool" where
  "acct c \<longleftrightarrow> mc_current_bytes c = om_sum ce_size (mc_entries c)"

definition ghost_ok :: "'j mem_cache \<Rightarrow> bool" where
  "ghost_ok c \<longleftrightarrow> mc_ghost c \<subseteq> set (mc_ghost_queue c) \<and> card (mc_ghost c) \<le> mc_ghost_max c \<and> 0 < mc_ghost_max c"

definition covers :: "bytes list \<Rightarrow> bytes list \<Rightarrow> 'j mem_cache \<Rightarrow> bool" where
  "covers q r c \<longleftrightarrow> (\<forall>k. om_lookup (mc_entries c) k \<noteq> None \<longrightarrow> k \<in> set q \<union> set r)"

definition kept :: "'j mem_cache \<Rightarrow> 'j mem_cache \<Rightarrow> bool" where
  "kept c c' \<longleftrightarrow> (\<forall>k e'. om_lookup (mc_entries c') k = Some e' \<longrightarrow>
     (\<exists>n. om_lookup (mc_entries c) k = Some (e'\<lparr>ce_freq := n\<rparr>)))"

definition evicts :: "'j mem_cache \<Rightarrow> 'j mem_cache \<Rightarrow> bool" where
  "evicts c c' \<longleftrightarrow> kept c c' \<and> mc_max_bytes c' = mc_max_bytes c \<and> (acct c \<longrightarrow> acct c') \<and>
     (ghost_ok c \<longrightarrow> ghost_ok c') \<and> om_size (mc_entries c') \<le> om_size (mc_entries c)"

lemma freq_same [simp]: "\<exists>n. e = e\<lparr>ce_freq := n\<rparr>"
  by (rule exI[of _ "ce_freq e"]) simp

lemma kept_trans:
  assumes "kept c1 c2" "kept c2 c3"
  shows "kept c1 c3"
  unfolding kept_def
proof (intro allI impI)
  fix k e
  assume "om_lookup (mc_entries c3) k = Some e"
  then obtain n where "om_lookup (mc_entries c2) k = Some (e\<lparr>ce_freq := n\<rparr>)" using assms(2) unfolding kept_def by blast
  then obtain m where "om_lookup (mc_entries c1) k = Some (e\<lparr>ce_freq := n\<rparr>\<lparr>ce_freq := m\<rparr>)"
    using assms(1) unfolding kept_def by blast
  then show "\<exists>n. om_lookup (mc_entries c1) k = Some (e\<lparr>ce_freq := n\<rparr>)" by auto
qed

lemma evicts_trans: "evicts c1 c2 \<Longrightarrow> evicts c2 c3 \<Longrightarrow> evicts c1 c3"
  unfolding evicts_def by (auto intro: kept_trans)

lemma evicts_upd: "evicts c (c\<lparr>mc_small := x\<rparr>)" "evicts c (c\<lparr>mc_main := x\<rparr>)"
  by (auto simp: evicts_def kept_def acct_def ghost_ok_def)

lemma evicts_set_freq: "evicts c (set_freq key n c)"
proof (cases "om_lookup (mc_entries c) key")
  case (Some e)
  have "om_sum ce_size (om_insert key (e\<lparr>ce_freq := n\<rparr>) (mc_entries c)) = om_sum ce_size (mc_entries c)"
    using om_sum_insert_Some[OF Some, of ce_size "e\<lparr>ce_freq := n\<rparr>"] by simp
  then show ?thesis using Some
    by (auto simp: evicts_def kept_def acct_def ghost_ok_def set_freq_def)
qed (simp add: set_freq_def evicts_def kept_def)

lemma evicts_drop:
  assumes "om_lookup (mc_entries c) key = Some e"
  shows "evicts c (drop_entry key (ce_size e) c)" "om_size (mc_entries (drop_entry key (ce_size e) c)) < om_size (mc_entries c)"
proof -
  show "om_size (mc_entries (drop_entry key (ce_size e) c)) < om_size (mc_entries c)"
    using assms om_size_0_iff[of "mc_entries c"] by (auto simp: drop_entry_def)
  then show "evicts c (drop_entry key (ce_size e) c)"
    using assms om_sum_delete_Some[OF assms, of ce_size]
    by (auto simp: evicts_def kept_def acct_def ghost_ok_def drop_entry_def split: if_splits)
qed

lemma ghost_drain_ok:
  assumes "ghost_drain n g q = (g', q')" "g \<subseteq> set q" "0 < n"
  shows "g' \<subseteq> set q' \<and> g' \<subseteq> g \<and> card g' < n"
  using assms by (induction n g q rule: ghost_drain.induct) (auto split: if_splits)

lemma evicts_ghost_insert: "evicts c (ghost_insert key c)"
proof -
  obtain g q where d: "ghost_drain (mc_ghost_max c) (mc_ghost c) (mc_ghost_queue c) = (g, q)" by fastforce
  have "ghost_ok (ghost_insert key c)" if ok: "ghost_ok c"
  proof -
    note dr = ghost_drain_ok[OF d] ok[unfolded ghost_ok_def]
    have "finite g" using dr by (meson finite_set finite_subset)
    then have "card (insert key g) \<le> mc_ghost_max c" using dr by (auto simp: card_insert_if)
    then show ?thesis using dr by (auto simp: ghost_ok_def ghost_insert_def d)
  qed
  then show ?thesis by (auto simp: evicts_def kept_def acct_def ghost_insert_def d)
qed

lemma evict_small_evicts:
  assumes "evict_small q c = (b, c')"
  shows "evicts c c' \<and> (b \<longrightarrow> om_size (mc_entries c') < om_size (mc_entries c)) \<and>
    (covers q (mc_main c) c \<longrightarrow> covers (mc_small c') (mc_main c') c') \<and> (\<not> b \<longrightarrow> mc_small c' = [])"
  using assms
proof (induction rule: evict_small_rule)
  case (empty c)
  then show ?case using evicts_upd(1) by (auto simp: covers_def)
next
  case (stale key q c b c')
  then show ?case by (auto simp: covers_def)
next
  case (warm key q c e b c')
  have "evicts c (promote key c)"
    unfolding promote_def Let_def by (rule evicts_trans[OF evicts_set_freq evicts_upd(2)])
  moreover have "covers q (mc_main (promote key c)) (promote key c)" if "covers (key # q) (mc_main c) c"
    using that warm(1) by (auto simp: covers_def promote_def set_freq_def)
  ultimately show ?case using warm(3) evicts_trans[of c "promote key c" c'] by (auto simp: evicts_def)
next
  case (cold key q c e)
  let ?g = "ghost_insert key c"
  have g: "mc_entries ?g = mc_entries c" "mc_main ?g = mc_main c" by (simp_all add: ghost_insert_def case_prod_beta Let_def)
  have "evicts c ((drop_entry key (ce_size e) ?g)\<lparr>mc_small := q\<rparr>)"
    using evicts_trans[OF evicts_ghost_insert evicts_trans[OF evicts_drop(1) evicts_upd(1)]] g cold(1) by metis
  then show ?case using evicts_drop(2)[of ?g key e] g cold(1)
    by (auto simp: covers_def drop_entry_def)
qed

lemma evict_main_evicts:
  assumes "evict_main q c = (b, c')"
  shows "evicts c c' \<and> (b \<longrightarrow> om_size (mc_entries c') < om_size (mc_entries c)) \<and> mc_small c' = mc_small c \<and>
    (covers [] q c \<longrightarrow> covers [] (mc_main c') c') \<and> (\<not> b \<longrightarrow> mc_main c' = [])"
  using assms
proof (induction rule: evict_main_rule)
  case (empty c)
  then show ?case using evicts_upd(2) by (auto simp: covers_def)
next
  case (stale key q c b c')
  then show ?case by (auto simp: covers_def)
next
  case (warm key q c e b c')
  have "covers [] (q @ [key]) (set_freq key 0 c)" if "covers [] (key # q) c"
    using that warm(1) by (auto simp: covers_def set_freq_def)
  moreover have "mc_small (set_freq key 0 c) = mc_small c" by (simp add: set_freq_def split: option.split)
  ultimately show ?case using warm(3) evicts_trans[OF evicts_set_freq[of c key 0], of c'] evicts_set_freq[of c key 0]
    by (auto simp: evicts_def)
next
  case (cold key q c e)
  then show ?case using evicts_trans[OF evicts_drop(1)[OF cold(1)] evicts_upd(2)] evicts_drop(2)[OF cold(1)]
    by (auto simp: covers_def drop_entry_def)
qed

text \<open>\<^verbatim>\<open>evict_one\<close> gives up only when nothing is left to evict.\<close>

lemma evict_one_evicts:
  assumes "evict_one c = (b, c')"
  shows "evicts c c'" "b \<Longrightarrow> om_size (mc_entries c') < om_size (mc_entries c)"
    "covers (mc_small c) (mc_main c) c \<Longrightarrow> covers (mc_small c') (mc_main c') c'"
    "covers (mc_small c) (mc_main c) c \<Longrightarrow> \<not> b \<Longrightarrow> om_size (mc_entries c') = 0"
proof -
  obtain b1 c1 where s: "evict_small (mc_small c) c = (b1, c1)" by fastforce
  note es = evict_small_evicts[OF s]
  have "evicts c c' \<and> (b \<longrightarrow> om_size (mc_entries c') < om_size (mc_entries c)) \<and>
      (covers (mc_small c) (mc_main c) c \<longrightarrow> covers (mc_small c') (mc_main c') c') \<and>
      (covers (mc_small c) (mc_main c) c \<longrightarrow> \<not> b \<longrightarrow> om_size (mc_entries c') = 0)"
  proof (cases b1)
    case True
    then show ?thesis using assms es by (auto simp: evict_one_def s)
  next
    case False
    then have m: "evict_main (mc_main c1) c1 = (b, c')" using assms by (simp add: evict_one_def s)
    note em = evict_main_evicts[OF m]
    have "covers [] (mc_main c1) c1" if "covers (mc_small c) (mc_main c) c" using es that False by auto
    moreover have "om_size (mc_entries c') = 0" if "covers [] [] c'"
      using that by (auto simp: covers_def om_size_0_iff)
    ultimately show ?thesis using es em False evicts_trans[of c c1 c'] by (auto simp: evicts_def)
  qed
  then show "evicts c c'" "b \<Longrightarrow> om_size (mc_entries c') < om_size (mc_entries c)"
    "covers (mc_small c) (mc_main c) c \<Longrightarrow> covers (mc_small c') (mc_main c') c'"
    "covers (mc_small c) (mc_main c) c \<Longrightarrow> \<not> b \<Longrightarrow> om_size (mc_entries c') = 0" by auto
qed

function evict_to_limit :: "'j mem_cache \<Rightarrow> 'j mem_cache" where
  "evict_to_limit c =
     (if mc_current_bytes c > mc_max_bytes c
      then (case evict_one c of (True, c1) \<Rightarrow> evict_to_limit c1 | (False, c1) \<Rightarrow> c1)
      else c)"
  by pat_completeness auto
termination
  by (relation "measure (\<lambda>c. om_size (mc_entries c))") (auto, metis evict_one_evicts(2))

declare evict_to_limit.simps [simp del]

subsection \<open>Operations\<close>

type_synonym 'j hit = "bytes \<times> u64 option \<times> 'j option \<times> u64"

definition expired_at :: "u64 \<Rightarrow> 'j cache_entry \<Rightarrow> bool" where
  "expired_at now e \<longleftrightarrow> (case ce_expires_at_ms e of Some ms \<Rightarrow> ms \<le> now | None \<Rightarrow> False)"

definition hit_of :: "'j cache_entry \<Rightarrow> 'j hit" where
  "hit_of e = (ce_value e, ce_expires_at_ms e, ce_metadata e, ce_revision e)"

definition cache_get :: "bytes \<Rightarrow> u64 \<Rightarrow> 'j mem_cache \<Rightarrow> 'j hit option \<times> 'j mem_cache" where
  "cache_get key now c =
     (case om_lookup (mc_entries c) key of
        None \<Rightarrow> (None, c)
      | Some e \<Rightarrow>
          if expired_at now e then (None, drop_entry key (ce_size e) c)
          else (Some (hit_of e), set_freq key 1 c))"

definition entry_size :: "bytes \<Rightarrow> bytes \<Rightarrow> nat \<Rightarrow> nat" where
  "entry_size key v meta_size = max (length key + length v + meta_size) 1"

definition cache_overwrite :: "bytes \<Rightarrow> 'j hit \<Rightarrow> nat \<Rightarrow> 'j cache_entry \<Rightarrow> 'j mem_cache \<Rightarrow> 'j mem_cache" where
  "cache_overwrite key h sz e c =
     (case h of (v, expires, metadata, revision) \<Rightarrow>
       evict_to_limit
         (c\<lparr>mc_entries := om_insert key
              \<lparr>ce_value = v, ce_expires_at_ms = expires, ce_metadata = metadata, ce_freq = 1, ce_size = sz,
               ce_revision = revision\<rparr> (mc_entries c),
            mc_current_bytes := mc_current_bytes c - ce_size e + sz\<rparr>))"

definition try_update :: "bytes \<Rightarrow> 'j hit \<Rightarrow> nat \<Rightarrow> 'j mem_cache \<Rightarrow> bool \<times> 'j mem_cache" where
  "try_update key h meta_size c =
     (case om_lookup (mc_entries c) key of
        None \<Rightarrow> (False, c)
      | Some e \<Rightarrow> (True, cache_overwrite key h (entry_size key (fst h) meta_size) e c))"

definition cache_insert :: "bytes \<Rightarrow> 'j hit \<Rightarrow> nat \<Rightarrow> 'j mem_cache \<Rightarrow> 'j mem_cache" where
  "cache_insert key h meta_size c =
     (let sz = entry_size key (fst h) meta_size in
      case om_lookup (mc_entries c) key of
        Some e \<Rightarrow> cache_overwrite key h sz e c
      | None \<Rightarrow>
          (case h of (v, expires, metadata, revision) \<Rightarrow>
            let in_main = key \<in> mc_ghost c;
                c1 = c\<lparr>mc_entries := om_insert key
                         \<lparr>ce_value = v, ce_expires_at_ms = expires, ce_metadata = metadata, ce_freq = 0, ce_size = sz,
                          ce_revision = revision\<rparr> (mc_entries c),
                       mc_current_bytes := mc_current_bytes c + sz\<rparr>;
                c2 = (if in_main then let c' = ghost_remove key c1 in c'\<lparr>mc_main := mc_main c' @ [key]\<rparr>
                      else c1\<lparr>mc_small := mc_small c1 @ [key]\<rparr>)
            in evict_to_limit c2))"

definition compact_queues :: "'j mem_cache \<Rightarrow> 'j mem_cache" where
  "compact_queues c =
     (let live = (\<lambda>k. om_lookup (mc_entries c) k \<noteq> None)
      in c\<lparr>mc_small := filter live (mc_small c), mc_main := filter live (mc_main c), mc_stale_slots := 0\<rparr>)"

text \<open>The tail \<^verbatim>\<open>remove\<close>, \<^verbatim>\<open>remove_by_prefix\<close> and \<^verbatim>\<open>sweep_expired\<close> share: count stale slots, compact if they dominate.\<close>

definition note_stale :: "nat \<Rightarrow> 'j mem_cache \<Rightarrow> 'j mem_cache" where
  "note_stale n c =
     (let stale = mc_stale_slots c + n; c1 = c\<lparr>mc_stale_slots := stale\<rparr>
      in if stale > (length (mc_small c) + length (mc_main c)) div 2 then compact_queues c1 else c1)"

definition cache_remove :: "bytes \<Rightarrow> 'j mem_cache \<Rightarrow> 'j mem_cache" where
  "cache_remove key c =
     (case om_lookup (mc_entries c) key of
        None \<Rightarrow> c
      | Some e \<Rightarrow> note_stale 1 (drop_entry key (ce_size e) c))"

definition drop_matching :: "(bytes \<times> 'j cache_entry \<Rightarrow> bool) \<Rightarrow> 'j mem_cache \<Rightarrow> 'j mem_cache" where
  "drop_matching P c =
     c\<lparr>mc_entries := om_filter (\<lambda>p. \<not> P p) (mc_entries c),
       mc_current_bytes := mc_current_bytes c - om_sum ce_size (om_filter P (mc_entries c))\<rparr>"

definition remove_by_prefix :: "bytes \<Rightarrow> 'j mem_cache \<Rightarrow> 'j mem_cache" where
  "remove_by_prefix pre c =
     (let P = (\<lambda>(k, e). take (length pre) k = pre); n = om_size (om_filter P (mc_entries c))
      in if n = 0 then c else note_stale n (drop_matching P c))"

definition sweep_expired :: "u64 \<Rightarrow> 'j mem_cache \<Rightarrow> nat \<times> 'j mem_cache" where
  "sweep_expired now c =
     (let P = (\<lambda>(k, e). expired_at now e); n = om_size (om_filter P (mc_entries c)); c1 = drop_matching P c
      in (n, if n > 0 then note_stale n c1 else c1))"

definition bytes_used :: "'j mem_cache \<Rightarrow> nat" where
  "bytes_used c = mc_current_bytes c"

section \<open>Invariant\<close>

definition cache_inv :: "'j mem_cache \<Rightarrow> bool" where
  "cache_inv c \<longleftrightarrow> acct c \<and> ghost_ok c \<and> covers (mc_small c) (mc_main c) c \<and> mc_current_bytes c \<le> mc_max_bytes c"

text \<open>Everything but the byte budget, which the operations restore by evicting.\<close>

definition cache_pre :: "'j mem_cache \<Rightarrow> bool" where
  "cache_pre c \<longleftrightarrow> acct c \<and> ghost_ok c \<and> covers (mc_small c) (mc_main c) c"

lemma evict_to_limit_inv:
  "cache_pre c \<Longrightarrow> cache_inv (evict_to_limit c) \<and> kept c (evict_to_limit c) \<and> mc_max_bytes (evict_to_limit c) = mc_max_bytes c"
proof (induction c rule: evict_to_limit.induct)
  case (1 c)
  obtain b c1 where e: "evict_one c = (b, c1)" by fastforce
  note ev = evict_one_evicts[OF e]
  have pre: "cache_pre c1" using 1(2) ev by (auto simp: cache_pre_def evicts_def)
  have kept: "kept c c1" "mc_max_bytes c1 = mc_max_bytes c" using ev(1) by (auto simp: evicts_def)
  show ?case
  proof (cases "mc_current_bytes c > mc_max_bytes c")
    case False
    then have "evict_to_limit c = c" by (subst evict_to_limit.simps) simp
    then show ?thesis using False 1(2) by (auto simp: cache_inv_def cache_pre_def kept_def)
  next
    case over: True
    show ?thesis
    proof (cases b)
      case True
      have "evict_to_limit c = evict_to_limit c1" using over True by (subst evict_to_limit.simps) (simp add: e)
      then show ?thesis using 1(1)[OF over e[symmetric]] True pre kept kept_trans by auto
    next
      case False
      have "om_size (mc_entries c1) = 0" using ev(4) 1(2) False by (auto simp: cache_pre_def)
      then have "om_sum ce_size (mc_entries c1) = 0" by (simp add: om_size_def om_sum_def)
      then have "mc_current_bytes c1 = 0" using pre by (simp add: cache_pre_def acct_def)
      moreover have "evict_to_limit c = c1" using over False by (subst evict_to_limit.simps) (simp add: e)
      ultimately show ?thesis using pre kept by (auto simp: cache_inv_def cache_pre_def)
    qed
  qed
qed

lemma cache_inv_new [simp]: "cache_inv (cache_new b)"
  by (simp add: cache_inv_def cache_new_def acct_def ghost_ok_def covers_def)

lemma overwrite_inv:
  assumes inv: "cache_inv c" and e: "om_lookup (mc_entries c) key = Some e"
  shows "cache_inv (cache_overwrite key h sz e c)"
    and "om_lookup (mc_entries (cache_overwrite key h sz e c)) k = Some e' \<Longrightarrow>
      if k = key then hit_of e' = h else (\<exists>e0. om_lookup (mc_entries c) k = Some e0 \<and> hit_of e' = hit_of e0)"
proof -
  obtain v x m r where h: "h = (v, x, m, r)" by (cases h)
  let ?e = "\<lparr>ce_value = v, ce_expires_at_ms = x, ce_metadata = m, ce_freq = 1, ce_size = sz, ce_revision = r\<rparr>"
  let ?c = "c\<lparr>mc_entries := om_insert key ?e (mc_entries c), mc_current_bytes := mc_current_bytes c - ce_size e + sz\<rparr>"
  have "acct ?c" using inv om_sum_insert_Some[OF e, of ce_size ?e] om_sum_le[OF e, of ce_size]
    by (simp add: cache_inv_def acct_def)
  then have "cache_pre ?c" using inv e by (auto simp: cache_inv_def cache_pre_def ghost_ok_def covers_def)
  note ev = evict_to_limit_inv[OF this]
  show "cache_inv (cache_overwrite key h sz e c)" using ev by (simp add: cache_overwrite_def h)
  show "if k = key then hit_of e' = h else (\<exists>e0. om_lookup (mc_entries c) k = Some e0 \<and> hit_of e' = hit_of e0)"
    if "om_lookup (mc_entries (cache_overwrite key h sz e c)) k = Some e'"
  proof -
    from that ev obtain n where "om_lookup (mc_entries ?c) k = Some (e'\<lparr>ce_freq := n\<rparr>)"
      by (auto simp: kept_def cache_overwrite_def h)
    then show ?thesis by (auto simp: hit_of_def h split: if_splits dest!: arg_cong[where f = hit_of]) 
  qed
qed

lemma insert_inv:
  assumes inv: "cache_inv c"
  shows "cache_inv (cache_insert key h ms c)"
    and "om_lookup (mc_entries (cache_insert key h ms c)) k = Some e' \<Longrightarrow>
      if k = key then hit_of e' = h else (\<exists>e0. om_lookup (mc_entries c) k = Some e0 \<and> hit_of e' = hit_of e0)"
proof -
  obtain v x m r where h: "h = (v, x, m, r)" by (cases h)
  let ?sz = "entry_size key v ms"
  let ?e = "\<lparr>ce_value = v, ce_expires_at_ms = x, ce_metadata = m, ce_freq = 0, ce_size = ?sz, ce_revision = r\<rparr>"
  let ?c1 = "c\<lparr>mc_entries := om_insert key ?e (mc_entries c), mc_current_bytes := mc_current_bytes c + ?sz\<rparr>"
  let ?c2 = "if key \<in> mc_ghost c then let c' = ghost_remove key ?c1 in c'\<lparr>mc_main := mc_main c' @ [key]\<rparr>
             else ?c1\<lparr>mc_small := mc_small ?c1 @ [key]\<rparr>"
  have I: "cache_inv (cache_insert key h ms c) \<and>
     (om_lookup (mc_entries (cache_insert key h ms c)) k = Some e' \<longrightarrow>
      (if k = key then hit_of e' = h else (\<exists>e0. om_lookup (mc_entries c) k = Some e0 \<and> hit_of e' = hit_of e0)))"
  proof (cases "om_lookup (mc_entries c) key")
    case (Some e)
    then show ?thesis using overwrite_inv[OF inv Some] by (simp add: cache_insert_def h Let_def)
  next
    case None
    have "finite (mc_ghost c)" using inv finite_subset unfolding cache_inv_def ghost_ok_def by blast
    then have "card (mc_ghost c - {key}) \<le> card (mc_ghost c)" by (auto intro: card_mono)
    then have "ghost_ok ?c2" using inv by (auto simp: cache_inv_def ghost_ok_def ghost_remove_def Let_def)
    moreover have "acct ?c2" using inv om_sum_insert_None[OF None, of ce_size ?e]
      by (simp add: cache_inv_def acct_def ghost_remove_def Let_def)
    moreover have "covers (mc_small ?c2) (mc_main ?c2) ?c2"
      using inv by (auto simp: cache_inv_def covers_def ghost_remove_def Let_def)
    ultimately have "cache_pre ?c2" by (simp add: cache_pre_def)
    note ev = evict_to_limit_inv[OF this]
    have eq: "cache_insert key h ms c = evict_to_limit ?c2" using None by (simp add: cache_insert_def h Let_def)
    have ent: "mc_entries ?c2 = om_insert key ?e (mc_entries c)" by (simp add: ghost_remove_def Let_def)
    have "if k = key then hit_of e' = h else (\<exists>e0. om_lookup (mc_entries c) k = Some e0 \<and> hit_of e' = hit_of e0)"
      if "om_lookup (mc_entries (evict_to_limit ?c2)) k = Some e'"
    proof -
      from that ev obtain n where "om_lookup (mc_entries ?c2) k = Some (e'\<lparr>ce_freq := n\<rparr>)"
        unfolding kept_def by blast
      then show ?thesis unfolding ent by (auto simp: hit_of_def h split: if_splits dest!: arg_cong[where f = hit_of])
    qed
    then show ?thesis using ev eq by simp
  qed
  then show "cache_inv (cache_insert key h ms c)" and "om_lookup (mc_entries (cache_insert key h ms c)) k = Some e' \<Longrightarrow>
      if k = key then hit_of e' = h else (\<exists>e0. om_lookup (mc_entries c) k = Some e0 \<and> hit_of e' = hit_of e0)"
    by blast+
qed

lemma compact_inv: "cache_inv c \<Longrightarrow> cache_inv (compact_queues c)"
  by (auto simp: cache_inv_def compact_queues_def acct_def ghost_ok_def covers_def Let_def)

lemma note_stale_inv:
  "cache_inv c \<Longrightarrow> cache_inv (note_stale n c)" "mc_entries (note_stale n c) = mc_entries c"
  using compact_inv[of "c\<lparr>mc_stale_slots := mc_stale_slots c + n\<rparr>"]
  by (auto simp: note_stale_def Let_def cache_inv_def acct_def ghost_ok_def covers_def compact_queues_def)

lemma drop_entry_inv:
  assumes "cache_inv c" "om_lookup (mc_entries c) key = Some e"
  shows "cache_inv (drop_entry key (ce_size e) c)"
  using assms om_sum_delete_Some[OF assms(2), of ce_size]
  by (auto simp: cache_inv_def drop_entry_def acct_def ghost_ok_def covers_def)

lemma drop_matching_inv:
  assumes "cache_inv c"
  shows "cache_inv (drop_matching P c)"
proof -
  have "mc_current_bytes c - om_sum ce_size (om_filter P (mc_entries c)) = om_sum ce_size (om_filter (\<lambda>p. \<not> P p) (mc_entries c))"
    using assms om_sum_filter_split[of ce_size P "mc_entries c"] by (simp add: cache_inv_def acct_def)
  then show ?thesis using assms
    by (auto simp: cache_inv_def drop_matching_def acct_def ghost_ok_def covers_def split: if_splits option.splits)
qed

lemma set_freq_inv: "cache_inv c \<Longrightarrow> cache_inv (set_freq key n c)"
  using evicts_set_freq[of c key n]
  by (auto simp: cache_inv_def evicts_def covers_def set_freq_def split: option.splits)

lemma get_inv: "cache_inv c \<Longrightarrow> cache_inv (snd (cache_get key now c))"
  by (auto simp: cache_get_def set_freq_inv drop_entry_inv split: option.split)

lemma remove_inv: "cache_inv c \<Longrightarrow> cache_inv (cache_remove key c)"
  by (auto simp: cache_remove_def note_stale_inv drop_entry_inv split: option.split)

lemma remove_by_prefix_inv: "cache_inv c \<Longrightarrow> cache_inv (remove_by_prefix pre c)"
  by (auto simp: remove_by_prefix_def Let_def note_stale_inv drop_matching_inv)

lemma sweep_inv: "cache_inv c \<Longrightarrow> cache_inv (snd (sweep_expired now c))"
  by (auto simp: sweep_expired_def Let_def note_stale_inv drop_matching_inv)

lemma update_inv: "cache_inv c \<Longrightarrow> cache_inv (snd (try_update key h ms c))"
  by (auto simp: try_update_def overwrite_inv(1) split: option.split)

section \<open>Histories\<close>

text \<open>
  The caches that histories of operations reach, with the map of what was inserted last under each key
  and not removed since.
\<close>

inductive mc_reach :: "nat \<Rightarrow> 'j mem_cache \<Rightarrow> (bytes \<Rightarrow> 'j hit option) \<Rightarrow> bool" for budget where
  new: "mc_reach budget (cache_new budget) (\<lambda>k. None)"
| get: "mc_reach budget c M \<Longrightarrow> mc_reach budget (snd (cache_get key now c)) M"
| insert: "mc_reach budget c M \<Longrightarrow> mc_reach budget (cache_insert key h ms c) (M(key \<mapsto> h))"
| update: "mc_reach budget c M \<Longrightarrow> try_update key h ms c = (True, c') \<Longrightarrow> mc_reach budget c' (M(key \<mapsto> h))"
| remove: "mc_reach budget c M \<Longrightarrow> mc_reach budget (cache_remove key c) (M(key := None))"
| remove_prefix: "mc_reach budget c M \<Longrightarrow>
    mc_reach budget (remove_by_prefix pre c) (\<lambda>k. if take (length pre) k = pre then None else M k)"
| sweep: "mc_reach budget c M \<Longrightarrow> mc_reach budget (snd (sweep_expired now c)) M"

definition sound :: "'j mem_cache \<Rightarrow> (bytes \<Rightarrow> 'j hit option) \<Rightarrow> bool" where
  "sound c M \<longleftrightarrow> (\<forall>k e. om_lookup (mc_entries c) k = Some e \<longrightarrow> M k = Some (hit_of e))"

lemma sound_lookup:
  "sound c M \<Longrightarrow> (\<And>k e. om_lookup (mc_entries c') k = Some e \<Longrightarrow> \<exists>e0. om_lookup (mc_entries c) k = Some e0 \<and> hit_of e = hit_of e0) \<Longrightarrow>
   sound c' M"
  unfolding sound_def by fastforce

lemma sound_upd:
  assumes "sound c M" "\<And>k e. om_lookup (mc_entries c') k = Some e \<Longrightarrow>
      if k = key then hit_of e = h else (\<exists>e0. om_lookup (mc_entries c) k = Some e0 \<and> hit_of e = hit_of e0)"
  shows "sound c' (M(key \<mapsto> h))"
  unfolding sound_def
proof (intro allI impI)
  fix k e
  assume "om_lookup (mc_entries c') k = Some e"
  from assms(2)[OF this] show "(M(key \<mapsto> h)) k = Some (hit_of e)"
    using assms(1) by (cases "k = key") (auto simp: sound_def)
qed

lemma evict_to_limit_max [simp]: "mc_max_bytes (evict_to_limit c) = mc_max_bytes c"
proof (induction c rule: evict_to_limit.induct)
  case (1 c)
  obtain b c1 where e: "evict_one c = (b, c1)" by fastforce
  then have "mc_max_bytes c1 = mc_max_bytes c" using evict_one_evicts(1)[OF e] by (simp add: evicts_def)
  then show ?case using 1[OF _ e[symmetric]] by (subst evict_to_limit.simps) (auto simp: e split: bool.split)
qed

lemma overwrite_max [simp]: "mc_max_bytes (cache_overwrite key h sz e c) = mc_max_bytes c"
  by (simp add: cache_overwrite_def split: prod.split)

lemma insert_max [simp]: "mc_max_bytes (cache_insert key h ms c) = mc_max_bytes c"
  by (simp add: cache_insert_def Let_def ghost_remove_def split: prod.split option.split)

lemma mc_reach_inv: "mc_reach budget c M \<Longrightarrow> cache_inv c \<and> mc_max_bytes c = budget \<and> sound c M"
proof (induction rule: mc_reach.induct)
  case new
  then show ?case by (simp add: sound_def) (simp add: cache_new_def)
next
  case (get c M key now)
  have "sound (snd (cache_get key now c)) M"
    using get by (auto intro!: sound_lookup[of c M] simp: cache_get_def drop_entry_def set_freq_def hit_of_def
        split: option.splits if_splits)
  then show ?case using get get_inv[of c key now]
    by (auto simp: cache_get_def drop_entry_def set_freq_def split: option.splits)
next
  case (insert c M key h ms)
  have "sound (cache_insert key h ms c) (M(key \<mapsto> h))"
    by (rule sound_upd[OF _ insert_inv(2)]) (use insert in auto)
  then show ?case using insert insert_inv(1)[of c key h ms] by (simp add: fun_upd_def)
next
  case (update c M key h ms c')
  then obtain e where e: "om_lookup (mc_entries c) key = Some e" "c' = cache_overwrite key h (entry_size key (fst h) ms) e c"
    by (auto simp: try_update_def split: option.splits)
  have "sound c' (M(key \<mapsto> h))"
    unfolding e(2) by (rule sound_upd[OF _ overwrite_inv(2)[OF _ e(1)]]) (use update in auto)
  then show ?case using update overwrite_inv(1)[OF _ e(1), of h "entry_size key (fst h) ms"] e(2) by (simp add: fun_upd_def)
next
  case (remove c M key)
  then show ?case using remove_inv[of c key]
    by (auto simp: sound_def cache_remove_def note_stale_inv(2) drop_entry_def note_stale_def compact_queues_def Let_def
        split: option.splits if_splits)
next
  case (remove_prefix c M pre)
  then show ?case using remove_by_prefix_inv[of c pre]
    by (auto simp: sound_def remove_by_prefix_def Let_def note_stale_inv(2) drop_matching_def note_stale_def
        compact_queues_def om_size_0_iff split: option.splits if_splits)
next
  case (sweep c M now)
  then show ?case using sweep_inv[of c now]
    by (auto simp: sound_def sweep_expired_def Let_def note_stale_inv(2) drop_matching_def note_stale_def
        compact_queues_def split: option.splits if_splits)
qed

section \<open>Properties\<close>

text \<open>
  C9. After any sequence of operations the cache is within its byte budget, its byte counter is the sum
  of the sizes of its entries, every entry has a slot in one of the queues (so that eviction can always
  find it), and the ghost set is within its bound.
\<close>

theorem cache_within_budget:
  assumes "mc_reach budget c M"
  shows "bytes_used c \<le> budget \<and> bytes_used c = om_sum ce_size (mc_entries c) \<and>
    (\<forall>k. om_lookup (mc_entries c) k \<noteq> None \<longrightarrow> k \<in> set (mc_small c) \<union> set (mc_main c)) \<and>
    card (mc_ghost c) \<le> mc_ghost_max c"
  using mc_reach_inv[OF assms] by (auto simp: cache_inv_def acct_def ghost_ok_def covers_def bytes_used_def)

theorem cache_within_budget_witness:
  "bytes_used (cache_insert [2] ([5, 5], None, None :: nat option, 2) 0 (cache_insert [1] ([4, 4], None, None, 1) 0 (cache_new 5))) \<le> 5"
  using cache_within_budget[OF mc_reach.insert[OF mc_reach.insert[OF mc_reach.new[of 5]]]] by blast

text \<open>
  C8. A cache hit is never stale: whatever was evicted, promoted, expired or swept in between, a lookup
  that returns something returns exactly what was last inserted under the key and not removed since, and
  only before its expiry.
\<close>

theorem cache_hit_current:
  assumes "mc_reach budget c M" "fst (cache_get key now c) = Some (v, expires, metadata, revision)"
  shows "M key = Some (v, expires, metadata, revision) \<and> (\<forall>ms. expires = Some ms \<longrightarrow> now < ms)"
  using mc_reach_inv[OF assms(1)] assms(2)
  by (auto simp: sound_def cache_get_def hit_of_def expired_at_def split: option.splits if_splits)

theorem cache_hit_current_witness:
  "fst (cache_get [1] 3 (cache_insert [1] ([4, 4], Some 9, None :: nat option, 1) 0 (cache_new 100))) = Some ([4, 4], Some 9, None, 1) \<and>
   (3 :: u64) < 9"
proof -
  have r: "mc_reach 100 (cache_insert [1] ([4, 4], Some 9, None :: nat option, 1) 0 (cache_new 100)) ((\<lambda>k. None)([1] \<mapsto> ([4, 4], Some 9, None, 1)))"
    by (intro mc_reach.insert mc_reach.new)
  have g: "fst (cache_get [1] 3 (cache_insert [1] ([4, 4], Some 9, None :: nat option, 1) 0 (cache_new 100))) = Some ([4, 4], Some 9, None, 1)"
    by (simp add: cache_insert_def cache_new_def entry_size_def evict_to_limit.simps cache_get_def expired_at_def hit_of_def)
  from cache_hit_current[OF r g] g show ?thesis by simp
qed



definition ttl_round :: "nat mem_cache \<Rightarrow> nat mem_cache" where
  "ttl_round c = snd (cache_get [1] 10 (cache_insert [1] ([2], Some 5, None, 1) 0 c))"

text \<open>
  C33. The queues are not bounded by the entries. A lookup that finds an expired entry drops it without
  counting its slot as stale, so that writing a key with an expiry and reading it after that leaves one
  more slot behind each time, and no later compaction is due: after \<open>n\<close> rounds the cache is empty and
  Small holds \<open>n\<close> slots.
\<close>

theorem expired_reads_leak_slots:
  "mc_small ((ttl_round ^^ n) (cache_new 1000)) = replicate n [1] \<and>
   om_size (mc_entries ((ttl_round ^^ n) (cache_new 1000))) = 0 \<and> mc_stale_slots ((ttl_round ^^ n) (cache_new 1000)) = 0"
proof -
  have step: "ttl_round ((cache_new 1000)\<lparr>mc_small := replicate n [1]\<rparr>) = (cache_new 1000)\<lparr>mc_small := replicate (Suc n) [1]\<rparr>" for n
  proof -
    have "om_delete [1] om_empty = (om_empty :: (bytes, nat cache_entry) omap)" by (simp add: om_delete_absent)
    then show ?thesis
      by (simp add: ttl_round_def cache_insert_def cache_new_def entry_size_def evict_to_limit.simps cache_get_def
          expired_at_def drop_entry_def replicate_append_same)
  qed
  have "(ttl_round ^^ n) (cache_new 1000) = (cache_new 1000)\<lparr>mc_small := replicate n [1]\<rparr>" for n
    by (induction n) (simp add: cache_new_def, simp only: funpow.simps o_apply step)
  then show ?thesis by (simp add: cache_new_def)
qed

end
