(* ===== verification/Glob.thy ===== *)
theory Glob
  imports KV_Prelude
begin

text \<open>
  The glob matcher of \<^verbatim>\<open>KEYS\<close> and \<^verbatim>\<open>SCAN\<close> (\<^verbatim>\<open>glob_match\<close>, \<^verbatim>\<open>match_bracket\<close> in \<^verbatim>\<open>engine/src/store.rs\<close>): an
  iterative matcher with one backtracking point. It is compared with a reference matcher on tokens, to
  which it is equal on every key that has no \<^verbatim>\<open>*\<close> in it.
\<close>

section \<open>Model\<close>

abbreviation "b_star \<equiv> 42 :: u8"
abbreviation "b_quest \<equiv> 63 :: u8"
abbreviation "b_open \<equiv> 91 :: u8"
abbreviation "b_close \<equiv> 93 :: u8"
abbreviation "b_caret \<equiv> 94 :: u8"
abbreviation "b_bang \<equiv> 33 :: u8"
abbreviation "b_dash \<equiv> 45 :: u8"

function bracket_loop :: "bytes \<Rightarrow> u8 \<Rightarrow> nat \<Rightarrow> nat \<Rightarrow> bool \<Rightarrow> (bool \<times> nat) option" where
  "bracket_loop bracket ch class_start i matched =
     (if i \<ge> length bracket then None
      else if bracket ! i = b_close \<and> i > class_start then Some (matched, i + 1)
      else if i + 2 < length bracket \<and> bracket ! (i + 1) = b_dash \<and> bracket ! (i + 2) \<noteq> b_close
      then bracket_loop bracket ch class_start (i + 3)
             (matched \<or> (ch \<ge> bracket ! i \<and> ch \<le> bracket ! (i + 2)))
      else bracket_loop bracket ch class_start (i + 1) (matched \<or> ch = bracket ! i))"
  by pat_completeness auto
termination
  by (relation "measure (\<lambda>(bracket, ch, cs, i, m). length bracket - i)") auto

declare bracket_loop.simps [simp del]

definition match_bracket :: "bytes \<Rightarrow> u8 \<Rightarrow> bool \<times> nat" where
  "match_bracket bracket ch =
     (let negate = 1 < length bracket \<and> (bracket ! 1 = b_caret \<or> bracket ! 1 = b_bang);
          class_start = (if negate then 2 else 1)
      in case bracket_loop bracket ch class_start class_start False of
           None \<Rightarrow> (ch = b_open, 1)
         | Some (matched, i) \<Rightarrow> (if negate then \<not> matched else matched, i))"

lemma bracket_loop_bounds: "bracket_loop br ch cs i m = Some (r, j) \<Longrightarrow> i < j \<and> j \<le> length br"
  by (induction br ch cs i m rule: bracket_loop.induct) (subst (asm) (3) bracket_loop.simps, auto split: if_splits)

lemma bracket_loop_len:
  "map_option snd (bracket_loop br ch cs i m) = map_option snd (bracket_loop br ch' cs i m')"
proof (induction br ch cs i m arbitrary: m' rule: bracket_loop.induct)
  case (1 br ch cs i m)
  show ?case using 1 by (subst (1 2) bracket_loop.simps) auto
qed

lemma match_bracket_pos [simp]: "0 < snd (match_bracket br ch)"
  using bracket_loop_bounds[of br ch] by (fastforce simp: match_bracket_def Let_def split: option.split)

lemma match_bracket_le: "br \<noteq> [] \<Longrightarrow> snd (match_bracket br ch) \<le> length br"
  using bracket_loop_bounds[of br ch] by (fastforce simp: match_bracket_def Let_def Suc_le_eq split: option.split)

lemma match_bracket_len: "snd (match_bracket br ch) = snd (match_bracket br ch')"
  using bracket_loop_len[of br ch _ _ False ch' False]
  by (auto simp: match_bracket_def Let_def split: option.split) (metis option.inject option.simps(3) option.simps(8,9) snd_conv)+

text \<open>
  The matching loop. \<open>star_pi\<close> is \<open>None\<close> for \<^verbatim>\<open>usize::MAX\<close>; the position \<^verbatim>\<open>si\<close> in the key is \<open>star_si + d\<close>.
\<close>

fun skip_stars :: "bytes \<Rightarrow> bool" where
  "skip_stars [] = True"
| "skip_stars (b # p) = (b = b_star \<and> skip_stars p)"

function glob_loop :: "bytes \<Rightarrow> bytes \<Rightarrow> nat \<Rightarrow> nat option \<Rightarrow> nat \<Rightarrow> nat \<Rightarrow> bool" where
  "glob_loop p s pi star_pi star_si d =
     (let si = star_si + d in
      if si < length s
      then if pi < length p \<and> p ! pi = b_open
           then let (ok, consumed) = match_bracket (drop pi p) (s ! si)
                in if ok then glob_loop p s (pi + consumed) star_pi star_si (d + 1)
                   else (case star_pi of
                           Some sp \<Rightarrow> glob_loop p s (sp + 1) (Some sp) (star_si + 1) 0
                         | None \<Rightarrow> False)
           else if pi < length p \<and> (p ! pi = b_quest \<or> p ! pi = s ! si)
           then glob_loop p s (pi + 1) star_pi star_si (d + 1)
           else if pi < length p \<and> p ! pi = b_star
           then glob_loop p s (pi + 1) (Some pi) si 0
           else (case star_pi of
                   Some sp \<Rightarrow> glob_loop p s (sp + 1) (Some sp) (star_si + 1) 0
                 | None \<Rightarrow> False)
      else pi \<le> length p \<and> skip_stars (drop pi p))"
  by pat_completeness auto
termination
proof (relation "measures [\<lambda>(p, s, pi, star_pi, star_si, d). length s - star_si, \<lambda>(p, s, pi, star_pi, star_si, d). length p - pi]", goal_cases)
  case (2 p s pi star_pi star_si d si x ok consumed)
  then have "0 < consumed" using match_bracket_pos by (metis snd_conv)
  then show ?case using 2 by auto
qed auto

declare glob_loop.simps [simp del]

definition literal :: "u8 \<Rightarrow> bool" where
  "literal b \<longleftrightarrow> b \<noteq> b_star \<and> b \<noteq> b_quest \<and> b \<noteq> b_open"

definition meta_pos :: "bytes \<Rightarrow> nat option" where
  "meta_pos p = (let n = length (takeWhile literal p)
                 in if n < length p then Some n else None)"

definition glob_match :: "bytes \<Rightarrow> bytes \<Rightarrow> bool" where
  "glob_match p s =
     (case meta_pos p of
        None \<Rightarrow> p = s
      | Some n \<Rightarrow>
          if n = 0 then glob_loop p s 0 None 0 0
          else if length s < n \<or> take n s \<noteq> take n p then False
          else if n + 1 = length p \<and> p ! n = b_star then True
          else glob_loop p s n None n 0)"

section \<open>Reference matcher\<close>

datatype gtok = One "u8 \<Rightarrow> bool" | Star

function tokens :: "bytes \<Rightarrow> gtok list" where
  "tokens [] = []"
| "tokens (b # p) =
     (if b = b_open then One (\<lambda>ch. fst (match_bracket (b # p) ch)) # tokens (drop (snd (match_bracket (b # p) 0)) (b # p))
      else if b = b_quest then One (\<lambda>ch. True) # tokens p
      else if b = b_star then Star # tokens p
      else One (\<lambda>ch. ch = b) # tokens p)"
  by pat_completeness auto
termination
  by (relation "measure length") (auto simp: diff_less)

fun gmatch :: "gtok list \<Rightarrow> bytes \<Rightarrow> bool" where
  "gmatch [] s = (s = [])"
| "gmatch (One f # ts) s = (case s of [] \<Rightarrow> False | c # s' \<Rightarrow> f c \<and> gmatch ts s')"
| "gmatch (Star # ts) s = (\<exists>n \<le> length s. gmatch ts (drop n s))"

lemma gmatch_star_absorb: "gmatch (Star # ts) (drop n s) \<Longrightarrow> gmatch (Star # ts) s"
proof -
  assume "gmatch (Star # ts) (drop n s)"
  then obtain m where m: "m \<le> length s - n" "gmatch ts (drop (m + n) s)" by auto
  show ?thesis
  proof (cases "n \<le> length s")
    case True
    then show ?thesis using m by (auto intro!: exI[of _ "m + n"])
  next
    case False
    then show ?thesis using m by (auto intro!: exI[of _ "length s"])
  qed
qed

lemma gmatch_star_Cons: "gmatch (Star # ts) (c # s) \<longleftrightarrow> gmatch ts (c # s) \<or> gmatch (Star # ts) s"
proof
  assume "gmatch (Star # ts) (c # s)"
  then obtain n where "n \<le> Suc (length s)" "gmatch ts (drop n (c # s))" by auto
  then show "gmatch ts (c # s) \<or> gmatch (Star # ts) s" by (cases n) auto
next
  assume "gmatch ts (c # s) \<or> gmatch (Star # ts) s"
  then show "gmatch (Star # ts) (c # s)"
  proof
    assume "gmatch ts (c # s)"
    then show ?thesis by (auto intro!: exI[of _ 0])
  next
    assume "gmatch (Star # ts) s"
    then show ?thesis using gmatch_star_absorb[of ts 1 "c # s"] by simp
  qed
qed

fun seg_match :: "gtok list \<Rightarrow> bytes \<Rightarrow> bool" where
  "seg_match [] u = (u = [])"
| "seg_match (One f # ts) u = (case u of [] \<Rightarrow> False | c # u' \<Rightarrow> f c \<and> seg_match ts u')"
| "seg_match (Star # ts) u = False"

lemma seg_match_append: "seg_match seg u \<Longrightarrow> gmatch (seg @ ts) (u @ s) = gmatch ts s"
  by (induction seg u rule: seg_match.induct) (auto split: list.splits)

lemma seg_match_len: "seg_match seg u \<Longrightarrow> length u = length seg"
  by (induction seg u rule: seg_match.induct) (auto split: list.splits)

lemma seg_match_snoc: "seg_match seg u \<Longrightarrow> f c \<Longrightarrow> seg_match (seg @ [One f]) (u @ [c])"
  by (induction seg u rule: seg_match.induct) (auto split: list.splits)

text \<open>A run of single-character tokens takes exactly its length off the front.\<close>

lemma gmatch_seg_drop:
  "Star \<notin> set seg \<Longrightarrow> gmatch (seg @ ts) s \<Longrightarrow> length seg \<le> length s \<and> gmatch ts (drop (length seg) s)"
proof (induction seg arbitrary: s)
  case (Cons t seg)
  then obtain f where "t = One f" by (cases t) auto
  then show ?case using Cons by (auto split: list.splits)
qed simp

lemma seg_no_star: "seg_match seg u \<Longrightarrow> Star \<notin> set seg"
  by (induction seg u rule: seg_match.induct) (auto split: list.splits)

section \<open>Equivalence\<close>

text \<open>
  The loop's position: behind the last star, the tokens from there to the current one match what was
  read since the backtracking point. What the loop has still to decide is \<open>pending\<close>.
\<close>

fun linked :: "bytes \<Rightarrow> bytes \<Rightarrow> nat \<Rightarrow> nat option \<Rightarrow> nat \<Rightarrow> nat \<Rightarrow> bool" where
  "linked p s pi None star_si d = True"
| "linked p s pi (Some sp) star_si d =
     (\<exists>seg. tokens (drop (sp + 1) p) = seg @ tokens (drop pi p) \<and> seg_match seg (take d (drop star_si s)))"

fun pending :: "bytes \<Rightarrow> bytes \<Rightarrow> nat \<Rightarrow> nat option \<Rightarrow> nat \<Rightarrow> nat \<Rightarrow> bool" where
  "pending p s pi None star_si d = gmatch (tokens (drop pi p)) (drop (star_si + d) s)"
| "pending p s pi (Some sp) star_si d = gmatch (Star # tokens (drop (sp + 1) p)) (drop star_si s)"

lemma drop_step: "i < length s \<Longrightarrow> drop i s = s ! i # drop (Suc i) s"
  by (simp add: Cons_nth_drop_Suc)

lemma take_step: "star_si + d < length s \<Longrightarrow> take (Suc d) (drop star_si s) = take d (drop star_si s) @ [s ! (star_si + d)]"
  by (simp add: take_Suc_conv_app_nth)

text \<open>A token that takes the current character.\<close>

lemma advance:
  assumes "tokens (drop pi p) = One f # tokens (drop pi' p)" "star_si + d < length s" "f (s ! (star_si + d))"
    "linked p s pi star_pi star_si d"
  shows "linked p s pi' star_pi star_si (d + 1)" "pending p s pi' star_pi star_si (d + 1) = pending p s pi star_pi star_si d"
proof -
  show "linked p s pi' star_pi star_si (d + 1)"
  proof (cases star_pi)
    case (Some sp)
    then obtain seg where seg: "tokens (drop (sp + 1) p) = seg @ tokens (drop pi p)" "seg_match seg (take d (drop star_si s))"
      using assms(4) by auto
    have "seg_match (seg @ [One f]) (take (Suc d) (drop star_si s))"
      using take_step[OF assms(2)] seg_match_snoc[OF seg(2), of f] assms(3) by simp
    then show ?thesis using Some seg(1) assms(1) by (auto intro!: exI[of _ "seg @ [One f]"])
  qed simp
  show "pending p s pi' star_pi star_si (d + 1) = pending p s pi star_pi star_si d"
    using assms drop_step[OF assms(2)] by (cases star_pi) auto
qed

text \<open>The current token cannot take the current character: back to the star, one character further.\<close>

lemma backtrack:
  assumes "\<not> gmatch (tokens (drop pi p)) (drop (star_si + d) s)" "star_si + d < length s" "linked p s pi (Some sp) star_si d"
  shows "linked p s (sp + 1) (Some sp) (star_si + 1) 0"
    "pending p s (sp + 1) (Some sp) (star_si + 1) 0 = pending p s pi (Some sp) star_si d"
proof -
  obtain seg where seg: "tokens (drop (sp + 1) p) = seg @ tokens (drop pi p)" "seg_match seg (take d (drop star_si s))"
    using assms(3) by auto
  have "drop star_si s = take d (drop star_si s) @ drop (star_si + d) s" by (metis append_take_drop_id drop_drop add.commute)
  then have no: "\<not> gmatch (tokens (drop (sp + 1) p)) (drop star_si s)"
    using seg_match_append[OF seg(2)] assms(1) seg(1) by metis
  have "drop star_si s = s ! star_si # drop (Suc star_si) s" using assms(2) by (intro drop_step) simp
  then have "gmatch (Star # ts) (drop star_si s) = (gmatch ts (drop star_si s) \<or> gmatch (Star # ts) (drop (Suc star_si) s))" for ts
    using gmatch_star_Cons by metis
  then show "pending p s (sp + 1) (Some sp) (star_si + 1) 0 = pending p s pi (Some sp) star_si d"
    using no by simp
qed (auto intro!: exI[of _ "[]"])

text \<open>A star becomes the backtracking point, and the earlier one is no longer needed.\<close>

lemma new_star:
  assumes "tokens (drop pi p) = Star # tokens (drop (pi + 1) p)" "linked p s pi star_pi star_si d" "star_si + d \<le> length s"
  shows "linked p s (pi + 1) (Some pi) (star_si + d) 0"
    "pending p s (pi + 1) (Some pi) (star_si + d) 0 = pending p s pi star_pi star_si d"
proof -
  show "linked p s (pi + 1) (Some pi) (star_si + d) 0" by (auto intro!: exI[of _ "[]"])
  show "pending p s (pi + 1) (Some pi) (star_si + d) 0 = pending p s pi star_pi star_si d"
  proof (cases star_pi)
    case (Some sp)
    let ?ts = "tokens (drop (pi + 1) p)" and ?x = "drop star_si s"
    obtain seg where seg: "tokens (drop (sp + 1) p) = seg @ Star # ?ts" "seg_match seg (take d ?x)"
      using assms(1,2) Some by auto
    have dl: "length seg = d" using seg_match_len[OF seg(2)] assms(3) by simp
    have x: "?x = take d ?x @ drop (star_si + d) s" by (metis append_take_drop_id drop_drop add.commute)
    have "gmatch (Star # seg @ Star # ?ts) ?x \<longleftrightarrow> gmatch (Star # ?ts) (drop (star_si + d) s)"
    proof
      assume "gmatch (Star # ?ts) (drop (star_si + d) s)"
      then have "gmatch (seg @ Star # ?ts) ?x" using seg_match_append[OF seg(2)] x by metis
      then show "gmatch (Star # seg @ Star # ?ts) ?x" by (auto intro!: exI[of _ 0])
    next
      assume "gmatch (Star # seg @ Star # ?ts) ?x"
      then obtain n where "gmatch (seg @ Star # ?ts) (drop n ?x)" by auto
      from gmatch_seg_drop[OF seg_no_star[OF seg(2)] this] have "gmatch (Star # ?ts) (drop d (drop n ?x))" using dl by simp
      then have "gmatch (Star # ?ts) (drop n (drop (star_si + d) s))" by (simp add: ac_simps)
      then show "gmatch (Star # ?ts) (drop (star_si + d) s)" by (rule gmatch_star_absorb)
    qed
    then show ?thesis using Some seg(1) by simp
  qed (use assms(1) in simp)
qed

lemma gmatch_Nil: "gmatch ts [] \<longleftrightarrow> set ts \<subseteq> {Star}"
proof (induction ts)
  case (Cons t ts)
  then show ?case by (cases t) auto
qed simp

lemma tokens_skip_stars: "set (tokens p) \<subseteq> {Star} \<longleftrightarrow> skip_stars p"
  by (induction p rule: tokens.induct) auto

lemma at_end:
  assumes "linked p s pi star_pi star_si d" "star_si + d = length s" "pi \<le> length p"
  shows "pending p s pi star_pi star_si d = skip_stars (drop pi p)"
proof (cases star_pi)
  case None
  then show ?thesis using assms(2) by (simp add: gmatch_Nil tokens_skip_stars)
next
  case (Some sp)
  let ?x = "drop star_si s"
  obtain seg where seg: "tokens (drop (sp + 1) p) = seg @ tokens (drop pi p)" "seg_match seg (take d ?x)"
    using assms(1) Some by auto
  have x: "take d ?x = ?x" "length ?x = d" using assms(2) by auto
  have dl: "length seg = d" using seg_match_len[OF seg(2)] x by simp
  have "gmatch (Star # seg @ tokens (drop pi p)) ?x \<longleftrightarrow> gmatch (tokens (drop pi p)) []"
  proof
    assume "gmatch (Star # seg @ tokens (drop pi p)) ?x"
    then obtain n where n: "gmatch (seg @ tokens (drop pi p)) (drop n ?x)" "n \<le> d" using x by auto
    from gmatch_seg_drop[OF seg_no_star[OF seg(2)] n(1)] show "gmatch (tokens (drop pi p)) []" using dl x by auto
  next
    assume "gmatch (tokens (drop pi p)) []"
    then have "gmatch (seg @ tokens (drop pi p)) ?x" using seg_match_append[OF seg(2), of _ "[]"] x by simp
    then show "gmatch (Star # seg @ tokens (drop pi p)) ?x" by (auto intro!: exI[of _ 0])
  qed
  then show ?thesis using Some seg(1) by (simp add: gmatch_Nil tokens_skip_stars)
qed

lemma tokens_at:
  assumes "pi < length p"
  shows "tokens (drop pi p) =
     (if p ! pi = b_open
      then One (\<lambda>ch. fst (match_bracket (drop pi p) ch)) # tokens (drop (pi + snd (match_bracket (drop pi p) 0)) p)
      else if p ! pi = b_quest then One (\<lambda>ch. True) # tokens (drop (pi + 1) p)
      else if p ! pi = b_star then Star # tokens (drop (pi + 1) p)
      else One (\<lambda>ch. ch = p ! pi) # tokens (drop (pi + 1) p))"
  using tokens.simps(2)[of "p ! pi" "drop (Suc pi) p", folded drop_step[OF assms]]
  by (simp only: drop_drop add.commute Suc_eq_plus1)

lemma stuck:
  assumes "\<not> gmatch (tokens (drop pi p)) (drop (star_si + d) s)" "star_si + d < length s" "linked p s pi star_pi star_si d"
    "\<And>sp. star_pi = Some sp \<Longrightarrow> linked p s (sp + 1) (Some sp) (star_si + 1) 0 \<Longrightarrow>
       glob_loop p s (sp + 1) (Some sp) (star_si + 1) 0 = pending p s (sp + 1) (Some sp) (star_si + 1) 0"
  shows "(case star_pi of Some sp \<Rightarrow> glob_loop p s (sp + 1) (Some sp) (star_si + 1) 0 | None \<Rightarrow> False) =
    pending p s pi star_pi star_si d"
proof (cases star_pi)
  case None
  then show ?thesis using assms(1) by simp
next
  case (Some sp)
  then show ?thesis using backtrack[OF assms(1,2), of sp] assms(3) assms(4)[OF Some] by simp
qed

definition star_in :: "bytes \<Rightarrow> nat option \<Rightarrow> bool" where
  "star_in p star_pi \<longleftrightarrow> (case star_pi of Some sp \<Rightarrow> sp < length p | None \<Rightarrow> True)"

declare linked.simps [simp del] pending.simps [simp del]

lemma glob_loop_pending:
  assumes "b_star \<notin> set s" "linked p s pi star_pi star_si d" "star_si + d \<le> length s" "pi \<le> length p" "star_in p star_pi"
  shows "glob_loop p s pi star_pi star_si d = pending p s pi star_pi star_si d"
  using assms
proof (induction p s pi star_pi star_si d rule: glob_loop.induct)
  case (1 p s pi star_pi star_si d)
  show ?case
  proof (cases "star_si + d < length s")
    case False
    then show ?thesis using at_end[OF 1(7)] 1(8,9) by (subst glob_loop.simps) simp
  next
    case lt: True
    let ?c = "s ! (star_si + d)"
    have c: "?c \<noteq> b_star" using 1(6) lt by (metis nth_mem)
    have dr: "drop (star_si + d) s = ?c # drop (Suc (star_si + d)) s" by (rule drop_step[OF lt])
    have sp: "sp + 1 \<le> length p" "star_in p (Some sp)" if "star_pi = Some sp" for sp
      using 1(10) that by (auto simp: star_in_def)
    have lt1: "star_si + 1 + 0 \<le> length s" "star_si + (d + 1) \<le> length s" using lt by auto
    consider (br) "pi < length p" "p ! pi = b_open" | (one) "pi < length p" "p ! pi \<noteq> b_open" "p ! pi = b_quest \<or> p ! pi = ?c"
      | (st) "pi < length p" "p ! pi = b_star" "p ! pi \<noteq> ?c"
      | (no) "pi < length p \<Longrightarrow> p ! pi \<noteq> b_open \<and> p ! pi \<noteq> b_quest \<and> p ! pi \<noteq> ?c \<and> p ! pi \<noteq> b_star"
      by blast
    then show ?thesis
    proof cases
      case br
      let ?m = "match_bracket (drop pi p) ?c"
      have t: "tokens (drop pi p) = One (\<lambda>ch. fst (match_bracket (drop pi p) ch)) # tokens (drop (pi + snd ?m) p)"
        using tokens_at[OF br(1)] br match_bracket_len[of "drop pi p" 0 ?c] by simp
      have le: "pi + snd ?m \<le> length p" using match_bracket_le[of "drop pi p" ?c] br(1) by simp
      show ?thesis
      proof (cases "fst ?m")
        case True
        note a = advance[OF t lt True 1(7)]
        have "glob_loop p s (pi + snd ?m) star_pi star_si (d + 1) = pending p s (pi + snd ?m) star_pi star_si (d + 1)"
          by (rule 1(1)[OF refl lt _ refl _ _ 1(6) a(1) lt1(2) le 1(10)]) (use br True in \<open>auto simp: prod_eq_iff\<close>)
        then show ?thesis using lt a(2) br True by (subst glob_loop.simps) (simp add: Let_def case_prod_beta)
      next
        case False
        have "\<not> gmatch (tokens (drop pi p)) (drop (star_si + d) s)" using False t dr by simp
        moreover have "glob_loop p s (sp + 1) (Some sp) (star_si + 1) 0 = pending p s (sp + 1) (Some sp) (star_si + 1) 0"
          if "star_pi = Some sp" "linked p s (sp + 1) (Some sp) (star_si + 1) 0" for sp
          by (rule 1(2)[OF refl lt _ refl _ _ that(1) 1(6) that(2) lt1(1) sp[OF that(1)], of "fst ?m" "snd ?m"])
            (use br False in \<open>auto simp: prod_eq_iff\<close>)
        ultimately show ?thesis using stuck[OF _ lt 1(7)] lt br False by (subst glob_loop.simps) (simp add: Let_def case_prod_beta)
      qed
    next
      case one
      then obtain f where "tokens (drop pi p) = One f # tokens (drop (pi + 1) p)" "f ?c"
        using tokens_at[OF one(1)] c by (auto split: if_splits)
      note a = advance[OF this(1) lt this(2) 1(7)]
      have "glob_loop p s (pi + 1) star_pi star_si (d + 1) = pending p s (pi + 1) star_pi star_si (d + 1)"
        by (rule 1(3)[OF refl lt _ _ 1(6) a(1) lt1(2) _ 1(10)]) (use one in auto)
      then show ?thesis using lt a(2) one by (subst glob_loop.simps) (simp add: Let_def)
    next
      case st
      then have t: "tokens (drop pi p) = Star # tokens (drop (pi + 1) p)" using tokens_at[OF st(1)] by simp
      note a = new_star[OF t 1(7,8)]
      have "glob_loop p s (pi + 1) (Some pi) (star_si + d) 0 = pending p s (pi + 1) (Some pi) (star_si + d) 0"
        by (rule 1(4)[OF refl lt _ _ _ 1(6) a(1)]) (use st lt in \<open>auto simp: star_in_def\<close>)
      then show ?thesis using lt a(2) st by (subst glob_loop.simps) (simp add: Let_def)
    next
      case no
      have "\<not> gmatch (tokens (drop pi p)) (drop (star_si + d) s)"
        using no dr tokens_at[of pi p] by (cases "pi < length p") auto
      moreover have "glob_loop p s (sp + 1) (Some sp) (star_si + 1) 0 = pending p s (sp + 1) (Some sp) (star_si + 1) 0"
        if "star_pi = Some sp" "linked p s (sp + 1) (Some sp) (star_si + 1) 0" for sp
        by (rule 1(5)[OF refl lt _ _ _ that(1) 1(6) that(2) lt1(1) sp[OF that(1)]]) (use no in auto)
      ultimately show ?thesis using stuck[OF _ lt 1(7)] lt no by (subst glob_loop.simps) (auto simp: Let_def)
    qed
  qed
qed

lemma gmatch_literals:
  "list_all literal l \<Longrightarrow> gmatch (tokens (l @ p)) s \<longleftrightarrow> length l \<le> length s \<and> take (length l) s = l \<and> gmatch (tokens p) (drop (length l) s)"
proof (induction l arbitrary: s)
  case (Cons b l)
  then show ?case by (cases s) (auto simp: literal_def)
qed simp

lemma meta_pos_split:
  assumes "meta_pos p = Some n"
  shows "n < length p" "list_all literal (take n p)"
proof -
  have n: "n = length (takeWhile literal p)" "n < length p" using assms by (auto simp: meta_pos_def Let_def split: if_splits)
  have "take n p = takeWhile literal p" unfolding n(1) by (rule takeWhile_eq_take[symmetric])
  then show "n < length p" "list_all literal (take n p)"
    using n(2) set_takeWhileD[of _ literal p] by (auto simp: list_all_iff)
qed

lemma meta_pos_none:
  assumes "meta_pos p = None"
  shows "list_all literal p"
proof -
  have "length (takeWhile literal p) = length p"
    using assms length_takeWhile_le[of literal p] by (auto simp: meta_pos_def Let_def split: if_splits)
  then have "takeWhile literal p = p" using takeWhile_eq_take[of literal p] by simp
  then show ?thesis using set_takeWhileD[of _ literal p] by (auto simp: list_all_iff)
qed

section \<open>Properties\<close>

text \<open>
  C13. On a key without \<^verbatim>\<open>*\<close> the iterative matcher, with its literal-prefix shortcut and its single
  backtracking point, decides exactly the reference semantics of the pattern: stars match any run,
  question marks and bracket classes one character.
\<close>

theorem glob_match_reference:
  assumes "b_star \<notin> set s"
  shows "glob_match p s \<longleftrightarrow> gmatch (tokens p) s"
proof (cases "meta_pos p")
  case None
  have "p = s \<longleftrightarrow> length p \<le> length s \<and> take (length p) s = p \<and> drop (length p) s = []"
    by (metis append.right_neutral append_take_drop_id drop_all order_refl take_all)
  then show ?thesis using gmatch_literals[OF meta_pos_none[OF None], of "[]" s] None by (simp add: glob_match_def)
next
  case (Some n)
  note m = meta_pos_split[OF Some]
  have tk: "gmatch (tokens p) s \<longleftrightarrow> n \<le> length s \<and> take n s = take n p \<and> gmatch (tokens (drop n p)) (drop n s)"
    using gmatch_literals[OF m(2), of "drop n p" s] m(1) by simp
  have loop: "glob_loop p s n None n 0 = gmatch (tokens (drop n p)) (drop n s)" if "n \<le> length s"
    using glob_loop_pending[OF assms, of p n None n 0] that m(1) by (simp add: linked.simps pending.simps star_in_def)
  have star: "gmatch (tokens (drop n p)) (drop n s)" if "n + 1 = length p" "p ! n = b_star"
  proof -
    have "tokens (drop n p) = [Star]" using that tokens_at[OF m(1)] by simp
    then show ?thesis by (auto intro!: exI[of _ "length s - n"])
  qed
  show ?thesis
  proof (cases "n \<le> length s \<and> take n s = take n p")
    case False
    then have "\<not> glob_match p s" using Some by (auto simp: glob_match_def)
    then show ?thesis using tk False by blast
  next
    case True
    then have "glob_match p s \<longleftrightarrow> (n \<noteq> 0 \<and> n + 1 = length p \<and> p ! n = b_star) \<or> glob_loop p s n None n 0"
      using Some by (cases "n = 0") (auto simp: glob_match_def)
    then show ?thesis using tk True loop star by blast
  qed
qed

theorem glob_match_reference_witness:
  "glob_match [97, 42, 98] [97, 120, 98] \<longleftrightarrow> gmatch (tokens [97, 42, 98]) [97, 120, 98]"
  by (rule glob_match_reference) simp

text \<open>
  C32. A key that begins with \<^verbatim>\<open>*\<close> is invisible to the pattern \<^verbatim>\<open>*\<close> unless it is that one character: the
  loop compares the pattern byte with the key byte before it looks for a star, and takes the star for a
  literal.
\<close>

theorem star_pattern_misses_star_keys:
  "\<not> glob_match [b_star] (b_star # b # s) \<and> gmatch (tokens [b_star]) (b_star # b # s)"
proof -
  have "\<not> glob_loop [b_star] (b_star # b # s) 0 None 0 0"
    by (subst glob_loop.simps, simp, subst glob_loop.simps, simp)
  then have "\<not> glob_match [b_star] (b_star # b # s)" by (simp add: glob_match_def meta_pos_def literal_def)
  moreover have "gmatch (tokens [b_star]) (b_star # b # s)"
    by (auto intro!: exI[of _ "length (b_star # b # s)"])
  ultimately show ?thesis ..
qed

end
