(* ===== verification/Decimal.thy ===== *)
theory Decimal
  imports KV_Prelude
begin

text \<open>
  Decimal numbers as bytes: the hand-written readers \<^verbatim>\<open>atoi_u64\<close> and \<^verbatim>\<open>atoi_i64\<close> of \<^verbatim>\<open>proto/src/command.rs\<close>, the
  standard library's \<^verbatim>\<open>str::parse\<close> and \<^verbatim>\<open>to_string\<close> that the store uses for counters, and the names of data
  files. An \<^verbatim>\<open>i64\<close> is a 64-bit word read by \<open>sint\<close>.
\<close>

section \<open>Model\<close>

type_synonym i64 = "64 word"

definition is_digit :: "u8 \<Rightarrow> bool" where
  "is_digit b \<longleftrightarrow> b - 48 \<le> 9"

definition checked_step :: "u64 \<Rightarrow> u8 \<Rightarrow> u64 option" where
  "checked_step n d = (case checked_mul64 n 10 of None \<Rightarrow> None | Some m \<Rightarrow> checked_add64 m (ucast d))"

fun atoi_loop :: "u64 \<Rightarrow> bytes \<Rightarrow> u64 option" where
  "atoi_loop n [] = Some n"
| "atoi_loop n (b # bs) =
     (let d = b - 48 in
      if d > 9 then None
      else case checked_step n d of None \<Rightarrow> None | Some n' \<Rightarrow> atoi_loop n' bs)"

definition atoi_u64 :: "bytes \<Rightarrow> u64 option" where
  "atoi_u64 b = (if b = [] then None else atoi_loop 0 b)"

abbreviation i64_max :: nat where
  "i64_max \<equiv> 9223372036854775807"

definition split_sign :: "bytes \<Rightarrow> bool \<times> bytes" where
  "split_sign b =
     (case b of [] \<Rightarrow> (False, []) | c # ds \<Rightarrow> if c = 45 then (True, ds) else if c = 43 then (False, ds) else (False, b))"

definition atoi_i64 :: "bytes \<Rightarrow> i64 option" where
  "atoi_i64 b =
     (if b = [] then None
      else let (neg, digits) = split_sign b
           in if digits = [] then None
              else case atoi_loop 0 digits of
                     None \<Rightarrow> None
                   | Some n \<Rightarrow>
                       if neg then (if unat n > i64_max + 1 then None else Some (- n))
                       else (if unat n \<le> i64_max then Some n else None))"

text \<open>Number values, as the standard library documents \<^verbatim>\<open>str::parse\<close> and \<^verbatim>\<open>to_string\<close>.\<close>

fun dec_val :: "nat \<Rightarrow> bytes \<Rightarrow> nat" where
  "dec_val n [] = n"
| "dec_val n (b # bs) = dec_val (10 * n + unat (b - 48)) bs"

definition str_parse_i64 :: "bytes \<Rightarrow> i64 option" where
  "str_parse_i64 b =
     (let (neg, ds) = split_sign b; v = (if neg then - int (dec_val 0 ds) else int (dec_val 0 ds))
      in if ds \<noteq> [] \<and> list_all is_digit ds \<and> - (2 ^ 63) \<le> v \<and> v < 2 ^ 63 then Some (word_of_int v) else None)"

fun dec_of_nat :: "nat \<Rightarrow> bytes" where
  "dec_of_nat n = (if n < 10 then [of_nat (48 + n)] else dec_of_nat (n div 10) @ [of_nat (48 + n mod 10)])"

declare dec_of_nat.simps [simp del]

definition i64_to_string :: "i64 \<Rightarrow> bytes" where
  "i64_to_string w = (if sint w < 0 then 45 # dec_of_nat (nat (- sint w)) else dec_of_nat (nat (sint w)))"

definition pad_left :: "nat \<Rightarrow> bytes \<Rightarrow> bytes" where
  "pad_left w b = replicate (w - length b) 48 @ b"

definition data_filename :: "u32 \<Rightarrow> bytes" where
  "data_filename file_id = ascii ''data-'' @ pad_left 10 (dec_of_nat (unat file_id)) @ ascii ''.log''"

definition strip_prefix :: "bytes \<Rightarrow> bytes \<Rightarrow> bytes option" where
  "strip_prefix p b = (if take (length p) b = p then Some (drop (length p) b) else None)"

definition strip_suffix :: "bytes \<Rightarrow> bytes \<Rightarrow> bytes option" where
  "strip_suffix q b = (if length q \<le> length b \<and> drop (length b - length q) b = q then Some (take (length b - length q) b) else None)"

definition str_parse_u32 :: "bytes \<Rightarrow> u32 option" where
  "str_parse_u32 b =
     (let ds = (case b of c # r \<Rightarrow> if c = 43 then r else b | [] \<Rightarrow> [])
      in if ds \<noteq> [] \<and> list_all is_digit ds \<and> dec_val 0 ds \<le> u32_max then Some (of_nat (dec_val 0 ds)) else None)"

text \<open>What \<^verbatim>\<open>list_data_files\<close> makes of a name.\<close>

definition file_id_of_name :: "bytes \<Rightarrow> u32 option" where
  "file_id_of_name name =
     (case strip_prefix (ascii ''data-'') name of
        None \<Rightarrow> None
      | Some rest \<Rightarrow> (case strip_suffix (ascii ''.log'') rest of None \<Rightarrow> None | Some num \<Rightarrow> str_parse_u32 num))"

section \<open>Reading digits\<close>

lemma dec_val_mono: "n \<le> m \<Longrightarrow> dec_val n bs \<le> dec_val m bs"
  by (induction bs arbitrary: n m) auto

lemma dec_val_ge: "n \<le> dec_val n bs"
proof (induction bs arbitrary: n)
  case (Cons b bs)
  show ?case using Cons[of "10 * n + unat (b - 48)"] by simp
qed simp

lemma dec_val_append: "dec_val n (xs @ ys) = dec_val (dec_val n xs) ys"
  by (induction xs arbitrary: n) auto

lemma unat_digit: "is_digit b \<longleftrightarrow> unat (b - 48) \<le> 9"
  by (simp add: is_digit_def word_le_nat_alt)

lemma unat_ucast8: "unat (ucast (d :: u8) :: u64) = unat d"
  by transfer (simp add: take_bit_take_bit min_def)

lemma checked_step_exact:
  "unat d \<le> 9 \<Longrightarrow> checked_step n d = (if 10 * unat n + unat d \<le> u64_max then Some (of_nat (10 * unat n + unat d)) else None)"
proof -
  assume d: "unat d \<le> 9"
  have u: "unat (ucast d :: u64) = unat d" by (rule unat_ucast8)
  have eq: "n * 10 + ucast d = of_nat (10 * unat n + unat d)" by (simp add: ac_simps)
  show ?thesis
  proof (cases "unat n * 10 \<le> u64_max")
    case True
    then have "unat (n * 10) = 10 * unat n" by (simp add: unat_word_ariths)
    then show ?thesis using True u d unfolding eq[symmetric]
      by (auto simp: checked_step_def checked_mul64_def checked_add64_def)
  next
    case False
    then show ?thesis using d by (simp add: checked_step_def checked_mul64_def)
  qed
qed

lemma atoi_loop_exact:
  "atoi_loop n bs = (if list_all is_digit bs \<and> dec_val (unat n) bs \<le> u64_max then Some (of_nat (dec_val (unat n) bs)) else None)"
proof (induction bs arbitrary: n)
  case (Cons b bs)
  let ?d = "b - 48" and ?m = "10 * unat n + unat (b - 48)"
  show ?case
  proof (cases "is_digit b \<and> ?m \<le> u64_max")
    case True
    then have st: "checked_step n ?d = Some (of_nat ?m)" using checked_step_exact[of ?d n] by (simp add: unat_digit)
    have "atoi_loop (of_nat ?m) bs = (if list_all is_digit bs \<and> dec_val ?m bs \<le> u64_max then Some (of_nat (dec_val ?m bs)) else None)"
      using Cons[of "of_nat ?m"] unat_u64_of_nat[of ?m] True by (simp only:)
    moreover have "\<not> ?d > 9" using True by (auto simp: is_digit_def not_less)
    ultimately show ?thesis using True st by (simp only: atoi_loop.simps Let_def if_False option.case list.pred_inject dec_val.simps simp_thms)
  next
    case False
    then show ?thesis using checked_step_exact[of ?d n] dec_val_ge[of ?m bs]
      by (auto simp: unat_digit is_digit_def word_le_nat_alt word_less_nat_alt Let_def)
  qed
qed (simp add: unat_u64_le)

section \<open>Printing digits\<close>

lemma is_digit_print: "n < 10 \<Longrightarrow> is_digit (of_nat (48 + n))" "n < 10 \<Longrightarrow> unat ((of_nat (48 + n) :: u8) - 48) = n"
proof -
  assume n: "n < 10"
  have "(of_nat (48 + n) :: u8) - 48 = of_nat n" by simp
  then have "unat ((of_nat (48 + n) :: u8) - 48) = n" using n by (simp add: unat_of_nat)
  then show "is_digit (of_nat (48 + n))" "unat ((of_nat (48 + n) :: u8) - 48) = n" using n by (auto simp: unat_digit)
qed

lemma dec_of_nat_digits: "dec_of_nat n \<noteq> [] \<and> list_all is_digit (dec_of_nat n) \<and> dec_val 0 (dec_of_nat n) = n"
proof (induction n rule: dec_of_nat.induct)
  case (1 n)
  show ?case
  proof (cases "n < 10")
    case True
    then show ?thesis using is_digit_print[OF True] by (subst (1 2 3) dec_of_nat.simps) simp
  next
    case False
    have m: "n mod 10 < 10" by simp
    have "dec_val 0 (dec_of_nat n) = 10 * (n div 10) + n mod 10"
      using False 1[OF False] is_digit_print(2)[OF m] by (subst dec_of_nat.simps) (simp add: dec_val_append)
    then show ?thesis using False 1[OF False] is_digit_print(1)[OF m] by (subst (1 2) dec_of_nat.simps) simp
  qed
qed

lemma dec_of_nat_no_sign: "\<exists>b bs. dec_of_nat n = b # bs \<and> b \<noteq> 45 \<and> b \<noteq> 43"
proof -
  obtain b bs where b: "dec_of_nat n = b # bs" using dec_of_nat_digits[of n] by (cases "dec_of_nat n") auto
  then have "is_digit b" using dec_of_nat_digits[of n] by simp
  then have "b \<noteq> 45" "b \<noteq> 43" by (auto simp: is_digit_def)
  then show ?thesis using b by blast
qed

lemma split_sign_print: "split_sign (dec_of_nat n) = (False, dec_of_nat n)" "split_sign (45 # dec_of_nat n) = (True, dec_of_nat n)"
  using dec_of_nat_no_sign[of n] by (auto simp: split_sign_def)

lemma i64_roundtrip: "str_parse_i64 (i64_to_string w) = Some w"
proof -
  have r: "- (2 ^ 63) \<le> sint w" "sint w < 2 ^ 63" using sint_ge[of w] sint_lt[of w] by simp_all
  show ?thesis using r dec_of_nat_digits
    by (cases "sint w < 0") (simp_all add: str_parse_i64_def i64_to_string_def split_sign_print)
qed

lemma atoi_i64_std: "atoi_i64 b = str_parse_i64 b"
proof -
  obtain neg ds where s: "split_sign b = (neg, ds)" by fastforce
  let ?n = "dec_val 0 ds"
  have e: "b = [] \<Longrightarrow> ds = []" using s by (auto simp: split_sign_def)
  have l: "atoi_loop 0 ds = (if list_all is_digit ds \<and> ?n \<le> u64_max then Some (of_nat ?n) else None)"
    using atoi_loop_exact[of 0 ds] by simp
  show ?thesis
  proof (cases "ds \<noteq> [] \<and> list_all is_digit ds \<and> ?n \<le> u64_max")
    case True
    have u: "unat (of_nat ?n :: u64) = ?n" using unat_u64_of_nat True by blast
    have "b \<noteq> []" using True e by auto
    then show ?thesis using True l u by (auto simp: atoi_i64_def str_parse_i64_def s)
  next
    case False
    then show ?thesis using l e by (auto simp: atoi_i64_def str_parse_i64_def s)
  qed
qed

lemma dec_val_zeros: "dec_val 0 (replicate k 48 @ bs) = dec_val 0 bs"
  by (induction k) auto

lemma data_filename_roundtrip: "file_id_of_name (data_filename i) = Some i"
proof -
  let ?num = "pad_left 10 (dec_of_nat (unat i))"
  have d: "?num \<noteq> []" "list_all is_digit ?num" "dec_val 0 ?num = unat i"
    using dec_of_nat_digits[of "unat i"] by (auto simp: pad_left_def dec_val_zeros list_all_iff is_digit_def)
  have "hd ?num \<noteq> 43" using d by (cases ?num) (auto simp: is_digit_def)
  then have p: "str_parse_u32 ?num = Some i"
    using d unat_u32_le[of i] by (cases ?num) (auto simp: str_parse_u32_def)
  have "strip_prefix (ascii ''data-'') (data_filename i) = Some (?num @ ascii ''.log'')"
    by (simp add: strip_prefix_def data_filename_def)
  moreover have "strip_suffix (ascii ''.log'') (?num @ ascii ''.log'') = Some ?num"
    by (simp add: strip_suffix_def)
  ultimately show ?thesis using p by (simp add: file_id_of_name_def)
qed

section \<open>Properties\<close>

text \<open>
  C15. The protocol's integer reader is exact: it accepts precisely the non-empty digit strings whose
  value fits in 64 bits, and returns that value; a longer number is refused, never wrapped.
\<close>

theorem atoi_u64_exact:
  "atoi_u64 b = (if b \<noteq> [] \<and> list_all is_digit b \<and> dec_val 0 b < 2 ^ 64 then Some (of_nat (dec_val 0 b)) else None)"
  using atoi_loop_exact[of 0 b] by (auto simp: atoi_u64_def)

text \<open>
  C14. The hand-written signed reader agrees with the standard library's \<^verbatim>\<open>parse::<i64>\<close> on every input,
  down to \<^verbatim>\<open>i64::MIN\<close>: an increment given on the wire and a counter stored by one are read alike. What
  \<^verbatim>\<open>to_string\<close> prints is read back.
\<close>

theorem atoi_i64_equals_std:
  "atoi_i64 b = str_parse_i64 b \<and> str_parse_i64 (i64_to_string w) = Some w"
  using atoi_i64_std i64_roundtrip by blast

text \<open>
  C16. The name of a data file determines its id: \<^verbatim>\<open>list_data_files\<close> reads back the id that \<^verbatim>\<open>data_filename\<close>
  printed, for every 32-bit id.
\<close>

theorem data_filename_identifies:
  "file_id_of_name (data_filename i) = Some i"
  by (rule data_filename_roundtrip)

end
