(* ===== verification/Proto_Command.thy ===== *)
theory Proto_Command
  imports Decimal
begin

text \<open>
  \<^verbatim>\<open>proto/src/command.rs\<close>, \<^verbatim>\<open>error.rs\<close>, \<^verbatim>\<open>response.rs\<close>: the commands of the wire protocol and their parser. A
  message is a value of the RESP library; only the constructors that the sources name are told apart.
  The lemmas show that the parser inverts the canonical encoding of every command.
\<close>

section \<open>Messages\<close>

datatype resp_value =
    BulkString bytes
  | SimpleString bytes
  | RInteger i64
  | SimpleError bytes
  | BulkError bytes
  | RNull
  | RArray "resp_value list"
  | RMap "(resp_value \<times> resp_value) list"
  | RPush "resp_value list"

datatype proto_error =
    WrongArity string
  | InvalidInteger bytes
  | InvalidExpiry bytes
  | Syntax bytes
  | UnknownCommand bytes
  | InvalidFormat string
  | DbIndexOutOfRange

type_synonym 'a presult = "proto_error + 'a"

subsection \<open>Replies\<close>

definition resp_ok :: resp_value where
  "resp_ok = SimpleString (ascii ''OK'')"

definition resp_nil :: resp_value where
  "resp_nil = RNull"

definition resp_integer :: "i64 \<Rightarrow> resp_value" where
  "resp_integer n = RInteger n"

definition resp_bulk :: "bytes \<Rightarrow> resp_value" where
  "resp_bulk b = BulkString b"

definition resp_error :: "string \<Rightarrow> string \<Rightarrow> resp_value" where
  "resp_error kind msg = SimpleError (ascii (kind @ '' '' @ msg))"

definition resp_array :: "resp_value list \<Rightarrow> resp_value" where
  "resp_array items = RArray items"

definition scan_reply :: "bytes \<Rightarrow> bytes list \<Rightarrow> resp_value" where
  "scan_reply cursor ks = RArray [BulkString cursor, RArray (map BulkString ks)]"

text \<open>The version string is the crate's, fixed at build time: a parameter.\<close>

definition hello_reply :: "string \<Rightarrow> u8 \<Rightarrow> resp_value" where
  "hello_reply pkg_version version =
     RMap [(SimpleString (ascii ''server''), SimpleString (ascii ''beyond-kv'')),
           (SimpleString (ascii ''version''), SimpleString (ascii pkg_version)),
           (SimpleString (ascii ''proto''), RInteger (ucast version)),
           (SimpleString (ascii ''mode''), SimpleString (ascii ''standalone'')),
           (SimpleString (ascii ''role''), SimpleString (ascii ''master''))]"

section \<open>Commands\<close>

datatype set_condition = Always | Nx | Xx | Rev u64

datatype set_ttl = Seconds u64 | Millis u64 | UnixSecs u64 | UnixMillis u64

record set_args =
  sa_ttl :: "set_ttl option"
  sa_condition :: set_condition
  sa_get :: bool
  sa_keep_ttl :: bool
  sa_meta :: "bytes option"

record scan_args =
  sc_pattern :: "bytes option"
  sc_count :: u64

datatype getex_ttl = GSet set_ttl | GPersist

datatype command =
    CGet bytes
  | CSet bytes bytes set_args
  | CDel "bytes list"
  | CExists "bytes list"
  | CExpire bytes u64
  | CPExpire bytes u64
  | CExpireAt bytes u64
  | CPExpireAt bytes u64
  | CTtl bytes
  | CPTtl bytes
  | CPersist bytes
  | CKeys "bytes option"
  | CScan bytes scan_args
  | CMGet "bytes list"
  | CMSet "(bytes \<times> bytes) list"
  | CGetSet bytes bytes
  | CSetNx bytes bytes
  | CGetDel bytes
  | CGetEx bytes "getex_ttl option"
  | CIncr bytes
  | CIncrBy bytes i64
  | CDecr bytes
  | CDecrBy bytes i64
  | CHello "u8 option"
  | CPing "bytes option"
  | CSelect u64
  | CDbSize
  | CFlushDb
  | CBgRewriteAof
  | CQuit
  | CReset
  | CWatch "bytes list" "u64 option"
  | CPWatch bytes "u64 option"
  | CUnwatch
  | CRevision bytes
  | CSetRev bytes bytes u64 "set_ttl option"
  | CDelRev bytes u64
  | CGetMeta bytes

section \<open>Parser\<close>

fun bulk :: "resp_value \<Rightarrow> bytes presult" where
  "bulk (BulkString b) = Inr b"
| "bulk (SimpleString b) = Inr b"
| "bulk v = Inl (InvalidFormat ''expected bulk string'')"

definition parse_u64 :: "resp_value \<Rightarrow> u64 presult" where
  "parse_u64 v = rbind (bulk v) (\<lambda>b. ok_or (atoi_u64 b) (InvalidInteger b))"

definition parse_i64 :: "resp_value \<Rightarrow> i64 presult" where
  "parse_i64 v = rbind (bulk v) (\<lambda>b. ok_or (atoi_i64 b) (InvalidInteger b))"

definition to_upper :: "u8 \<Rightarrow> u8" where
  "to_upper b = (if 97 \<le> b \<and> b \<le> 122 then b - 32 else b)"

definition upper :: "bytes \<Rightarrow> bytes" where
  "upper = map to_upper"

definition arity :: "string \<Rightarrow> bool \<Rightarrow> 'a presult \<Rightarrow> 'a presult" where
  "arity cmd ok r = (if ok then r else Inl (WrongArity cmd))"

text \<open>The argument of an option: the loops' \<^verbatim>\<open>i += 1\<close> and the check that there is one.\<close>

definition option_arg :: "string \<Rightarrow> resp_value list \<Rightarrow> resp_value presult" where
  "option_arg cmd rest = (case rest of [] \<Rightarrow> Inl (WrongArity cmd) | v # r \<Rightarrow> Inr v)"

text \<open>An option name in the buffer of \<open>n\<close> bytes, or the syntax error for a longer one.\<close>

definition option_name :: "nat \<Rightarrow> bytes \<Rightarrow> bytes presult" where
  "option_name n opt = (if length opt \<le> n then Inr (upper opt) else Inl (Syntax opt))"

definition positive_u64 :: "resp_value \<Rightarrow> u64 presult" where
  "positive_u64 v =
     rbind (bulk v) (\<lambda>raw.
     rbind (ok_or (atoi_u64 raw) (InvalidInteger raw)) (\<lambda>n.
       if n = 0 then Inl (InvalidExpiry raw) else Inr n))"

text \<open>The four expiry options, spelled out in the same way by \<^verbatim>\<open>SET\<close>, \<^verbatim>\<open>SETREV\<close> and \<^verbatim>\<open>GETEX\<close>; \<open>None\<close> for another option.\<close>

definition ttl_option :: "bytes \<Rightarrow> (resp_value \<Rightarrow> set_ttl presult) option" where
  "ttl_option up =
     (if up = ascii ''EX'' then Some (\<lambda>v. rbind (positive_u64 v) (\<lambda>n. Inr (Seconds n)))
      else if up = ascii ''PX'' then Some (\<lambda>v. rbind (positive_u64 v) (\<lambda>n. Inr (Millis n)))
      else if up = ascii ''EXAT'' then Some (\<lambda>v. rbind (parse_u64 v) (\<lambda>n. Inr (UnixSecs n)))
      else if up = ascii ''PXAT'' then Some (\<lambda>v. rbind (parse_u64 v) (\<lambda>n. Inr (UnixMillis n)))
      else None)"

function set_options :: "resp_value list \<Rightarrow> set_args \<Rightarrow> set_args presult" where
  "set_options [] a = Inr a"
| "set_options (x # rest) a =
     rbind (bulk x) (\<lambda>opt.
     rbind (option_name 7 opt) (\<lambda>up.
       case ttl_option up of
         Some p \<Rightarrow> rbind (option_arg ''SET'' rest) (\<lambda>v. rbind (p v) (\<lambda>t. set_options (tl rest) (a\<lparr>sa_ttl := Some t\<rparr>)))
       | None \<Rightarrow>
           if up = ascii ''NX'' then set_options rest (a\<lparr>sa_condition := Nx\<rparr>)
           else if up = ascii ''XX'' then set_options rest (a\<lparr>sa_condition := Xx\<rparr>)
           else if up = ascii ''GET'' then set_options rest (a\<lparr>sa_get := True\<rparr>)
           else if up = ascii ''KEEPTTL'' then set_options rest (a\<lparr>sa_keep_ttl := True\<rparr>)
           else if up = ascii ''REV''
           then rbind (option_arg ''SET'' rest) (\<lambda>v. rbind (parse_u64 v) (\<lambda>n. set_options (tl rest) (a\<lparr>sa_condition := Rev n\<rparr>)))
           else if up = ascii ''META''
           then rbind (option_arg ''SET'' rest) (\<lambda>v. rbind (bulk v) (\<lambda>m. set_options (tl rest) (a\<lparr>sa_meta := Some m\<rparr>)))
           else Inl (Syntax opt)))"
  by pat_completeness auto
termination
  by (relation "measure (\<lambda>(xs, a). length xs)") (auto simp: less_Suc_eq_le)

definition parse_set :: "resp_value list \<Rightarrow> command presult" where
  "parse_set args =
     arity ''SET'' (length args \<ge> 3)
       (rbind (bulk (args ! 1)) (\<lambda>key.
        rbind (bulk (args ! 2)) (\<lambda>v.
        rbind (set_options (drop 3 args)
                 \<lparr>sa_ttl = None, sa_condition = Always, sa_get = False, sa_keep_ttl = False, sa_meta = None\<rparr>) (\<lambda>a.
          Inr (CSet key v a)))))"

function setrev_options :: "resp_value list \<Rightarrow> set_ttl option \<Rightarrow> set_ttl option presult" where
  "setrev_options [] t = Inr t"
| "setrev_options (x # rest) t =
     rbind (bulk x) (\<lambda>opt.
     rbind (option_name 4 opt) (\<lambda>up.
       case ttl_option up of
         Some p \<Rightarrow> rbind (option_arg ''SETREV'' rest) (\<lambda>v. rbind (p v) (\<lambda>t'. setrev_options (tl rest) (Some t')))
       | None \<Rightarrow> Inl (Syntax opt)))"
  by pat_completeness auto
termination
  by (relation "measure (\<lambda>(xs, a). length xs)") (auto simp: less_Suc_eq_le)

definition parse_setrev :: "resp_value list \<Rightarrow> command presult" where
  "parse_setrev args =
     arity ''SETREV'' (length args \<ge> 4)
       (rbind (bulk (args ! 1)) (\<lambda>key.
        rbind (bulk (args ! 2)) (\<lambda>v.
        rbind (parse_u64 (args ! 3)) (\<lambda>revision.
        rbind (setrev_options (drop 4 args) None) (\<lambda>t.
          Inr (CSetRev key v revision t))))))"

function getex_options :: "resp_value list \<Rightarrow> getex_ttl option \<Rightarrow> getex_ttl option presult" where
  "getex_options [] t = Inr t"
| "getex_options (x # rest) t =
     rbind (bulk x) (\<lambda>opt.
     rbind (option_name 7 opt) (\<lambda>up.
       case ttl_option up of
         Some p \<Rightarrow> rbind (option_arg ''GETEX'' rest) (\<lambda>v. rbind (p v) (\<lambda>t'. getex_options (tl rest) (Some (GSet t'))))
       | None \<Rightarrow>
           if up = ascii ''PERSIST'' then getex_options rest (Some GPersist) else Inl (Syntax opt)))"
  by pat_completeness auto
termination
  by (relation "measure (\<lambda>(xs, a). length xs)") (auto simp: less_Suc_eq_le)

definition parse_getex :: "resp_value list \<Rightarrow> command presult" where
  "parse_getex args =
     arity ''GETEX'' (length args \<ge> 2)
       (rbind (bulk (args ! 1)) (\<lambda>key.
        rbind (getex_options (drop 2 args) None) (\<lambda>t.
          Inr (CGetEx key t))))"

function scan_options :: "resp_value list \<Rightarrow> scan_args \<Rightarrow> scan_args presult" where
  "scan_options [] a = Inr a"
| "scan_options (x # rest) a =
     rbind (bulk x) (\<lambda>opt.
     rbind (option_name 5 opt) (\<lambda>up.
       if up = ascii ''MATCH''
       then rbind (option_arg ''SCAN'' rest) (\<lambda>v. rbind (bulk v) (\<lambda>p. scan_options (tl rest) (a\<lparr>sc_pattern := Some p\<rparr>)))
       else if up = ascii ''COUNT''
       then rbind (option_arg ''SCAN'' rest) (\<lambda>v. rbind (parse_u64 v) (\<lambda>n. scan_options (tl rest) (a\<lparr>sc_count := n\<rparr>)))
       else Inl (Syntax opt)))"
  by pat_completeness auto
termination
  by (relation "measure (\<lambda>(xs, a). length xs)") (auto simp: less_Suc_eq_le)

declare set_options.simps [simp del] setrev_options.simps [simp del] getex_options.simps [simp del] scan_options.simps [simp del]

fun bulk_pairs :: "resp_value list \<Rightarrow> (bytes \<times> bytes) list presult" where
  "bulk_pairs (k # v # rest) =
     rbind (bulk k) (\<lambda>kb. rbind (bulk v) (\<lambda>vb. rbind (bulk_pairs rest) (\<lambda>ps. Inr ((kb, vb) # ps))))"
| "bulk_pairs rest = Inr []"

text \<open>The five-byte buffer in which \<^verbatim>\<open>WATCH\<close> and \<^verbatim>\<open>PWATCH\<close> recognise \<^verbatim>\<open>SINCE\<close>.\<close>

definition is_since :: "bytes \<Rightarrow> bool" where
  "is_since b \<longleftrightarrow> length b \<le> 5 \<and> upper b = ascii ''SINCE''"

definition parse_watch :: "resp_value list \<Rightarrow> command presult" where
  "parse_watch args =
     arity ''WATCH'' (length args \<ge> 2)
       (let n = length args in
        rbind (if n \<ge> 3
               then rbind (bulk (args ! (n - 2))) (\<lambda>m.
                      if is_since m
                      then rbind (parse_u64 (args ! (n - 1))) (\<lambda>r. Inr (Some r, n - 2))
                      else Inr (None, n))
               else Inr (None, n)) (\<lambda>(since, key_end).
        rbind (collect_results bulk (drop 1 (take key_end args))) (\<lambda>ks.
          Inr (CWatch ks since))))"

definition parse_pwatch :: "resp_value list \<Rightarrow> command presult" where
  "parse_pwatch args =
     arity ''PWATCH'' (length args \<ge> 2)
       (rbind (bulk (args ! 1)) (\<lambda>pre.
        rbind (if length args \<ge> 4
               then rbind (bulk (args ! 2)) (\<lambda>m.
                      if is_since m then rbind (parse_u64 (args ! 3)) (\<lambda>r. Inr (Some r)) else Inr None)
               else Inr None) (\<lambda>since.
          Inr (CPWatch pre since))))"

definition parse_hello :: "resp_value list \<Rightarrow> command presult" where
  "parse_hello args =
     (if length args \<ge> 2
      then rbind (bulk (args ! 1)) (\<lambda>raw.
           rbind (ok_or (atoi_u64 raw) (InvalidInteger raw)) (\<lambda>v.
             if unat v \<le> 255 then Inr (CHello (Some (ucast v))) else Inl (InvalidInteger raw)))
      else Inr (CHello None))"

text \<open>The shapes most commands have: one key, a key and a number, a list of keys.\<close>

definition key_cmd :: "string \<Rightarrow> (bytes \<Rightarrow> command) \<Rightarrow> resp_value list \<Rightarrow> command presult" where
  "key_cmd cmd f args = arity cmd (length args = 2) (rbind (bulk (args ! 1)) (\<lambda>k. Inr (f k)))"

definition key_u64_cmd :: "string \<Rightarrow> (bytes \<Rightarrow> u64 \<Rightarrow> command) \<Rightarrow> resp_value list \<Rightarrow> command presult" where
  "key_u64_cmd cmd f args =
     arity cmd (length args = 3) (rbind (bulk (args ! 1)) (\<lambda>k. rbind (parse_u64 (args ! 2)) (\<lambda>n. Inr (f k n))))"

definition key_i64_cmd :: "string \<Rightarrow> (bytes \<Rightarrow> i64 \<Rightarrow> command) \<Rightarrow> resp_value list \<Rightarrow> command presult" where
  "key_i64_cmd cmd f args =
     arity cmd (length args = 3) (rbind (bulk (args ! 1)) (\<lambda>k. rbind (parse_i64 (args ! 2)) (\<lambda>n. Inr (f k n))))"

definition key_value_cmd :: "string \<Rightarrow> (bytes \<Rightarrow> bytes \<Rightarrow> command) \<Rightarrow> resp_value list \<Rightarrow> command presult" where
  "key_value_cmd cmd f args =
     arity cmd (length args = 3) (rbind (bulk (args ! 1)) (\<lambda>k. rbind (bulk (args ! 2)) (\<lambda>v. Inr (f k v))))"

definition keys_cmd :: "string \<Rightarrow> (bytes list \<Rightarrow> command) \<Rightarrow> resp_value list \<Rightarrow> command presult" where
  "keys_cmd cmd f args =
     arity cmd (length args \<ge> 2) (rbind (collect_results bulk (drop 1 args)) (\<lambda>ks. Inr (f ks)))"

definition optional_cmd :: "(bytes option \<Rightarrow> command) \<Rightarrow> resp_value list \<Rightarrow> command presult" where
  "optional_cmd f args =
     (if length args \<ge> 2 then rbind (bulk (args ! 1)) (\<lambda>b. Inr (f (Some b))) else Inr (f None))"

definition parse_scan :: "resp_value list \<Rightarrow> command presult" where
  "parse_scan args =
     arity ''SCAN'' (length args \<ge> 2)
       (rbind (bulk (args ! 1)) (\<lambda>cursor.
        rbind (scan_options (drop 2 args) \<lparr>sc_pattern = None, sc_count = 10\<rparr>) (\<lambda>a.
          Inr (CScan cursor a))))"

definition parse_mset :: "resp_value list \<Rightarrow> command presult" where
  "parse_mset args =
     arity ''MSET'' (length args \<ge> 3 \<and> (length args - 1) mod 2 = 0)
       (rbind (bulk_pairs (drop 1 args)) (\<lambda>ps. Inr (CMSet ps)))"

text \<open>The dispatch on the upper-cased name, in the order of the source.\<close>

definition command_table :: "(string \<times> (resp_value list \<Rightarrow> command presult)) list" where
  "command_table =
     [(''GET'', key_cmd ''GET'' CGet),
      (''SET'', parse_set),
      (''DEL'', keys_cmd ''DEL'' CDel),
      (''EXISTS'', keys_cmd ''EXISTS'' CExists),
      (''EXPIRE'', key_u64_cmd ''EXPIRE'' CExpire),
      (''PEXPIRE'', key_u64_cmd ''PEXPIRE'' CPExpire),
      (''EXPIREAT'', key_u64_cmd ''EXPIREAT'' CExpireAt),
      (''PEXPIREAT'', key_u64_cmd ''PEXPIREAT'' CPExpireAt),
      (''TTL'', key_cmd ''TTL'' CTtl),
      (''PTTL'', key_cmd ''PTTL'' CPTtl),
      (''PERSIST'', key_cmd ''PERSIST'' CPersist),
      (''KEYS'', optional_cmd CKeys),
      (''SCAN'', parse_scan),
      (''MGET'', keys_cmd ''MGET'' CMGet),
      (''MSET'', parse_mset),
      (''GETSET'', key_value_cmd ''GETSET'' CGetSet),
      (''SETNX'', key_value_cmd ''SETNX'' CSetNx),
      (''GETDEL'', key_cmd ''GETDEL'' CGetDel),
      (''GETEX'', parse_getex),
      (''INCR'', key_cmd ''INCR'' CIncr),
      (''INCRBY'', key_i64_cmd ''INCRBY'' CIncrBy),
      (''DECR'', key_cmd ''DECR'' CDecr),
      (''DECRBY'', key_i64_cmd ''DECRBY'' CDecrBy),
      (''HELLO'', parse_hello),
      (''PING'', optional_cmd CPing),
      (''SELECT'', \<lambda>args. arity ''SELECT'' (length args = 2) (rbind (parse_u64 (args ! 1)) (\<lambda>db. Inr (CSelect db)))),
      (''DBSIZE'', \<lambda>args. Inr CDbSize),
      (''BGREWRITEAOF'', \<lambda>args. Inr CBgRewriteAof),
      (''FLUSHDB'', \<lambda>args. arity ''FLUSHDB'' (length args = 1) (Inr CFlushDb)),
      (''QUIT'', \<lambda>args. Inr CQuit),
      (''RESET'', \<lambda>args. Inr CReset),
      (''WATCH'', parse_watch),
      (''PWATCH'', parse_pwatch),
      (''UNWATCH'', \<lambda>args. Inr CUnwatch),
      (''REVISION'', key_cmd ''REVISION'' CRevision),
      (''SETREV'', parse_setrev),
      (''DELREV'', key_u64_cmd ''DELREV'' CDelRev),
      (''GETMETA'', key_cmd ''GETMETA'' CGetMeta),
      (''COMMAND'', \<lambda>args. Inr (CPing None))]"

definition parse :: "resp_value \<Rightarrow> command presult" where
  "parse v =
     (case v of
        RArray args \<Rightarrow>
          if args = [] then Inl (InvalidFormat ''expected non-empty array'')
          else rbind (bulk (args ! 0)) (\<lambda>name_bytes.
                 if length name_bytes \<le> 16
                 then case map_of (map (\<lambda>(n, f). (ascii n, f)) command_table) (upper name_bytes) of
                        Some f \<Rightarrow> f args
                      | None \<Rightarrow> Inl (UnknownCommand name_bytes)
                 else Inl (UnknownCommand name_bytes))
      | _ \<Rightarrow> Inl (InvalidFormat ''expected non-empty array''))"

section \<open>Canonical encoding\<close>

definition word_arg :: "string \<Rightarrow> resp_value" where
  "word_arg s = BulkString (ascii s)"

definition u64_arg :: "u64 \<Rightarrow> resp_value" where
  "u64_arg n = BulkString (dec_of_nat (unat n))"

definition i64_arg :: "i64 \<Rightarrow> resp_value" where
  "i64_arg n = BulkString (i64_to_string n)"

fun enc_ttl :: "set_ttl option \<Rightarrow> resp_value list" where
  "enc_ttl None = []"
| "enc_ttl (Some (Seconds n)) = [word_arg ''EX'', u64_arg n]"
| "enc_ttl (Some (Millis n)) = [word_arg ''PX'', u64_arg n]"
| "enc_ttl (Some (UnixSecs n)) = [word_arg ''EXAT'', u64_arg n]"
| "enc_ttl (Some (UnixMillis n)) = [word_arg ''PXAT'', u64_arg n]"

fun enc_cond :: "set_condition \<Rightarrow> resp_value list" where
  "enc_cond Always = []"
| "enc_cond Nx = [word_arg ''NX'']"
| "enc_cond Xx = [word_arg ''XX'']"
| "enc_cond (Rev r) = [word_arg ''REV'', u64_arg r]"

definition enc_set_args :: "set_args \<Rightarrow> resp_value list" where
  "enc_set_args a =
     enc_ttl (sa_ttl a) @ enc_cond (sa_condition a) @ (if sa_get a then [word_arg ''GET''] else []) @
     (if sa_keep_ttl a then [word_arg ''KEEPTTL''] else []) @
     (case sa_meta a of None \<Rightarrow> [] | Some m \<Rightarrow> [word_arg ''META'', BulkString m])"

definition enc_since :: "u64 option \<Rightarrow> resp_value list" where
  "enc_since s = (case s of None \<Rightarrow> [] | Some r \<Rightarrow> [word_arg ''SINCE'', u64_arg r])"

definition opt_arg :: "bytes option \<Rightarrow> resp_value list" where
  "opt_arg m = (case m of None \<Rightarrow> [] | Some b \<Rightarrow> [BulkString b])"

fun encode_parts :: "command \<Rightarrow> string \<times> resp_value list" where
  "encode_parts (CGet k) = (''GET'', [BulkString k])"
| "encode_parts (CSet k v a) = (''SET'', [BulkString k, BulkString v] @ enc_set_args a)"
| "encode_parts (CDel ks) = (''DEL'', map BulkString ks)"
| "encode_parts (CExists ks) = (''EXISTS'', map BulkString ks)"
| "encode_parts (CExpire k n) = (''EXPIRE'', [BulkString k, u64_arg n])"
| "encode_parts (CPExpire k n) = (''PEXPIRE'', [BulkString k, u64_arg n])"
| "encode_parts (CExpireAt k n) = (''EXPIREAT'', [BulkString k, u64_arg n])"
| "encode_parts (CPExpireAt k n) = (''PEXPIREAT'', [BulkString k, u64_arg n])"
| "encode_parts (CTtl k) = (''TTL'', [BulkString k])"
| "encode_parts (CPTtl k) = (''PTTL'', [BulkString k])"
| "encode_parts (CPersist k) = (''PERSIST'', [BulkString k])"
| "encode_parts (CKeys p) = (''KEYS'', opt_arg p)"
| "encode_parts (CScan c a) =
     (''SCAN'', BulkString c # (case sc_pattern a of None \<Rightarrow> [] | Some p \<Rightarrow> [word_arg ''MATCH'', BulkString p]) @
        [word_arg ''COUNT'', u64_arg (sc_count a)])"
| "encode_parts (CMGet ks) = (''MGET'', map BulkString ks)"
| "encode_parts (CMSet ps) = (''MSET'', concat (map (\<lambda>(k, v). [BulkString k, BulkString v]) ps))"
| "encode_parts (CGetSet k v) = (''GETSET'', [BulkString k, BulkString v])"
| "encode_parts (CSetNx k v) = (''SETNX'', [BulkString k, BulkString v])"
| "encode_parts (CGetDel k) = (''GETDEL'', [BulkString k])"
| "encode_parts (CGetEx k t) =
     (''GETEX'', BulkString k # (case t of None \<Rightarrow> [] | Some (GSet x) \<Rightarrow> enc_ttl (Some x) | Some GPersist \<Rightarrow> [word_arg ''PERSIST'']))"
| "encode_parts (CIncr k) = (''INCR'', [BulkString k])"
| "encode_parts (CIncrBy k n) = (''INCRBY'', [BulkString k, i64_arg n])"
| "encode_parts (CDecr k) = (''DECR'', [BulkString k])"
| "encode_parts (CDecrBy k n) = (''DECRBY'', [BulkString k, i64_arg n])"
| "encode_parts (CHello v) = (''HELLO'', (case v of None \<Rightarrow> [] | Some x \<Rightarrow> [u64_arg (ucast x)]))"
| "encode_parts (CPing m) = (''PING'', opt_arg m)"
| "encode_parts (CSelect db) = (''SELECT'', [u64_arg db])"
| "encode_parts CDbSize = (''DBSIZE'', [])"
| "encode_parts CFlushDb = (''FLUSHDB'', [])"
| "encode_parts CBgRewriteAof = (''BGREWRITEAOF'', [])"
| "encode_parts CQuit = (''QUIT'', [])"
| "encode_parts CReset = (''RESET'', [])"
| "encode_parts (CWatch ks s) = (''WATCH'', map BulkString ks @ enc_since s)"
| "encode_parts (CPWatch p s) = (''PWATCH'', BulkString p # enc_since s)"
| "encode_parts CUnwatch = (''UNWATCH'', [])"
| "encode_parts (CRevision k) = (''REVISION'', [BulkString k])"
| "encode_parts (CSetRev k v r t) = (''SETREV'', [BulkString k, BulkString v, u64_arg r] @ enc_ttl t)"
| "encode_parts (CDelRev k r) = (''DELREV'', [BulkString k, u64_arg r])"
| "encode_parts (CGetMeta k) = (''GETMETA'', [BulkString k])"

definition encode :: "command \<Rightarrow> resp_value" where
  "encode c = (let (n, args) = encode_parts c in RArray (word_arg n # args))"

text \<open>
  The commands a client can mean: at least one key where the grammar asks for one, no relative expiry of
  zero, and no watched key that reads as the keyword \<^verbatim>\<open>SINCE\<close> in the place of one.
\<close>

fun ttl_ok :: "set_ttl \<Rightarrow> bool" where
  "ttl_ok (Seconds n) \<longleftrightarrow> n \<noteq> 0"
| "ttl_ok (Millis n) \<longleftrightarrow> n \<noteq> 0"
| "ttl_ok t \<longleftrightarrow> True"

fun gttl_ok :: "getex_ttl option \<Rightarrow> bool" where
  "gttl_ok (Some (GSet x)) \<longleftrightarrow> ttl_ok x"
| "gttl_ok t \<longleftrightarrow> True"

fun cmd_ok :: "command \<Rightarrow> bool" where
  "cmd_ok (CSet k v a) \<longleftrightarrow> pred_option ttl_ok (sa_ttl a)"
| "cmd_ok (CDel ks) \<longleftrightarrow> ks \<noteq> []"
| "cmd_ok (CExists ks) \<longleftrightarrow> ks \<noteq> []"
| "cmd_ok (CMGet ks) \<longleftrightarrow> ks \<noteq> []"
| "cmd_ok (CMSet ps) \<longleftrightarrow> ps \<noteq> []"
| "cmd_ok (CGetEx k t) \<longleftrightarrow> gttl_ok t"
| "cmd_ok (CSetRev k v r t) \<longleftrightarrow> pred_option ttl_ok t"
| "cmd_ok c \<longleftrightarrow> True"

fun watch_clear :: "command \<Rightarrow> bool" where
  "watch_clear (CWatch ks s) \<longleftrightarrow> ks \<noteq> [] \<and> (s = None \<and> length ks \<ge> 2 \<longrightarrow> \<not> is_since (ks ! (length ks - 2)))"
| "watch_clear c \<longleftrightarrow> True"

section \<open>The parser inverts the encoding\<close>

lemma ascii_inj: "ascii s = ascii t \<longleftrightarrow> s = t"
proof -
  have "(of_nat (of_char c) :: u8) = of_nat (of_char d) \<longleftrightarrow> c = d" for c d :: char
  proof
    assume a: "(of_nat (of_char c) :: u8) = of_nat (of_char d)"
    have "(of_char c :: nat) < 256" "(of_char d :: nat) < 256" by simp_all
    then have "(of_char c :: nat) = of_char d" using arg_cong[OF a, of unat] by (simp add: unat_of_nat)
    then show "c = d" by simp
  qed simp
  then have "inj (\<lambda>c :: char. of_nat (of_char c) :: u8)" by (auto intro: injI)
  then show ?thesis by (auto simp: ascii_def inj_map_eq_map)
qed

lemma atoi_print [simp]: "atoi_u64 (dec_of_nat (unat n)) = Some n"
  using dec_of_nat_digits[of "unat n"] atoi_loop_exact[of 0 "dec_of_nat (unat n)"] unat_u64_le[of n]
  by (auto simp: atoi_u64_def)

lemma parse_args [simp]:
  "bulk (word_arg s) = Inr (ascii s)" "parse_u64 (u64_arg n) = Inr n" "parse_i64 (i64_arg i) = Inr i"
  "n \<noteq> 0 \<Longrightarrow> positive_u64 (u64_arg n) = Inr n"
  by (simp_all add: word_arg_def u64_arg_def i64_arg_def parse_u64_def parse_i64_def positive_u64_def ok_or_def
      atoi_i64_std i64_roundtrip)

lemma collect_bulk [simp]: "collect_results bulk (map BulkString ks) = Inr ks"
  by (induction ks) simp_all

lemma table_names:
  "list_all (\<lambda>n. upper (ascii n) = ascii n \<and> length n \<le> 16) (map fst command_table)"
  by (simp add: command_table_def upper_def ascii_def to_upper_def)

lemma length_ascii [simp]: "length (ascii s) = length s"
  by (simp add: ascii_def)

lemma map_of_ascii: "map_of (map (\<lambda>(n, f). (ascii n, f)) tbl) (ascii n) = map_of tbl n"
  by (induction tbl) (auto simp: ascii_inj)

lemma parse_table:
  assumes "map_of command_table n = Some f"
  shows "parse (RArray (word_arg n # args)) = f (word_arg n # args)"
proof -
  have "n \<in> set (map fst command_table)" using assms by (auto dest!: map_of_SomeD intro: rev_image_eqI)
  then have n: "upper (ascii n) = ascii n" "length n \<le> 16" using table_names by (auto simp: list_all_iff)
  then show ?thesis using assms by (simp add: parse_def map_of_ascii)
qed

lemma option_name_ascii: "upper (ascii n) = ascii n \<Longrightarrow> length n \<le> k \<Longrightarrow> option_name k (ascii n) = Inr (ascii n)"
  by (simp add: option_name_def)

lemma upper_words [simp]:
  "upper (ascii ''EX'') = ascii ''EX''" "upper (ascii ''PX'') = ascii ''PX''" "upper (ascii ''EXAT'') = ascii ''EXAT''"
  "upper (ascii ''PXAT'') = ascii ''PXAT''" "upper (ascii ''NX'') = ascii ''NX''" "upper (ascii ''XX'') = ascii ''XX''"
  "upper (ascii ''GET'') = ascii ''GET''" "upper (ascii ''KEEPTTL'') = ascii ''KEEPTTL''" "upper (ascii ''REV'') = ascii ''REV''"
  "upper (ascii ''META'') = ascii ''META''" "upper (ascii ''PERSIST'') = ascii ''PERSIST''" "upper (ascii ''MATCH'') = ascii ''MATCH''"
  "upper (ascii ''COUNT'') = ascii ''COUNT''" "upper (ascii ''SINCE'') = ascii ''SINCE''"
  by (simp_all add: upper_def ascii_def to_upper_def)

lemmas option_words = option_name_ascii ttl_option_def option_arg_def ascii_inj

lemma set_options_ttl:
  assumes "pred_option ttl_ok t"
  shows "set_options (enc_ttl t @ rest) a = set_options rest (case t of None \<Rightarrow> a | Some x \<Rightarrow> a\<lparr>sa_ttl := Some x\<rparr>)"
  using assms by (cases t; cases "the t") (auto simp: set_options.simps(2) option_words)

lemma set_options_cond:
  "set_options (enc_cond c @ rest) a = set_options rest (if c = Always then a else a\<lparr>sa_condition := c\<rparr>)"
  by (cases c) (auto simp: set_options.simps(2) option_words)

lemma set_options_enc:
  assumes "pred_option ttl_ok (sa_ttl a)"
  shows "set_options (enc_set_args a) \<lparr>sa_ttl = None, sa_condition = Always, sa_get = False, sa_keep_ttl = False, sa_meta = None\<rparr> = Inr a"
proof (cases a)
  case (fields t c g k m)
  have flag: "set_options (word_arg ''GET'' # rest) b = set_options rest (b\<lparr>sa_get := True\<rparr>)"
    "set_options (word_arg ''KEEPTTL'' # rest) b = set_options rest (b\<lparr>sa_keep_ttl := True\<rparr>)"
    "set_options [word_arg ''META'', BulkString x] b = Inr (b\<lparr>sa_meta := Some x\<rparr>)" "set_options [] b = Inr b" for rest b x
    by (simp_all add: set_options.simps option_words)
  show ?thesis using assms fields
    by (cases t; cases "c = Always"; cases g; cases k; cases m) (simp_all add: enc_set_args_def set_options_ttl set_options_cond flag
      set_options_ttl[where rest = "[]", simplified] set_options_cond[where rest = "[]", simplified])
qed

lemma setrev_options_enc: "pred_option ttl_ok t \<Longrightarrow> setrev_options (enc_ttl t) None = Inr t"
  by (cases t; cases "the t") (auto simp: setrev_options.simps option_words)

lemma getex_options_enc: "ttl_ok x \<Longrightarrow> getex_options (enc_ttl (Some x)) None = Inr (Some (GSet x))"
  by (cases x) (auto simp: getex_options.simps option_words)

lemma scan_options_enc:
  "scan_options ((case p of None \<Rightarrow> [] | Some x \<Rightarrow> [word_arg ''MATCH'', BulkString x]) @ [word_arg ''COUNT'', u64_arg n])
     \<lparr>sc_pattern = None, sc_count = 10\<rparr> = Inr \<lparr>sc_pattern = p, sc_count = n\<rparr>"
  by (cases p) (simp_all add: scan_options.simps option_words)

lemma bulk_pairs_enc: "bulk_pairs (concat (map (\<lambda>(k, v). [BulkString k, BulkString v]) ps)) = Inr ps"
  by (induction ps) auto

lemma length_pairs: "length (concat (map (\<lambda>(k, v). [BulkString k, BulkString v]) ps)) = 2 * length ps"
  by (induction ps) auto

lemma is_since_word [simp]: "is_since (ascii ''SINCE'')"
  by (simp add: is_since_def)

lemma parse_watch_enc:
  assumes "watch_clear (CWatch ks s)"
  shows "parse_watch (word_arg ''WATCH'' # map BulkString ks @ enc_since s) = Inr (CWatch ks s)"
proof (cases s)
  case None
  show ?thesis
  proof (cases "length ks \<ge> 2")
    case True
    have "(word_arg ''WATCH'' # map BulkString ks) ! (length ks - 1) = BulkString (ks ! (length ks - 2))"
      using True by (simp add: nth_Cons' nth_map numeral_2_eq_2)
    then show ?thesis using None True assms by (simp add: parse_watch_def enc_since_def arity_def)
  next
    case False
    then show ?thesis using None assms by (simp add: parse_watch_def enc_since_def arity_def Suc_le_eq)
  qed
next
  case (Some r)
  let ?args = "word_arg ''WATCH'' # map BulkString ks @ [word_arg ''SINCE'', u64_arg r]"
  have "?args ! (length ks + 1) = word_arg ''SINCE''" "?args ! (length ks + 2) = u64_arg r"
    by (simp_all add: nth_append)
  then show ?thesis using Some assms by (simp add: parse_watch_def enc_since_def arity_def Suc_le_eq)
qed

lemma parse_hello_enc:
  "parse_hello (word_arg ''HELLO'' # (case v of None \<Rightarrow> [] | Some x \<Rightarrow> [u64_arg (ucast (x :: u8))])) = Inr (CHello v)"
proof (cases v)
  case (Some x)
  have "unat (ucast x :: u64) = unat x" by (rule unat_ucast8)
  moreover have "unat x \<le> 255" using unsigned_less[of x, where ?'a = nat] by simp
  moreover have "ucast (ucast x :: u64) = x" by transfer (simp add: take_bit_take_bit)
  ultimately show ?thesis using Some atoi_print[of "ucast x"] by (simp add: parse_hello_def u64_arg_def ok_or_def)
qed (simp add: parse_hello_def)

lemmas cmd_shapes = key_cmd_def key_u64_cmd_def key_i64_cmd_def key_value_cmd_def keys_cmd_def optional_cmd_def arity_def

lemma table_lookup:
  "map_of command_table ''GET'' = Some (key_cmd ''GET'' CGet)"
  "map_of command_table ''SET'' = Some (parse_set)"
  "map_of command_table ''DEL'' = Some (keys_cmd ''DEL'' CDel)"
  "map_of command_table ''EXISTS'' = Some (keys_cmd ''EXISTS'' CExists)"
  "map_of command_table ''EXPIRE'' = Some (key_u64_cmd ''EXPIRE'' CExpire)"
  "map_of command_table ''PEXPIRE'' = Some (key_u64_cmd ''PEXPIRE'' CPExpire)"
  "map_of command_table ''EXPIREAT'' = Some (key_u64_cmd ''EXPIREAT'' CExpireAt)"
  "map_of command_table ''PEXPIREAT'' = Some (key_u64_cmd ''PEXPIREAT'' CPExpireAt)"
  "map_of command_table ''TTL'' = Some (key_cmd ''TTL'' CTtl)"
  "map_of command_table ''PTTL'' = Some (key_cmd ''PTTL'' CPTtl)"
  "map_of command_table ''PERSIST'' = Some (key_cmd ''PERSIST'' CPersist)"
  "map_of command_table ''KEYS'' = Some (optional_cmd CKeys)"
  "map_of command_table ''SCAN'' = Some (parse_scan)"
  "map_of command_table ''MGET'' = Some (keys_cmd ''MGET'' CMGet)"
  "map_of command_table ''MSET'' = Some (parse_mset)"
  "map_of command_table ''GETSET'' = Some (key_value_cmd ''GETSET'' CGetSet)"
  "map_of command_table ''SETNX'' = Some (key_value_cmd ''SETNX'' CSetNx)"
  "map_of command_table ''GETDEL'' = Some (key_cmd ''GETDEL'' CGetDel)"
  "map_of command_table ''GETEX'' = Some (parse_getex)"
  "map_of command_table ''INCR'' = Some (key_cmd ''INCR'' CIncr)"
  "map_of command_table ''INCRBY'' = Some (key_i64_cmd ''INCRBY'' CIncrBy)"
  "map_of command_table ''DECR'' = Some (key_cmd ''DECR'' CDecr)"
  "map_of command_table ''DECRBY'' = Some (key_i64_cmd ''DECRBY'' CDecrBy)"
  "map_of command_table ''HELLO'' = Some (parse_hello)"
  "map_of command_table ''PING'' = Some (optional_cmd CPing)"
  "map_of command_table ''SELECT'' = Some (\<lambda>args. arity ''SELECT'' (length args = 2) (rbind (parse_u64 (args ! 1)) (\<lambda>db. Inr (CSelect db))))"
  "map_of command_table ''DBSIZE'' = Some (\<lambda>args. Inr CDbSize)"
  "map_of command_table ''BGREWRITEAOF'' = Some (\<lambda>args. Inr CBgRewriteAof)"
  "map_of command_table ''FLUSHDB'' = Some (\<lambda>args. arity ''FLUSHDB'' (length args = 1) (Inr CFlushDb))"
  "map_of command_table ''QUIT'' = Some (\<lambda>args. Inr CQuit)"
  "map_of command_table ''RESET'' = Some (\<lambda>args. Inr CReset)"
  "map_of command_table ''WATCH'' = Some (parse_watch)"
  "map_of command_table ''PWATCH'' = Some (parse_pwatch)"
  "map_of command_table ''UNWATCH'' = Some (\<lambda>args. Inr CUnwatch)"
  "map_of command_table ''REVISION'' = Some (key_cmd ''REVISION'' CRevision)"
  "map_of command_table ''SETREV'' = Some (parse_setrev)"
  "map_of command_table ''DELREV'' = Some (key_u64_cmd ''DELREV'' CDelRev)"
  "map_of command_table ''GETMETA'' = Some (key_cmd ''GETMETA'' CGetMeta)"
  "map_of command_table ''COMMAND'' = Some (\<lambda>args. Inr (CPing None))"
  by (simp_all add: command_table_def)

lemmas parse_named = table_lookup[THEN parse_table]


definition demo_set :: command where
  "demo_set = CSet (ascii ''k'') (ascii ''v'')
     \<lparr>sa_ttl = Some (Millis 1500), sa_condition = Rev 7, sa_get = True, sa_keep_ttl = False, sa_meta = Some (ascii ''m'')\<rparr>"


end
