(* ===== verification/Proto_Accept.thy ===== *)
theory Proto_Accept
  imports Proto_Command
begin

text \<open>
  What the request parser of \<^verbatim>\<open>proto/src/command.rs\<close> accepts: every command it returns has the keys its
  grammar asks for and no relative expiry of zero.
\<close>

section \<open>What the parser accepts\<close>

lemma ttl_option_ok: "ttl_option up = Some p \<Longrightarrow> p v = Inr t \<Longrightarrow> ttl_ok t"
  by (auto simp: ttl_option_def positive_u64_def rbind_eq_Inr split: if_splits)

definition every_ok :: "('a \<Rightarrow> bool) \<Rightarrow> 'a presult \<Rightarrow> bool" where
  "every_ok P r \<longleftrightarrow> (\<forall>x. r = Inr x \<longrightarrow> P x)"

lemma every_ok_intros:
  "every_ok P (Inl e)" "P x \<Longrightarrow> every_ok P (Inr x)" "(\<And>x. r = Inr x \<Longrightarrow> every_ok P (f x)) \<Longrightarrow> every_ok P (rbind r f)"
  by (auto simp: every_ok_def rbind_eq_Inr)

definition set_args_ok :: "set_args \<Rightarrow> bool" where
  "set_args_ok a \<longleftrightarrow> pred_option ttl_ok (sa_ttl a)"

lemma set_args_ok_simps [simp]:
  "set_args_ok (a\<lparr>sa_ttl := Some t\<rparr>) \<longleftrightarrow> ttl_ok t" "set_args_ok (a\<lparr>sa_condition := c\<rparr>) \<longleftrightarrow> set_args_ok a"
  "set_args_ok (a\<lparr>sa_get := g\<rparr>) \<longleftrightarrow> set_args_ok a" "set_args_ok (a\<lparr>sa_keep_ttl := g\<rparr>) \<longleftrightarrow> set_args_ok a"
  "set_args_ok (a\<lparr>sa_meta := m\<rparr>) \<longleftrightarrow> set_args_ok a"
  by (simp_all add: set_args_ok_def)

lemma set_options_ok: "set_args_ok a \<Longrightarrow> every_ok set_args_ok (set_options xs a)"
proof (induction xs arbitrary: a rule: length_induct)
  case (1 xs)
  show ?case
  proof (cases xs)
    case (Cons x rest)
    have step: "length ys \<le> length rest \<Longrightarrow> set_args_ok b \<Longrightarrow> every_ok set_args_ok (set_options ys b)" for ys b
      using 1(1) by (simp add: Cons less_Suc_eq_le)
    show ?thesis unfolding Cons set_options.simps(2)
      by (intro every_ok_intros(3)) (simp add: every_ok_intros step 1(2) ttl_option_ok split: option.split)
  qed (use 1(2) in \<open>simp add: set_options.simps every_ok_intros\<close>)
qed

lemma setrev_options_ok: "pred_option ttl_ok t \<Longrightarrow> every_ok (pred_option ttl_ok) (setrev_options xs t)"
proof (induction xs arbitrary: t rule: length_induct)
  case (1 xs)
  show ?case
  proof (cases xs)
    case (Cons x rest)
    have step: "length ys \<le> length rest \<Longrightarrow> pred_option ttl_ok b \<Longrightarrow> every_ok (pred_option ttl_ok) (setrev_options ys b)" for ys b
      using 1(1) by (simp add: Cons less_Suc_eq_le)
    show ?thesis unfolding Cons setrev_options.simps(2)
      by (intro every_ok_intros(3)) (auto intro!: every_ok_intros step simp: 1(2) ttl_option_ok split: option.split)
  qed (use 1(2) in \<open>simp add: setrev_options.simps every_ok_intros\<close>)
qed

lemma getex_options_ok: "gttl_ok t \<Longrightarrow> every_ok gttl_ok (getex_options xs t)"
proof (induction xs arbitrary: t rule: length_induct)
  case (1 xs)
  show ?case
  proof (cases xs)
    case (Cons x rest)
    have step: "length ys \<le> length rest \<Longrightarrow> gttl_ok b \<Longrightarrow> every_ok gttl_ok (getex_options ys b)" for ys b
      using 1(1) by (simp add: Cons less_Suc_eq_le)
    show ?thesis unfolding Cons getex_options.simps(2)
      by (intro every_ok_intros(3)) (auto intro!: every_ok_intros step simp: 1(2) ttl_option_ok split: option.split)
  qed (use 1(2) in \<open>simp add: getex_options.simps every_ok_intros\<close>)
qed

lemma collect_length: "collect_results f xs = Inr ys \<Longrightarrow> length ys = length xs"
  by (induction xs arbitrary: ys) (auto simp: rbind_eq_Inr)

lemma bulk_pairs_nonempty: "bulk_pairs xs = Inr ps \<Longrightarrow> 2 \<le> length xs \<Longrightarrow> ps \<noteq> []"
  by (cases xs rule: bulk_pairs.cases) (auto simp: rbind_eq_Inr)

lemma keys_cmd_ok:
  assumes "keys_cmd n f args = Inr c" "\<And>ks. ks \<noteq> [] \<Longrightarrow> cmd_ok (f ks)"
  shows "cmd_ok c"
proof -
  from assms(1) obtain ks where ks: "2 \<le> length args" "collect_results bulk (drop 1 args) = Inr ks" "c = f ks"
    by (auto simp: keys_cmd_def arity_def rbind_eq_Inr split: if_splits)
  then have "ks \<noteq> []" using collect_length[OF ks(2)] by auto
  then show ?thesis using assms(2) ks(3) by blast
qed

lemma options_okD:
  "set_options xs a = Inr a' \<Longrightarrow> sa_ttl a = None \<Longrightarrow> pred_option ttl_ok (sa_ttl a')"
  "setrev_options xs None = Inr t \<Longrightarrow> pred_option ttl_ok t"
  "getex_options xs None = Inr g \<Longrightarrow> gttl_ok g"
  using set_options_ok[of a xs] setrev_options_ok[of None xs] getex_options_ok[of None xs]
  by (auto simp: every_ok_def set_args_ok_def)

definition gives_ok :: "(resp_value list \<Rightarrow> command presult) \<Rightarrow> bool" where
  "gives_ok f \<longleftrightarrow> (\<forall>args. every_ok cmd_ok (f args))"

lemma every_ok_arity: "(n \<Longrightarrow> every_ok P r) \<Longrightarrow> every_ok P (arity c n r)"
  by (simp add: every_ok_def arity_def)

lemma gives_ok_shapes:
  "(\<And>k. cmd_ok (f k)) \<Longrightarrow> gives_ok (key_cmd n f)"
  "(\<And>k m. cmd_ok (f1 k m)) \<Longrightarrow> gives_ok (key_u64_cmd n f1)"
  "(\<And>k m. cmd_ok (f2 k m)) \<Longrightarrow> gives_ok (key_i64_cmd n f2)"
  "(\<And>k m. cmd_ok (f3 k m)) \<Longrightarrow> gives_ok (key_value_cmd n f3)"
  "(\<And>m. cmd_ok (f4 m)) \<Longrightarrow> gives_ok (optional_cmd f4)"
  unfolding gives_ok_def key_cmd_def key_u64_cmd_def key_i64_cmd_def key_value_cmd_def optional_cmd_def
  by (auto intro!: every_ok_intros every_ok_arity)

lemma gives_ok_keys: "(\<And>ks. ks \<noteq> [] \<Longrightarrow> cmd_ok (f ks)) \<Longrightarrow> gives_ok (keys_cmd n f)"
  unfolding gives_ok_def every_ok_def using keys_cmd_ok by blast

lemma gives_ok_parsers:
  "gives_ok parse_set" "gives_ok parse_setrev" "gives_ok parse_getex" "gives_ok parse_mset"
  unfolding gives_ok_def parse_set_def parse_setrev_def parse_getex_def parse_mset_def
  by (auto intro!: every_ok_intros every_ok_arity dest: options_okD bulk_pairs_nonempty)

lemma gives_ok_others: "gives_ok parse_scan" "gives_ok parse_hello" "gives_ok parse_watch" "gives_ok parse_pwatch"
  unfolding gives_ok_def parse_scan_def parse_hello_def parse_watch_def parse_pwatch_def Let_def
  by (auto intro!: every_ok_intros every_ok_arity)

lemma gives_ok_const: "cmd_ok c \<Longrightarrow> gives_ok (\<lambda>args. Inr c)"
  "(\<And>db. cmd_ok (g db)) \<Longrightarrow> gives_ok (\<lambda>args. arity n (b args) (rbind (r args) (\<lambda>db. Inr (g db))))"
  "cmd_ok c \<Longrightarrow> gives_ok (\<lambda>args. arity n (b args) (Inr c))"
  unfolding gives_ok_def by (auto intro!: every_ok_intros every_ok_arity)

lemma table_ok: "list_all gives_ok (map snd command_table)"
  unfolding command_table_def list.map snd_conv list.pred_inject
  by (intro conjI TrueI gives_ok_parsers gives_ok_others gives_ok_keys gives_ok_shapes gives_ok_const) simp_all



end
