(* ===== verification/Write_Gate.thy ===== *)
theory Write_Gate
  imports KV_Prelude
begin

text \<open>
  The gate in front of a namespace's log (\<^verbatim>\<open>engine/src/log/mod.rs\<close>): \<^verbatim>\<open>await_reclaim\<close>, \<^verbatim>\<open>begin_write\<close> with
  its \<^verbatim>\<open>WriteGuard\<close>, the striped key locks, the drain loops of \<^verbatim>\<open>reclaim\<close> and \<^verbatim>\<open>flush\<close>, \<^verbatim>\<open>freeze_and_drain\<close>
  and \<^verbatim>\<open>unfreeze\<close>. A task is one call in progress; between two awaits it runs alone, so a step of the
  relation is what a task does from one await to the next. The lemmas show that the maintenance calls
  exclude the writers, that the locks exclude each other, and that the tasks never deadlock.
\<close>

section \<open>Tasks and steps\<close>

text \<open>
  A writer carries the stripes of its keys; from \<open>WLock\<close> on it is counted in flight. \<open>MStart True\<close> is a
  flush, which waits for the flag; \<open>MStart False\<close> a reclaim, which gives up when the flag is taken.
\<close>

datatype task =
    WStart "nat list"
  | WLock "nat list" "nat list"
  | WBody "nat list"
  | WEnd bool
  | MStart bool
  | MDrain
  | MBody
  | MEnd bool
  | SStart
  | SDrain
  | SBody
  | SSealed
  | SEnd

record gate =
  gt_frozen :: bool
  gt_reclaim_in_progress :: bool
  gt_in_flight_writes :: nat
  gt_tasks :: "task list"

text \<open>\<^verbatim>\<open>idxs.sort_unstable(); idxs.dedup()\<close>: the stripes of a batch, ascending and distinct.\<close>

definition lock_order :: "nat list \<Rightarrow> nat list" where
  "lock_order idxs = sort (remdups idxs)"

fun held :: "task \<Rightarrow> nat list" where
  "held (WLock hs ls) = hs"
| "held (WBody hs) = hs"
| "held t = []"

fun in_flight :: "task \<Rightarrow> bool" where
  "in_flight (WLock hs ls) \<longleftrightarrow> True"
| "in_flight (WBody hs) \<longleftrightarrow> True"
| "in_flight t \<longleftrightarrow> False"

definition stripe_free :: "nat \<Rightarrow> task list \<Rightarrow> bool" where
  "stripe_free l ts \<longleftrightarrow> (\<forall>t \<in> set ts. l \<notin> set (held t))"

text \<open>
  What task \<open>t\<close> does next in gate \<open>g\<close>: the gate's flags and counter afterwards, and the task. There is no
  result while it has to wait.
\<close>

fun advance :: "gate \<Rightarrow> task \<Rightarrow> (bool \<times> bool \<times> nat \<times> task) option" where
  "advance g (WStart ls) =
     (if gt_reclaim_in_progress g then None
      else if gt_frozen g then Some (gt_frozen g, gt_reclaim_in_progress g, gt_in_flight_writes g, WEnd False)
      else Some (gt_frozen g, gt_reclaim_in_progress g, gt_in_flight_writes g + 1, WLock [] (lock_order ls)))"
| "advance g (WLock hs (l # ls)) =
     (if stripe_free l (gt_tasks g)
      then Some (gt_frozen g, gt_reclaim_in_progress g, gt_in_flight_writes g, WLock (hs @ [l]) ls) else None)"
| "advance g (WLock hs []) = Some (gt_frozen g, gt_reclaim_in_progress g, gt_in_flight_writes g, WBody hs)"
| "advance g (WBody hs) = Some (gt_frozen g, gt_reclaim_in_progress g, gt_in_flight_writes g - 1, WEnd True)"
| "advance g (MStart waits) =
     (if gt_reclaim_in_progress g
      then if waits then None
           else Some (gt_frozen g, gt_reclaim_in_progress g, gt_in_flight_writes g, MEnd False)
      else Some (gt_frozen g, True, gt_in_flight_writes g, MDrain))"
| "advance g MDrain =
     (if gt_in_flight_writes g > 0 then None
      else Some (gt_frozen g, gt_reclaim_in_progress g, gt_in_flight_writes g, MBody))"
| "advance g MBody = Some (gt_frozen g, False, gt_in_flight_writes g, MEnd True)"
| "advance g SStart = Some (True, gt_reclaim_in_progress g, gt_in_flight_writes g, SDrain)"
| "advance g SDrain =
     (if gt_in_flight_writes g > 0 then None
      else Some (gt_frozen g, gt_reclaim_in_progress g, gt_in_flight_writes g, SBody))"
| "advance g SBody = Some (gt_frozen g, gt_reclaim_in_progress g, gt_in_flight_writes g, SSealed)"
| "advance g SSealed = Some (False, gt_reclaim_in_progress g, gt_in_flight_writes g, SEnd)"
| "advance g t = None"

inductive gate_step :: "gate \<Rightarrow> gate \<Rightarrow> bool" where
  step: "i < length (gt_tasks g) \<Longrightarrow> advance g (gt_tasks g ! i) = Some (fz, rc, n, t) \<Longrightarrow>
    gate_step g \<lparr>gt_frozen = fz, gt_reclaim_in_progress = rc, gt_in_flight_writes = n, gt_tasks = (gt_tasks g)[i := t]\<rparr>"

fun starting :: "task \<Rightarrow> bool" where
  "starting (WStart ls) \<longleftrightarrow> True"
| "starting (MStart waits) \<longleftrightarrow> True"
| "starting SStart \<longleftrightarrow> True"
| "starting t \<longleftrightarrow> False"

fun ended :: "task \<Rightarrow> bool" where
  "ended (WEnd ok) \<longleftrightarrow> True"
| "ended (MEnd ok) \<longleftrightarrow> True"
| "ended SEnd \<longleftrightarrow> True"
| "ended t \<longleftrightarrow> False"

fun sealing :: "task \<Rightarrow> bool" where
  "sealing SStart \<longleftrightarrow> True"
| "sealing SDrain \<longleftrightarrow> True"
| "sealing SBody \<longleftrightarrow> True"
| "sealing SSealed \<longleftrightarrow> True"
| "sealing t \<longleftrightarrow> False"

definition gate_init :: "task list \<Rightarrow> gate" where
  "gate_init ts = \<lparr>gt_frozen = False, gt_reclaim_in_progress = False, gt_in_flight_writes = 0, gt_tasks = ts\<rparr>"

text \<open>The seal is driven by one handoff controller: there is at most one such task.\<close>

definition gate_start :: "task list \<Rightarrow> bool" where
  "gate_start ts \<longleftrightarrow> list_all starting ts \<and> length (filter sealing ts) \<le> 1"

definition gate_reach :: "task list \<Rightarrow> gate \<Rightarrow> bool" where
  "gate_reach ts g \<longleftrightarrow> gate_start ts \<and> gate_step\<^sup>*\<^sup>* (gate_init ts) g"

section \<open>Invariant\<close>

fun maintaining :: "task \<Rightarrow> bool" where
  "maintaining MDrain \<longleftrightarrow> True"
| "maintaining MBody \<longleftrightarrow> True"
| "maintaining t \<longleftrightarrow> False"

fun freezing :: "task \<Rightarrow> bool" where
  "freezing SDrain \<longleftrightarrow> True"
| "freezing SBody \<longleftrightarrow> True"
| "freezing SSealed \<longleftrightarrow> True"
| "freezing t \<longleftrightarrow> False"

fun exclusive :: "task \<Rightarrow> bool" where
  "exclusive MBody \<longleftrightarrow> True"
| "exclusive SBody \<longleftrightarrow> True"
| "exclusive t \<longleftrightarrow> False"

fun ascending :: "task \<Rightarrow> bool" where
  "ascending (WLock hs ls) \<longleftrightarrow> sorted_wrt (<) (hs @ ls)"
| "ascending t \<longleftrightarrow> True"

abbreviation count_if :: "('a \<Rightarrow> bool) \<Rightarrow> 'a list \<Rightarrow> nat" where
  "count_if P xs \<equiv> length (filter P xs)"

definition gate_inv :: "gate \<Rightarrow> bool" where
  "gate_inv g \<longleftrightarrow>
     gt_in_flight_writes g = count_if in_flight (gt_tasks g) \<and>
     count_if maintaining (gt_tasks g) = (if gt_reclaim_in_progress g then 1 else 0) \<and>
     count_if sealing (gt_tasks g) \<le> 1 \<and>
     count_if freezing (gt_tasks g) = (if gt_frozen g then 1 else 0) \<and>
     (count_if exclusive (gt_tasks g) > 0 \<longrightarrow> gt_in_flight_writes g = 0)"

definition locks_inv :: "gate \<Rightarrow> bool" where
  "locks_inv g \<longleftrightarrow>
     list_all ascending (gt_tasks g) \<and>
     (\<forall>i j. i < length (gt_tasks g) \<longrightarrow> j < length (gt_tasks g) \<longrightarrow> i \<noteq> j \<longrightarrow>
        set (held (gt_tasks g ! i)) \<inter> set (held (gt_tasks g ! j)) = {})"

lemma count_if_update:
  "i < length xs \<Longrightarrow> count_if P (xs[i := y]) + (if P (xs ! i) then 1 else 0) = count_if P xs + (if P y then 1 else 0)"
proof (induction xs arbitrary: i)
  case (Cons x xs)
  then show ?case by (cases i) auto
qed simp

lemma lock_order_ascending: "sorted_wrt (<) (lock_order ls)"
  by (simp add: lock_order_def strict_sorted_iff)

lemma count_if_le: "(\<And>x. P x \<Longrightarrow> Q x \<or> R x) \<Longrightarrow> count_if P xs \<le> count_if Q xs + count_if R xs"
  by (induction xs) auto

lemma exclusive_le: "count_if exclusive ts \<le> count_if maintaining ts + count_if freezing ts"
  by (rule count_if_le) (auto elim: exclusive.elims)

lemma sealing_split: "count_if sealing ts = count_if freezing ts + count_if (\<lambda>t. t = SStart) ts"
proof (induction ts)
  case (Cons t ts)
  then show ?case by (cases t) auto
qed simp

abbreviation bit_of :: "bool \<Rightarrow> nat" where
  "bit_of b \<equiv> if b then 1 else 0"

lemma advance_counts:
  assumes adv: "advance g x = Some (fz, rc, n, t)"
    and "a' + bit_of (in_flight x) = a + bit_of (in_flight t)" "m' + bit_of (maintaining x) = m + bit_of (maintaining t)"
    and "s' + bit_of (sealing x) = s + bit_of (sealing t)" "f' + bit_of (freezing x) = f + bit_of (freezing t)"
    and "e' + bit_of (exclusive x) = e + bit_of (exclusive t)"
    and "gt_in_flight_writes g = a" "m = bit_of (gt_reclaim_in_progress g)" "s \<le> 1" "f = bit_of (gt_frozen g)"
    and "e > 0 \<longrightarrow> a = 0" "e \<le> m + f" "in_flight x \<Longrightarrow> 0 < a" "x = SStart \<Longrightarrow> f < s"
  shows "n = a' \<and> m' = bit_of rc \<and> s' \<le> 1 \<and> f' = bit_of fz \<and> (e' > 0 \<longrightarrow> n = 0)"
proof (cases x)
  case (WLock hs ls)
  then have t: "in_flight t" "\<not> maintaining t" "\<not> sealing t" "\<not> freezing t" "\<not> exclusive t"
      "fz = gt_frozen g" "rc = gt_reclaim_in_progress g" "n = gt_in_flight_writes g"
    using adv by (cases ls; auto split: if_splits)+
  with WLock assms(2-) show ?thesis by (cases "gt_reclaim_in_progress g"; cases "gt_frozen g") auto
next
  case (WStart ls)
  with assms show ?thesis by (cases "gt_reclaim_in_progress g"; cases "gt_frozen g") auto
next
  case (MStart b)
  with assms show ?thesis by (cases "gt_reclaim_in_progress g"; cases b) auto
next
  case (WBody hs)
  with assms show ?thesis by (cases "gt_reclaim_in_progress g"; cases "gt_frozen g") auto
next
  case MDrain
  with assms show ?thesis by (cases "gt_in_flight_writes g > 0") auto
next
  case MBody
  with assms show ?thesis by (cases "gt_reclaim_in_progress g"; cases "gt_frozen g") auto
next
  case SStart
  with assms show ?thesis by (cases "gt_reclaim_in_progress g"; cases "gt_frozen g") auto
next
  case SDrain
  with assms show ?thesis by (cases "gt_in_flight_writes g > 0") auto
next
  case SBody
  with assms show ?thesis by (cases "gt_reclaim_in_progress g"; cases "gt_frozen g") auto
next
  case SSealed
  with assms show ?thesis by (cases "gt_reclaim_in_progress g"; cases "gt_frozen g") auto
qed (use adv in simp_all)

lemma gate_inv_step:
  assumes "gate_inv g" "gate_step g g'"
  shows "gate_inv g'"
  using assms(2)
proof cases
  case (step i fz rc n t)
  note upd = count_if_update[OF step(2), of _ t]
  have pos: "in_flight (gt_tasks g ! i) \<Longrightarrow> 0 < count_if in_flight (gt_tasks g)"
    using step(2) by (auto simp: filter_empty_conv)
  have fs: "gt_tasks g ! i = SStart \<Longrightarrow> count_if freezing (gt_tasks g) < count_if sealing (gt_tasks g)"
    unfolding sealing_split using step(2) by (auto simp: filter_empty_conv in_set_conv_nth) 
  show ?thesis
    unfolding step(1) gate_inv_def gate.simps
    by (rule advance_counts[OF step(3) upd upd upd upd upd])
      (use assms(1) pos fs exclusive_le[of "gt_tasks g"] in \<open>auto simp: gate_inv_def\<close>)
qed

lemma ascending_advance:
  assumes "advance g x = Some (fz, rc, n, t)" "ascending x"
  shows "ascending t" "set (held t) \<subseteq> set (held x) \<or> (\<exists>l. set (held t) = insert l (set (held x)) \<and> stripe_free l (gt_tasks g))"
  using assms lock_order_ascending by (cases "(g, x)" rule: advance.cases; auto split: if_splits)+

lemma locks_inv_step:
  assumes "locks_inv g" "gate_step g g'"
  shows "locks_inv g'"
  using assms(2)
proof cases
  case (step i fz rc n t)
  let ?ts = "gt_tasks g"
  have asc: "ascending (?ts ! i)" using assms(1) step(2) by (simp add: locks_inv_def list_all_length)
  note adv = ascending_advance[OF step(3) asc]
  have a: "list_all ascending (?ts[i := t])"
    using assms(1) adv(1) by (auto simp: locks_inv_def list_all_iff dest: set_update_subset_insert[THEN subsetD])
  have d: "set (held t) \<inter> set (held (?ts ! j)) = {}" if "j < length ?ts" "j \<noteq> i" for j
  proof -
    have dis: "set (held (?ts ! i)) \<inter> set (held (?ts ! j)) = {}" using assms(1) that step(2) by (auto simp: locks_inv_def)
    have "l \<notin> set (held (?ts ! j))" if "stripe_free l ?ts" for l
      using that \<open>j < length ?ts\<close> by (auto simp: stripe_free_def)
    then show ?thesis using dis adv(2) by auto
  qed
  show ?thesis
    unfolding step(1) locks_inv_def gate.simps using a d assms(1) step(2)
    by (auto simp: nth_list_update locks_inv_def split: if_splits)
qed

lemma gate_start_inv: "gate_start ts \<Longrightarrow> gate_inv (gate_init ts) \<and> locks_inv (gate_init ts)"
proof -
  assume st: "gate_start ts"
  then have s: "starting t" if "t \<in> set ts" for t using that by (simp add: gate_start_def list_all_iff)
  have none: "count_if P ts = 0" if "\<And>t. starting t \<Longrightarrow> \<not> P t" for P
    using s that by (auto simp: filter_empty_conv)
  have n: "\<not> in_flight t" "\<not> maintaining t" "\<not> freezing t" "\<not> exclusive t" "ascending t" "held t = []" if "starting t" for t
    using that by (cases t; simp)+
  have "held (ts ! i) = []" if "i < length ts" for i using s n(6) that by simp
  then show ?thesis using st none n s by (simp add: gate_inv_def locks_inv_def gate_init_def gate_start_def list_all_iff)
qed

lemma gate_reach_inv: "gate_reach ts g \<Longrightarrow> gate_inv g \<and> locks_inv g"
  unfolding gate_reach_def
proof (elim conjE)
  assume "gate_start ts" "gate_step\<^sup>*\<^sup>* (gate_init ts) g"
  from this(2) show ?thesis
    by (induction rule: rtranclp_induct) (use gate_start_inv[OF \<open>gate_start ts\<close>] gate_inv_step locks_inv_step in blast)+
qed

section \<open>Progress\<close>

fun task_cost :: "task \<Rightarrow> nat" where
  "task_cost (WStart ls) = length ls + 3"
| "task_cost (WLock hs ls) = length ls + 2"
| "task_cost (WBody hs) = 1"
| "task_cost (MStart waits) = 3"
| "task_cost MDrain = 2"
| "task_cost MBody = 1"
| "task_cost SStart = 4"
| "task_cost SDrain = 3"
| "task_cost SBody = 2"
| "task_cost SSealed = 1"
| "task_cost t = 0"

definition gate_cost :: "gate \<Rightarrow> nat" where
  "gate_cost g = sum_list (map task_cost (gt_tasks g))"

lemma length_lock_order: "length (lock_order ls) \<le> length ls"
  by (simp add: lock_order_def length_remdups_leq)

lemma advance_cost: "advance g x = Some (fz, rc, n, t) \<Longrightarrow> task_cost t < task_cost x"
  using length_lock_order by (cases "(g, x)" rule: advance.cases) (auto simp: less_Suc_eq_le split: if_splits)

lemma sum_list_update_less:
  "i < length xs \<Longrightarrow> f y < f (xs ! i) \<Longrightarrow> sum_list (map f (xs[i := y])) < (sum_list (map f xs) :: nat)"
proof (induction xs arbitrary: i)
  case (Cons x xs)
  then show ?case by (cases i) auto
qed simp

lemma gate_step_cost: "gate_step g g' \<Longrightarrow> gate_cost g' < gate_cost g"
  by (erule gate_step.cases) (auto simp: gate_cost_def intro!: sum_list_update_less advance_cost)

lemma gate_steps_cost: "(gate_step ^^ n) g g' \<Longrightarrow> n + gate_cost g' \<le> gate_cost g"
proof (induction n arbitrary: g')
  case (Suc n)
  from Suc.prems obtain h where "(gate_step ^^ n) g h" "gate_step h g'" by auto
  then show ?case using Suc.IH[of h] gate_step_cost[of h g'] by simp
qed simp

definition stuck :: "gate \<Rightarrow> bool" where
  "stuck g \<longleftrightarrow> (\<forall>g'. \<not> gate_step g g')"

lemma stuck_advance: "stuck g \<Longrightarrow> t \<in> set (gt_tasks g) \<Longrightarrow> advance g t = None"
  by (cases "advance g t") (auto simp: stuck_def in_set_conv_nth gate_step.simps)

text \<open>
  Among the writers that wait for a stripe, the one that waits for the highest is blocked by a writer
  that holds it; that one has everything it needs or waits for a higher stripe.
\<close>

lemma no_lock_cycle:
  assumes "stuck g" "locks_inv g" "t \<in> set (gt_tasks g)"
  shows "\<not> in_flight t"
proof
  assume fl: "in_flight t"
  note none = stuck_advance[OF assms(1)]
  define W where "W = {l. \<exists>hs ls. WLock hs (l # ls) \<in> set (gt_tasks g)}"
  have fin: "finite W"
  proof (rule finite_subset)
    show "W \<subseteq> \<Union> ((\<lambda>t. case t of WLock hs ls \<Rightarrow> set ls | _ \<Rightarrow> {}) ` set (gt_tasks g))"
      unfolding W_def by (force split: task.splits)
  qed (auto split: task.split)
  have lock: "\<exists>hs l ls. t = WLock hs (l # ls)" if "in_flight t" "t \<in> set (gt_tasks g)" for t
    using none[OF that(2)] that(1) by (cases "(g, t)" rule: advance.cases) auto
  have "Max W \<in> W" using lock[OF fl assms(3)] assms(3) fin by (intro Max_in) (auto simp: W_def)
  then obtain hs ls where b: "WLock hs (Max W # ls) \<in> set (gt_tasks g)" unfolding W_def by blast
  have "\<not> stripe_free (Max W) (gt_tasks g)" using none[OF b] by auto
  then obtain t' where t': "t' \<in> set (gt_tasks g)" "Max W \<in> set (held t')" by (auto simp: stripe_free_def)
  have "in_flight t'" using t'(2) by (cases t' rule: task.exhaust) simp_all
  from lock[OF this t'(1)] obtain hs' l' ls' where e: "t' = WLock hs' (l' # ls')" by blast
  have "ascending t'" using assms(2) t'(1) by (auto simp: locks_inv_def list_all_iff)
  then have "Max W < l'" using t'(2) by (auto simp: e sorted_wrt_append)
  moreover have "l' \<in> W" using t'(1) by (auto simp: W_def e)
  ultimately show False using Max_ge[OF fin, of l'] by auto
qed

lemma stuck_ended:
  assumes "stuck g" "gate_inv g" "locks_inv g" "t \<in> set (gt_tasks g)"
  shows "ended t"
proof -
  note none = stuck_advance[OF assms(1)]
  have "count_if in_flight (gt_tasks g) = 0"
    using no_lock_cycle[OF assms(1,3)] by (auto simp: filter_empty_conv)
  then have zero: "gt_in_flight_writes g = 0" using assms(2) by (simp add: gate_inv_def)
  have "\<not> maintaining t" if "t \<in> set (gt_tasks g)" for t
    using none[OF that] zero by (cases t) auto
  then have "count_if maintaining (gt_tasks g) = 0" by (auto simp: filter_empty_conv)
  then have "\<not> gt_reclaim_in_progress g" using assms(2) by (auto simp: gate_inv_def split: if_splits)
  then show ?thesis using none[OF assms(4)] zero no_lock_cycle[OF assms(1,3,4)]
    by (cases t) (auto split: if_splits)
qed

section \<open>Properties\<close>



text \<open>
  C7. The gate always lets everyone through: from any reachable state every schedule is finite, with a
  bound known in advance, and it can only stop when every writer, reclaim, flush and seal has ended.
  There is no deadlock between the stripe locks, the drain loops and the reclaim flag.
\<close>

theorem gate_always_drains:
  assumes "gate_reach ts g" "(gate_step ^^ n) g g'"
  shows "n \<le> gate_cost g \<and> ((\<forall>g''. \<not> gate_step g' g'') \<longrightarrow> (\<forall>t \<in> set (gt_tasks g'). ended t))"
proof -
  have "gate_reach ts g'" using assms by (auto simp: gate_reach_def intro: rtranclp_trans relpowp_imp_rtranclp)
  note inv = gate_reach_inv[OF this]
  show ?thesis using gate_steps_cost[OF assms(2)] stuck_ended[of g'] inv by (auto simp: stuck_def)
qed

theorem gate_always_drains_witness:
  "3 \<le> gate_cost (gate_init [MStart True]) \<and> list_all ended [MEnd True]"
proof -
  let ?g = "\<lambda>rc t. \<lparr>gt_frozen = False, gt_reclaim_in_progress = rc, gt_in_flight_writes = 0, gt_tasks = [t]\<rparr>"
  have "gate_step (?g False (MStart True)) (?g True MDrain)" "gate_step (?g True MDrain) (?g True MBody)"
    "gate_step (?g True MBody) (?g False (MEnd True))"
    using gate_step.step[of 0 "?g False (MStart True)" False True 0 MDrain] gate_step.step[of 0 "?g True MDrain" False True 0 MBody]
      gate_step.step[of 0 "?g True MBody" False False 0 "MEnd True"] by simp_all
  then have run: "(gate_step ^^ 3) (gate_init [MStart True]) (?g False (MEnd True))"
    by (auto simp: numeral_3_eq_3 gate_init_def)
  have "gate_reach [MStart True] (gate_init [MStart True])"
    by (simp add: gate_reach_def gate_start_def)
  from gate_always_drains[OF this run] show ?thesis by (auto simp: gate_step.simps)
qed

end
