(* ===== verification/Log_Fit.thy ===== *)
theory Log_Fit
  imports Ns_History
begin

text \<open>
  The room a history of a log needs: how far its revision counter and its blob contents move in one
  operation. From bounds on the clock and on the values that are written, the side conditions of the
  log's contract hold along any history.
\<close>

section \<open>Blobs\<close>

abbreviation blobs_of :: "ns_log \<Rightarrow> (bytes, bytes) omap" where
  "blobs_of st \<equiv> vs_blobs (nl_values st)"

lemma vs_dec_blobs [simp]: "vs_blobs (snd (vs_dec h vs)) = vs_blobs vs"
  by (auto simp: vs_dec_def Let_def split: option.split)

lemma unref_blobs [simp]: "vs_blobs (unref h vs) = vs_blobs vs"
  using vs_dec_blobs[of h vs] by (cases "vs_dec h vs") (auto simp: unref_def simp del: vs_dec_blobs split: bool.split)

lemma blobs_simps [simp]:
  "blobs_of (set_active f st) = blobs_of st"
  "blobs_of (with_index g st) = blobs_of st"
  "blobs_of (unref_opt x st) = blobs_of st"
  "blobs_of (add_unsynced n st) = blobs_of st"
  "blobs_of (seal_into_sealed st) = blobs_of st"
  "blobs_of (snd (open_new_active w i st)) = blobs_of st"
  "blobs_of (snd (append_active buf st)) = blobs_of st"
  "blobs_of (snd (apply_valsep_insert k e t h st)) = blobs_of st"
  "blobs_of (snd (next_tstamp clk st)) = blobs_of st"
  by (auto simp: set_active_def with_index_def unref_opt_def with_values_def add_unsynced_def seal_into_sealed_def
      open_new_active_def append_active_def apply_valsep_insert_def next_tstamp_def Let_def
      split: option.split prod.splits sum.splits)

lemma rotate_inner_blobs [simp]: "blobs_of (snd (rotate_active_inner w st)) = blobs_of st"
  by (auto simp: rotate_active_inner_def Let_def split: prod.splits sum.splits)

lemma rotate_blobs [simp]: "blobs_of (snd (rotate_active w st)) = blobs_of st"
  using rotate_inner_blobs[of w "st\<lparr>nl_rotate_in_progress := True\<rparr>"]
  by (simp add: rotate_active_def case_prod_beta Let_def)

lemma maybe_rotate_blobs [simp]: "blobs_of (snd (maybe_rotate w r st)) = blobs_of st"
  using rotate_blobs[of w st]
  by (cases "rotate_active w st") (auto simp: maybe_rotate_def simp del: rotate_blobs split: sum.splits)

definition blobs_grow :: "bytes option \<Rightarrow> ns_log \<Rightarrow> ns_log \<Rightarrow> bool" where
  "blobs_grow v st st' \<longleftrightarrow>
     (\<forall>h b. om_lookup (blobs_of st') h = Some b \<longrightarrow> om_lookup (blobs_of st) h = Some b \<or> v = Some b)"

lemma blobs_grow_same: "blobs_of st' = blobs_of st \<Longrightarrow> blobs_grow v st st'"
  by (simp add: blobs_grow_def)

lemma maybe_separate_blobs: "maybe_separate w v fl st = (Inr x, st') \<Longrightarrow> blobs_grow (Some v) st st'"
  by (auto simp: maybe_separate_def vs_put_def write_blob_durable_def blobs_grow_def Let_def
      split: if_splits prod.splits sum.splits blob_io.splits option.splits)

lemma write_record_blobs:
  assumes "write_record w clk k v m t st = (Inr r, st')"
  shows "blobs_grow (Some v) st st'"
proof -
  obtain ts st1 where n: "next_tstamp clk st = (ts, st1)" by fastforce
  obtain fl ex where fe: "expiry_fields t = (fl, ex)" by fastforce
  from assms obtain x st2 where s: "maybe_separate w v fl st1 = (Inr x, st2)"
    by (auto simp: write_record_def n fe split: sum.splits prod.splits)
  have "blobs_of st1 = blobs_of st" using blobs_simps(9)[of clk st] by (simp add: n)
  moreover have "blobs_of st' = blobs_of st2"
    using assms
    by (auto simp: write_record_def n fe s Let_def split: sum.splits prod.splits)
      (metis blobs_simps(3,4,7,8) maybe_rotate_blobs snd_conv)+
  ultimately show ?thesis using maybe_separate_blobs[OF s] by (simp add: blobs_grow_def)
qed

section \<open>Effect of an operation\<close>

text \<open>
  \<open>moves clk v st st'\<close>: the revision counter stayed or took one step at clock reading \<open>clk\<close>, and the only
  new blob content is \<open>v\<close>.
\<close>

definition moves :: "u64 \<Rightarrow> bytes option \<Rightarrow> ns_log \<Rightarrow> ns_log \<Rightarrow> bool" where
  "moves clk v st st' \<longleftrightarrow>
     (nl_last_tstamp st' = nl_last_tstamp st \<or> nl_last_tstamp st' = fst (next_tstamp clk st)) \<and> blobs_grow v st st'"

lemma moves_refl [simp]: "moves clk v st st"
  by (simp add: moves_def blobs_grow_def)

lemma moves_flight [simp]:
  "moves clk v (st\<lparr>nl_in_flight_writes := n\<rparr>) st' = moves clk v st st'"
  "moves clk v st (st'\<lparr>nl_in_flight_writes := n\<rparr>) = moves clk v st st'"
  by (auto simp: moves_def blobs_grow_def next_tstamp_def Let_def)

lemma moves_guarded:
  assumes "\<And>s x s'. body s = (Inr x, s') \<Longrightarrow> moves clk v s s'" "guarded body st = (Inr x, st')"
  shows "moves clk v st st'"
  using assms(2) assms(1)[of "st\<lparr>nl_in_flight_writes := nl_in_flight_writes st + 1\<rparr>"]
  by (auto simp: guarded_def begin_write_def Let_def split: sum.splits prod.splits if_splits)

lemma put_moves: "put_full w clk k v m t st = (Inr r, st') \<Longrightarrow> moves clk (Some v) st st'"
  unfolding put_full_def
  by (rule moves_guarded) (auto simp: moves_def write_record_last write_record_blobs)

lemma put_cond_moves: "put_full_cond w clk k v m t c now st = (Inr r, st') \<Longrightarrow> moves clk (Some v) st st'"
  unfolding put_full_cond_def
proof (erule moves_guarded[rotated], goal_cases)
  case (1 s x s')
  then show ?case
    using write_record_last(1)[of w clk k v m t s] write_record_blobs[of w clk k v m t s]
    by (auto simp: moves_def split: if_splits prod.splits sum.splits intro: blobs_grow_same)
qed

lemma append_tombstone_moves: "append_tombstone w clk k h st = (Inr x, st') \<Longrightarrow> moves clk v st st'"
proof -
  assume a: "append_tombstone w clk k h st = (Inr x, st')"
  obtain ts st1 where n: "next_tstamp clk st = (ts, st1)" by fastforce
  have b: "blobs_of st1 = blobs_of st" using blobs_simps(9)[of clk st] by (simp add: n)
  have "blobs_of s = blobs_of st" if "append_active buf st1 = (r, s)" for buf r s
    using blobs_simps(7)[of buf st1] that b by simp
  then have "blobs_of st' = blobs_of st" using a by (auto simp: append_tombstone_def n split: sum.splits prod.splits)
  then show ?thesis using append_tombstone_last(1)[of w clk k h st] a by (simp add: moves_def blobs_grow_same)
qed

lemma moves_index [simp]: "moves clk v (st\<lparr>nl_index := ix\<rparr>) st' = moves clk v st st'"
  "moves clk v (with_index g st) st' = moves clk v st st'"
  by (auto simp: moves_def blobs_grow_def next_tstamp_def with_index_def Let_def)

lemma del_moves: "tombstone w clk k st = (Inr r, st') \<Longrightarrow> moves clk v st st'"
  unfolding tombstone_def
proof (erule moves_guarded[rotated], goal_cases)
  case (1 s x s')
  then show ?case
    using append_tombstone_moves[of w clk k "valsep (nl_index s) k" "s\<lparr>nl_index := snd (ix_remove k (nl_index s))\<rparr>" x s' v]
    by (auto simp: Let_def case_prod_beta split: if_splits simp: moves_def blobs_grow_def)
qed

lemma del_cond_moves: "tombstone_cond w clk k rv now st = (Inr r, st') \<Longrightarrow> moves clk v st st'"
  unfolding tombstone_cond_def
proof (erule moves_guarded[rotated], goal_cases)
  case (1 s x s')
  then show ?case
    using append_tombstone_moves[of w clk k "valsep (nl_index s) k" "with_index (\<lambda>ix. snd (ix_remove k ix)) s" x s' v]
    by (auto split: if_splits)
qed

lemma expire_moves: "ttl_update w clk k t st = (Inr r, st') \<Longrightarrow> moves clk v st st'"
  unfolding ttl_update_def
proof (erule moves_guarded[rotated], goal_cases)
  case (1 s x s')
  obtain ts s1 where n: "next_tstamp clk s = (ts, s1)" by fastforce
  have b: "blobs_of s1 = blobs_of s" "nl_last_tstamp s1 = ts"
    using blobs_simps(9)[of clk s] n by (auto simp: next_tstamp_def Let_def)
  have "blobs_of s2 = blobs_of s \<and> nl_last_tstamp s2 = ts" if "append_active buf s1 = (r, s2)" for buf r s2
    using blobs_simps(7)[of buf s1] last_tstamp_frames(2)[of buf s1] that b by simp
  then have "blobs_of s' = blobs_of s \<and> nl_last_tstamp s' = ts"
    using 1 by (auto simp: n Let_def split: sum.splits prod.splits option.splits)
  then show ?case by (simp add: moves_def n blobs_grow_same)
qed

lemma flush_moves: "flush w clk st = (Inr r, st') \<Longrightarrow> moves clk v st st'"
proof -
  assume f: "flush w clk st = (Inr r, st')"
  obtain ts st1 where n: "next_tstamp clk (st\<lparr>nl_reclaim_in_progress := True\<rparr>) = (ts, st1)" by force
  have b: "blobs_of st1 = blobs_of st" "nl_last_tstamp st1 = ts" "fst (next_tstamp clk st) = ts"
    using n by (auto simp: next_tstamp_def Let_def)
  have o1: "blobs_of s2 = blobs_of s1 \<and> nl_last_tstamp s2 = nl_last_tstamp s1" if "open_new_active w i s1 = (x, s2)" for i s1 x s2
    using blobs_simps(6)[of w i s1] last_tstamp_frames(1)[of w i s1] that by simp
  have "blobs_of s = blobs_of st \<and> nl_last_tstamp s = ts" if "flush_inner w st1 = (x, s)" for x s
    using that b by (auto simp: flush_inner_def Let_def dest!: o1 split: option.splits if_splits)
  then show ?thesis using f b by (auto simp: flush_def n moves_def Let_def split: prod.splits if_splits intro: blobs_grow_same)
qed

lemma merge_level_blobs: "blobs_of (snd (merge_level w lvl ids i st)) = blobs_of st"
  by (auto simp: merge_level_def Let_def split: prod.split sum.split)

lemma reclaim_cascade_blobs: "blobs_of (snd (reclaim_cascade w t st)) = blobs_of st"
proof (induction w t st rule: reclaim_cascade.induct)
  case (1 w t st)
  have m: "blobs_of s = blobs_of st" if "merge_level w lvl ids i st = (x, s)" for lvl ids i x s
    using merge_level_blobs[of w lvl ids i st] that by simp
  show ?case
    by (subst reclaim_cascade.simps) (auto simp: 1 dest: m split: option.splits sum.splits prod.splits)
qed

lemma reclaim_blobs: "blobs_of (snd (reclaim w st)) = blobs_of st"
proof -
  have c: "blobs_of s2 = blobs_of s" if "reclaim_cascade w t s = (x, s2)" for t s x s2
    using reclaim_cascade_blobs[of w t s] that by simp
  have o1: "blobs_of s2 = blobs_of s" if "open_new_active w i s = (x, s2)" for i s x s2
    using blobs_simps(6)[of w i s] that by simp
  have "blobs_of s = blobs_of st" if "reclaim_inner w (st\<lparr>nl_reclaim_in_progress := b\<rparr>) = (x, s)" for b x s
    using that by (auto simp: reclaim_inner_def Let_def dest!: c o1 split: prod.splits sum.splits)
  then show ?thesis by (auto simp: reclaim_def split: prod.split)
qed

lemma reclaim_moves: "reclaim w st = (r, st') \<Longrightarrow> moves clk v st st'"
  using reclaim_blobs[of w st] reclaim_last[of w st] by (simp add: moves_def blobs_grow_same)

lemma gc_blobs_subset: "om_lookup (vs_blobs (collect_garbage rm vs)) h = Some b \<Longrightarrow> om_lookup (vs_blobs vs) h = Some b"
proof -
  have "om_lookup (vs_blobs (fold (gc_one rm) hs vs)) h = Some b \<Longrightarrow> om_lookup (vs_blobs vs) h = Some b" for hs vs
    by (induction hs arbitrary: vs) (fastforce simp: gc_one_def split: if_splits)+
  from this[of "vs_pending vs" "vs\<lparr>vs_pending := []\<rparr>"] show "om_lookup (vs_blobs (collect_garbage rm vs)) h = Some b \<Longrightarrow> ?thesis"
    by (simp add: collect_garbage_def)
qed

lemma sync_moves: "sync_log w st = (r, st') \<Longrightarrow> moves clk v st st'"
  by (auto simp: sync_log_def moves_def blobs_grow_def with_values_def Let_def dest: gc_blobs_subset
      split: if_splits sum.splits)

lemma seal_moves: "seal_active_for_shutdown w st = (r, st') \<Longrightarrow> moves clk v st st'"
  by (auto simp: seal_active_for_shutdown_def moves_def Let_def intro: blobs_grow_same split: if_splits prod.splits sum.splits)

lemma reopen_moves: "reopen_active_after_seal w st = (r, st') \<Longrightarrow> moves clk v st st'"
proof -
  have o1: "blobs_of s2 = blobs_of s \<and> nl_last_tstamp s2 = nl_last_tstamp s" if "open_new_active w i s = (x, s2)" for i s x s2
    using blobs_simps(6)[of w i s] last_tstamp_frames(1)[of w i s] that by simp
  show "reopen_active_after_seal w st = (r, st') \<Longrightarrow> moves clk v st st'"
    by (auto simp: reopen_active_after_seal_def moves_def Let_def dest!: o1 intro: blobs_grow_same split: sum.splits prod.splits)
qed

lemma rotate_moves: "rotate_active w st = (r, st') \<Longrightarrow> moves clk v st st'"
  using rotate_blobs[of w st] rotate_last[of w st] by (simp add: moves_def blobs_grow_same)

fun clock_of :: "log_op \<Rightarrow> u64" where
  "clock_of (LPut clk k v m t) = clk"
| "clock_of (LPutCond clk k v m t c now) = clk"
| "clock_of (LDel clk k) = clk"
| "clock_of (LDelCond clk k r now) = clk"
| "clock_of (LExpire clk k t) = clk"
| "clock_of (LFlush clk) = clk"
| "clock_of c = 0"

lemma replied_InrD: "replied g p = (Inr r, st') \<Longrightarrow> \<exists>x. p = (Inr x, st') \<and> r = g x"
  by (cases p; cases "fst p") (auto simp: replied_def)

lemma log_step_moves:
  assumes "log_step w op st = (Inr r, st')"
  obtains v where "moves (clock_of op) v st st'" "set_option v \<subseteq> set (values_of op)"
proof -
  have "\<exists>v. moves (clock_of op) v st st' \<and> set_option v \<subseteq> set (values_of op)"
  proof (cases op)
    case (LPut clk k v m t)
    then show ?thesis using assms by (auto dest!: replied_InrD intro!: exI[of _ "Some v"] put_moves)
  next
    case (LPutCond clk k v m t c now)
    then show ?thesis using assms by (auto intro!: exI[of _ "Some v"] put_cond_moves)
  qed (use assms in \<open>auto dest!: replied_InrD intro!: exI[of _ None] intro: del_moves del_cond_moves expire_moves
      flush_moves sync_moves reclaim_moves seal_moves reopen_moves rotate_moves\<close>)
  then show thesis using that by blast
qed

section \<open>Room\<close>

text \<open>
  The counter is at most \<open>N\<close>, every blob on disk has its content in \<open>V\<close>, and the content hash tells the
  values of \<open>V\<close> apart. Then an operation whose clock reading is at most \<open>N\<close> and whose values are in \<open>V\<close> finds
  the side conditions of the log's contract, and leaves the counter at most \<open>N + 1\<close>.
\<close>

definition log_fit :: "world \<Rightarrow> bytes set \<Rightarrow> nat \<Rightarrow> ns_log \<Rightarrow> bool" where
  "log_fit w V N st \<longleftrightarrow>
     inj_on (content_hash (w_blake w)) V \<and> unat (nl_last_tstamp st) \<le> N \<and>
     (\<forall>h b. om_lookup (blobs_of st) h = Some b \<longrightarrow> b \<in> V)"

lemma log_fit_mono: "log_fit w V N st \<Longrightarrow> N \<le> M \<Longrightarrow> log_fit w V M st"
  by (simp add: log_fit_def)

lemma fit_room: "log_fit w V N st \<Longrightarrow> N + 1 < 2 ^ 64 \<Longrightarrow> tstamp_room st"
proof -
  have "unat (- 1 :: u64) = 2 ^ 64 - 1" by code_simp
  then show "log_fit w V N st \<Longrightarrow> N + 1 < 2 ^ 64 \<Longrightarrow> tstamp_room st" by (auto simp: log_fit_def tstamp_room_def)
qed

lemma fit_no_collision: "log_fit w V N st \<Longrightarrow> v \<in> V \<Longrightarrow> no_collision w v st"
  by (auto simp: log_fit_def no_collision_def dest: inj_onD)

lemma next_tstamp_bound:
  assumes "unat (nl_last_tstamp st) \<le> N" "unat clk \<le> N" "N + 1 < 2 ^ 64"
  shows "unat (fst (next_tstamp clk st)) \<le> N + 1"
proof -
  have "unat (nl_last_tstamp st + 1) \<le> unat (nl_last_tstamp st) + 1"
    by (simp add: unat_word_ariths(1) mod_less_eq_dividend)
  then show ?thesis using assms by (auto simp: next_tstamp_def Let_def)
qed

lemma moves_fit:
  assumes "moves clk v st st'" "log_fit w V N st" "unat clk \<le> N" "set_option v \<subseteq> V" "N + 1 < 2 ^ 64"
  shows "log_fit w V (N + 1) st'"
proof -
  have last_le: "unat (nl_last_tstamp st) \<le> N" using assms(2) by (simp add: log_fit_def)
  from assms(1) have "nl_last_tstamp st' = nl_last_tstamp st \<or> nl_last_tstamp st' = fst (next_tstamp clk st)"
    unfolding moves_def by blast
  then have "unat (nl_last_tstamp st') \<le> N + 1"
    using next_tstamp_bound[OF last_le assms(3,5)] last_le by (elim disjE) simp_all
  moreover have "b \<in> V" if "om_lookup (blobs_of st') h = Some b" for h b
  proof -
    have "om_lookup (blobs_of st) h = Some b \<or> v = Some b" using assms(1) that unfolding moves_def blobs_grow_def by blast
    then show ?thesis using assms(2,4) unfolding log_fit_def by auto
  qed
  ultimately show ?thesis using assms(2) unfolding log_fit_def by blast
qed

section \<open>The log's contract\<close>

text \<open>
  What a client of a log relies on: it stands for a map, and an operation that succeeds within the room
  is a step of the specification and uses up at most one unit of room.
\<close>

locale kv_log =
  fixes rel :: "kv_map \<Rightarrow> 'l \<Rightarrow> bool" and fit :: "nat \<Rightarrow> 'l \<Rightarrow> bool"
    and step :: "log_op \<Rightarrow> 'l \<Rightarrow> u64 option eresult \<times> 'l" and vals :: "bytes set"
  assumes step_refines: "rel A l \<Longrightarrow> fit N l \<Longrightarrow> N + 1 < 2 ^ 64 \<Longrightarrow> unat (clock_of c) \<le> N \<Longrightarrow> set (values_of c) \<subseteq> vals \<Longrightarrow>
      step c l = (Inr r, l') \<Longrightarrow> \<exists>A'. spec_step c (Inr r) A A' \<and> rel A' l' \<and> fit (N + 1) l'"
    and fit_le: "fit N l \<Longrightarrow> N \<le> M \<Longrightarrow> fit M l"
begin

lemma took:
  assumes "rel A l" "fit N l" "N + 1 < 2 ^ 64" "unat (clock_of c) \<le> N" "set (values_of c) \<subseteq> vals"
    and "step c l = (Inr (Some r), l')"
  obtains A' where "effect c r A = Some A'" "newer r A" "rel A' l'" "fit (N + 1) l'"
proof -
  obtain A' where "spec_step c (Inr (Some r)) A A'" "rel A' l'" "fit (N + 1) l'" using step_refines[OF assms] by blast
  then show thesis using that by (auto elim: spec_step.cases)
qed

lemma refused:
  assumes "rel A l" "fit N l" "N + 1 < 2 ^ 64" "unat (clock_of c) \<le> N" "set (values_of c) \<subseteq> vals"
    and "step c l = (Inr None, l')"
  shows "rel A l'" "fit (N + 1) l'" "effect c r A = None"
proof -
  obtain A' where "spec_step c (Inr None) A A'" "rel A' l'" "fit (N + 1) l'" using step_refines[OF assms] by blast
  then show "rel A l'" "fit (N + 1) l'" "effect c r A = None" by (auto elim: spec_step.cases)
qed

end

text \<open>The namespace log provides it.\<close>

interpretation lg: kv_log "log_rel w" "log_fit w V" "log_step w" V
proof
  fix A l N c r l'
  assume a: "log_rel w A l" "log_fit w V N l" "N + 1 < 2 ^ 64" "unat (clock_of c) \<le> N" "set (values_of c) \<subseteq> V"
    "log_step w c l = (Inr r, l')"
  have "list_all (\<lambda>v. no_collision w v l) (values_of c)"
    using fit_no_collision[OF a(2)] a(5) by (auto simp: list_all_iff)
  then obtain A' where A': "spec_step c (Inr r) A A'" "log_rel w A' l'"
    using log_step_refines[OF a(1) fit_room[OF a(2,3)], of c] a(6) by auto
  obtain v where v: "moves (clock_of c) v l l'" "set_option v \<subseteq> set (values_of c)" using log_step_moves[OF a(6)] by blast
  have "log_fit w V (N + 1) l'" using moves_fit[OF v(1) a(2,4) _ a(3)] v(2) a(5) by blast
  then show "\<exists>A'. spec_step c (Inr r) A A' \<and> log_rel w A' l' \<and> log_fit w V (N + 1) l'" using A' by blast
qed (rule log_fit_mono)

end
