(* ===== verification/Shard_Store.thy ===== *)
theory Shard_Store
  imports Ns_Reclaim Mem_Cache Glob Decimal
begin

text \<open>
  \<^verbatim>\<open>engine/src/store.rs\<close>: the store of one shard, a map of namespace logs behind one cache and one watch
  registry. Its state is the record \<open>shard_store\<close>; every method is an action that threads that state and
  may end in an error, which is what \<^verbatim>\<open>?\<close> does in the source. A method runs to completion here. Readings
  of the clocks are arguments: \<open>now\<close> for \<^verbatim>\<open>now_ms()\<close>, \<open>inst\<close> for \<^verbatim>\<open>Instant::now()\<close>, \<open>clk\<close> for the readings
  the log takes itself.
\<close>

section \<open>State and environment\<close>

record ('j, 's) store_env =
  se_world :: "bytes \<Rightarrow> world"
  se_to_vec :: "'j \<Rightarrow> bytes option"
  se_from_slice :: "bytes \<Rightarrow> 'j option"
  se_is_closed :: "'s \<Rightarrow> bool"
  se_channel :: "nat \<Rightarrow> 's"
  se_try_send :: "'j watch_event \<Rightarrow> 's \<Rightarrow> 's option"

text \<open>
  \<open>ss_disk\<close> is what the shard's directory holds for the namespaces that are not open: the data files and
  the blobs of each.
\<close>

record ('j, 's) shard_store =
  ss_disk :: "(bytes, data_dir \<times> (bytes, bytes) omap) omap"
  ss_config :: log_config
  ss_namespaces :: "(bytes, ns_log) omap"
  ss_cache :: "'j mem_cache"
  ss_watchers :: "'s watch_registry"
  ss_cache_hit_count :: u64
  ss_cache_miss_count :: u64

type_synonym ('a, 'j, 's) action = "('j, 's) shard_store \<Rightarrow> 'a eresult \<times> ('j, 's) shard_store"

definition MAX_NAMESPACES :: nat where
  "MAX_NAMESPACES = 1024"

definition DEFAULT_NS :: bytes where
  "DEFAULT_NS = ascii ''default''"

section \<open>Actions\<close>

definition sret :: "'a \<Rightarrow> 'st \<Rightarrow> ('e + 'a) \<times> 'st" where
  "sret x s = (Inr x, s)"

definition slift :: "'e + 'a \<Rightarrow> 'st \<Rightarrow> ('e + 'a) \<times> 'st" where
  "slift r s = (r, s)"

definition sbind :: "('st \<Rightarrow> ('e + 'a) \<times> 'st) \<Rightarrow> ('a \<Rightarrow> 'st \<Rightarrow> ('e + 'b) \<times> 'st) \<Rightarrow> 'st \<Rightarrow> ('e + 'b) \<times> 'st" where
  "sbind m f s = (case m s of (Inl e, s') \<Rightarrow> (Inl e, s') | (Inr x, s') \<Rightarrow> f x s')"

definition smodify :: "('st \<Rightarrow> 'st) \<Rightarrow> 'st \<Rightarrow> ('e + unit) \<times> 'st" where
  "smodify g s = (Inr (), g s)"

fun seach :: "('a \<Rightarrow> 'st \<Rightarrow> ('e + unit) \<times> 'st) \<Rightarrow> 'a list \<Rightarrow> 'st \<Rightarrow> ('e + unit) \<times> 'st" where
  "seach f [] = sret ()"
| "seach f (x # xs) = sbind (f x) (\<lambda>u. seach f xs)"

section \<open>Names\<close>

definition ns_name :: "u64 \<Rightarrow> bytes" where
  "ns_name db = (if db = 0 then DEFAULT_NS else ascii ''db'' @ dec_of_nat (unat db))"

definition is_ns_byte :: "u8 \<Rightarrow> bool" where
  "is_ns_byte b \<longleftrightarrow> (48 \<le> b \<and> b \<le> 57) \<or> (65 \<le> b \<and> b \<le> 90) \<or> (97 \<le> b \<and> b \<le> 122) \<or> b = 95 \<or> b = 45"

definition is_valid_ns_name :: "bytes \<Rightarrow> bool" where
  "is_valid_ns_name name \<longleftrightarrow> name \<noteq> [] \<and> length name \<le> 64 \<and> list_all is_ns_byte name"

definition cache_key :: "bytes \<Rightarrow> bytes \<Rightarrow> bytes" where
  "cache_key ns key = ns @ [0] @ key"

section \<open>Parts of the operations\<close>

definition set_log :: "bytes \<Rightarrow> ns_log \<Rightarrow> ('j, 's) shard_store \<Rightarrow> ('j, 's) shard_store" where
  "set_log ns l s = s\<lparr>ss_namespaces := om_insert ns l (ss_namespaces s)\<rparr>"

text \<open>\<^verbatim>\<open>ensure_ns\<close> without a concurrent opener: the checks after the await repeat those before it.\<close>

definition ensure_ns :: "('j, 's) store_env \<Rightarrow> bytes \<Rightarrow> (unit, 'j, 's) action" where
  "ensure_ns env ns s =
     (if \<not> is_valid_ns_name ns then (Inl (InvalidNamespace ns), s)
      else case om_lookup (ss_namespaces s) ns of
             Some l \<Rightarrow> (Inr (), s)
           | None \<Rightarrow>
               if om_size (ss_namespaces s) \<ge> MAX_NAMESPACES
               then (Inl (CapacityExceeded ''namespace limit reached''), s)
               else let (dir, blobs) = (case om_lookup (ss_disk s) ns of Some d \<Rightarrow> d | None \<Rightarrow> (om_empty, om_empty))
                    in case open_log (se_world env ns) (ss_config s) dir blobs of
                         (Inl e, dir') \<Rightarrow> (Inl e, s\<lparr>ss_disk := om_insert ns (dir', blobs) (ss_disk s)\<rparr>)
                       | (Inr l, dir') \<Rightarrow> (Inr (), set_log ns l s))"

text \<open>
  A call on the handle that \<^verbatim>\<open>ensure_ns\<close> returned. The handle is the one in the map, which only grows;
  the last case does not arise after \<open>ensure_ns\<close>.
\<close>

definition on_log :: "('j, 's) store_env \<Rightarrow> bytes \<Rightarrow> (world \<Rightarrow> ns_log \<Rightarrow> 'a eresult \<times> ns_log) \<Rightarrow> ('a, 'j, 's) action" where
  "on_log env ns f s =
     (case om_lookup (ss_namespaces s) ns of
        Some l \<Rightarrow> (let (r, l') = f (se_world env ns) l in (r, set_log ns l' s))
      | None \<Rightarrow> (Inl (InvalidNamespace ns), s))"

definition log_view :: "('j, 's) store_env \<Rightarrow> bytes \<Rightarrow> (world \<Rightarrow> ns_log \<Rightarrow> 'a eresult) \<Rightarrow> ('a, 'j, 's) action" where
  "log_view env ns f = on_log env ns (\<lambda>w l. (f w l, l))"

definition index_lookup :: "('j, 's) store_env \<Rightarrow> bytes \<Rightarrow> bytes \<Rightarrow> ((index_entry \<times> u64 option) option, 'j, 's) action" where
  "index_lookup env ns key =
     log_view env ns (\<lambda>w l. Inr (map_option (\<lambda>e. (e, ttl_of (nl_index l) key)) (ix_get (nl_index l) key)))"

definition expired :: "u64 option \<Rightarrow> u64 \<Rightarrow> bool" where
  "expired expires_at_ms now \<longleftrightarrow> (case expires_at_ms of Some ms \<Rightarrow> ms \<le> now | None \<Rightarrow> False)"

definition on_cache :: "('j mem_cache \<Rightarrow> 'j mem_cache) \<Rightarrow> (unit, 'j, 's) action" where
  "on_cache g = smodify (\<lambda>s. s\<lparr>ss_cache := g (ss_cache s)\<rparr>)"

definition cache_lookup :: "bytes \<Rightarrow> bytes \<Rightarrow> u64 \<Rightarrow> ('j hit option, 'j, 's) action" where
  "cache_lookup ns key now s =
     (let (h, c) = cache_get (cache_key ns key) now (ss_cache s) in (Inr h, s\<lparr>ss_cache := c\<rparr>))"

definition cache_drop :: "bytes \<Rightarrow> bytes \<Rightarrow> (unit, 'j, 's) action" where
  "cache_drop ns key = on_cache (cache_remove (cache_key ns key))"

definition cache_fill :: "bytes \<Rightarrow> bytes \<Rightarrow> 'j hit \<Rightarrow> nat \<Rightarrow> (unit, 'j, 's) action" where
  "cache_fill ns key h meta_len = on_cache (cache_insert (cache_key ns key) h meta_len)"

definition upsert_cache :: "bytes \<Rightarrow> bytes \<Rightarrow> 'j hit \<Rightarrow> nat \<Rightarrow> (unit, 'j, 's) action" where
  "upsert_cache ns key h meta_len =
     on_cache (\<lambda>c. case try_update (cache_key ns key) h meta_len c of
                     (True, c') \<Rightarrow> c'
                   | (False, c') \<Rightarrow> cache_insert (cache_key ns key) h meta_len c')"

definition notify_watchers :: "('j, 's) store_env \<Rightarrow> bytes \<Rightarrow> bytes \<Rightarrow> 'j watch_event \<Rightarrow> (unit, 'j, 's) action" where
  "notify_watchers env ns key event =
     smodify (\<lambda>s. s\<lparr>ss_watchers := notify (se_try_send env) ns key event (ss_watchers s)\<rparr>)"

definition instant_from_ms :: "u64 option \<Rightarrow> u64 \<Rightarrow> nat \<Rightarrow> nat option" where
  "instant_from_ms expires_at_ms now inst = map_option (\<lambda>ms. inst + unat (saturating_sub64 ms now)) expires_at_ms"

definition entry_of :: "u64 \<Rightarrow> nat \<Rightarrow> 'j hit \<Rightarrow> 'j entry" where
  "entry_of now inst h =
     (case h of (v, expires_at_ms, metadata, revision) \<Rightarrow>
        \<lparr>ent_value = v, ent_expires_at = instant_from_ms expires_at_ms now inst, ent_metadata = metadata,
         ent_revision = revision\<rparr>)"

definition metadata_from_bytes :: "('j, 's) store_env \<Rightarrow> bytes \<Rightarrow> 'j option eresult" where
  "metadata_from_bytes env m =
     (if m = [] then Inr None
      else case se_from_slice env m of Some j \<Rightarrow> Inr (Some j) | None \<Rightarrow> Inl MetadataJson)"

definition metadata_to_bytes :: "('j, 's) store_env \<Rightarrow> 'j option \<Rightarrow> bytes eresult" where
  "metadata_to_bytes env m =
     (case m of None \<Rightarrow> Inr []
      | Some j \<Rightarrow> (case se_to_vec env j of Some b \<Rightarrow> Inr b | None \<Rightarrow> Inl MetadataJson))"

definition validate_ttl :: "nat \<Rightarrow> u64 \<Rightarrow> u64 eresult" where
  "validate_ttl d now =
     (if d > u64_max then Inl (CapacityExceeded ''ttl exceeds u64::MAX milliseconds'')
      else ok_or (checked_add64 now (of_nat d)) (CapacityExceeded ''ttl would overflow absolute expiry timestamp''))"

definition validate_ttl_opt :: "nat option \<Rightarrow> u64 \<Rightarrow> u64 option eresult" where
  "validate_ttl_opt ttl now = (case ttl of None \<Rightarrow> Inr None | Some d \<Rightarrow> rbind (validate_ttl d now) (\<lambda>ms. Inr (Some ms)))"

definition expiry_of :: "('j, 's) store_env \<Rightarrow> bytes \<Rightarrow> bytes \<Rightarrow> 'j set_options \<Rightarrow> u64 \<Rightarrow> (u64 option, 'j, 's) action" where
  "expiry_of env ns key opts now =
     (if so_keep_ttl opts then log_view env ns (\<lambda>w l. Inr (ttl_of (nl_index l) key))
      else slift (validate_ttl_opt (so_ttl opts) now))"

text \<open>A write that took place reaches the cache and the watchers.\<close>

definition publish_set ::
  "('j, 's) store_env \<Rightarrow> bytes \<Rightarrow> bytes \<Rightarrow> bytes \<Rightarrow> u64 option \<Rightarrow> 'j option \<Rightarrow> nat \<Rightarrow> u64 \<Rightarrow> (unit, 'j, 's) action" where
  "publish_set env ns key value expires_at_ms metadata meta_len revision =
     sbind (upsert_cache ns key (value, expires_at_ms, metadata, revision) meta_len) (\<lambda>u.
       notify_watchers env ns key (WatchSet key value metadata expires_at_ms revision))"

definition publish_del :: "('j, 's) store_env \<Rightarrow> bytes \<Rightarrow> bytes \<Rightarrow> u64 \<Rightarrow> (unit, 'j, 's) action" where
  "publish_del env ns key revision = notify_watchers env ns key (WatchDel key revision)"

text \<open>The lazy deletion of an expired key by a reader.\<close>

definition drop_expired :: "('j, 's) store_env \<Rightarrow> u64 \<Rightarrow> bytes \<Rightarrow> bytes \<Rightarrow> (unit, 'j, 's) action" where
  "drop_expired env clk ns key =
     sbind (on_log env ns (\<lambda>w. tombstone w clk key)) (\<lambda>r. cache_drop ns key)"

text \<open>The value and the metadata of an index entry, as a cache entry.\<close>

definition read_hit :: "('j, 's) store_env \<Rightarrow> bytes \<Rightarrow> index_entry \<Rightarrow> u64 option \<Rightarrow> ('j hit \<times> nat, 'j, 's) action" where
  "read_hit env ns e expires_at_ms =
     sbind (log_view env ns (\<lambda>w l. read_value w l e)) (\<lambda>(value, meta_bytes).
     sbind (slift (metadata_from_bytes env meta_bytes)) (\<lambda>metadata.
       sret ((value, expires_at_ms, metadata, ie_tstamp_ms e), length meta_bytes)))"

definition get_inline ::
  "('j, 's) store_env \<Rightarrow> u64 \<Rightarrow> nat \<Rightarrow> u64 \<Rightarrow> bytes \<Rightarrow> bytes \<Rightarrow> ('j entry option, 'j, 's) action" where
  "get_inline env now inst clk ns key =
     sbind (cache_lookup ns key now) (\<lambda>h.
       case h of
         Some h \<Rightarrow> sret (Some (entry_of now inst h))
       | None \<Rightarrow>
           sbind (index_lookup env ns key) (\<lambda>r.
             case r of
               None \<Rightarrow> sret None
             | Some (e, expires_at_ms) \<Rightarrow>
                 if expired expires_at_ms now then sbind (drop_expired env clk ns key) (\<lambda>u. sret None)
                 else sbind (read_hit env ns e expires_at_ms) (\<lambda>(h, n). sret (Some (entry_of now inst h)))))"

section \<open>Reads\<close>

text \<open>
  \<^verbatim>\<open>get\<close> in the two parts its await separates: the lookup in the cache and the index, which either
  answers or leaves an index entry to read, and the read that fills the cache.
\<close>

definition count_hit :: "(unit, 'j, 's) action" where
  "count_hit = smodify (\<lambda>s. s\<lparr>ss_cache_hit_count := ss_cache_hit_count s + 1\<rparr>)"

definition count_miss :: "(unit, 'j, 's) action" where
  "count_miss = smodify (\<lambda>s. s\<lparr>ss_cache_miss_count := ss_cache_miss_count s + 1\<rparr>)"

definition get_lookup ::
  "('j, 's) store_env \<Rightarrow> u64 \<Rightarrow> nat \<Rightarrow> u64 \<Rightarrow> bytes \<Rightarrow> bytes \<Rightarrow> ('j entry option + index_entry \<times> u64 option, 'j, 's) action" where
  "get_lookup env now inst clk ns key =
     sbind (ensure_ns env ns) (\<lambda>u.
     sbind (cache_lookup ns key now) (\<lambda>h.
       case h of
         Some h \<Rightarrow> sbind count_hit (\<lambda>u. sret (Inl (Some (entry_of now inst h))))
       | None \<Rightarrow>
           sbind count_miss (\<lambda>u.
           sbind (index_lookup env ns key) (\<lambda>r.
             case r of
               None \<Rightarrow> sret (Inl None)
             | Some (e, expires_at_ms) \<Rightarrow>
                 if expired expires_at_ms now then sbind (drop_expired env clk ns key) (\<lambda>u. sret (Inl None))
                 else sret (Inr (e, expires_at_ms))))))"

definition get_fill ::
  "('j, 's) store_env \<Rightarrow> u64 \<Rightarrow> nat \<Rightarrow> bytes \<Rightarrow> bytes \<Rightarrow> index_entry \<times> u64 option \<Rightarrow> ('j entry option, 'j, 's) action" where
  "get_fill env now inst ns key p =
     (case p of (e, expires_at_ms) \<Rightarrow>
       sbind (read_hit env ns e expires_at_ms) (\<lambda>(h, n).
       sbind (cache_fill ns key h n) (\<lambda>u. sret (Some (entry_of now inst h)))))"

definition store_get :: "('j, 's) store_env \<Rightarrow> u64 \<Rightarrow> nat \<Rightarrow> u64 \<Rightarrow> bytes \<Rightarrow> bytes \<Rightarrow> ('j entry option, 'j, 's) action" where
  "store_get env now inst clk ns key =
     sbind (get_lookup env now inst clk ns key) (\<lambda>r.
       case r of Inl reply \<Rightarrow> sret reply | Inr p \<Rightarrow> get_fill env now inst ns key p)"

text \<open>
  The loop of \<^verbatim>\<open>mget\<close> over its keys: the results so far by slot, the misses to read (slot, key, index
  entry, expiry) and the expired keys.
\<close>

fun mget_scan ::
  "('j, 's) store_env \<Rightarrow> u64 \<Rightarrow> nat \<Rightarrow> bytes \<Rightarrow> nat \<Rightarrow> bytes list \<Rightarrow> 'j entry option list \<Rightarrow>
     (nat \<times> bytes \<times> index_entry \<times> u64 option) list \<Rightarrow> bytes list \<Rightarrow>
     ('j entry option list \<times> (nat \<times> bytes \<times> index_entry \<times> u64 option) list \<times> bytes list, 'j, 's) action" where
  "mget_scan env now inst ns i [] results misses dead = sret (results, misses, dead)"
| "mget_scan env now inst ns i (key # ks) results misses dead =
     sbind (cache_lookup ns key now) (\<lambda>h.
       case h of
         Some h \<Rightarrow>
           sbind count_hit (\<lambda>u. mget_scan env now inst ns (i + 1) ks (results[i := Some (entry_of now inst h)]) misses dead)
       | None \<Rightarrow>
           sbind count_miss (\<lambda>u.
           sbind (index_lookup env ns key) (\<lambda>r.
             case r of
               None \<Rightarrow> mget_scan env now inst ns (i + 1) ks results misses dead
             | Some (e, ttl) \<Rightarrow>
                 if expired ttl now then mget_scan env now inst ns (i + 1) ks results misses (dead @ [key])
                 else mget_scan env now inst ns (i + 1) ks results (misses @ [(i, key, e, ttl)]) dead)))"

text \<open>
  \<^verbatim>\<open>join_all\<close> over calls on one log: all of them run, then the results are looked at in order.
\<close>

fun run_all :: "(nat \<Rightarrow> 'a \<Rightarrow> ns_log \<Rightarrow> 'b eresult \<times> ns_log) \<Rightarrow> nat \<Rightarrow> 'a list \<Rightarrow> ns_log \<Rightarrow> 'b eresult list \<times> ns_log" where
  "run_all f i [] l = ([], l)"
| "run_all f i (x # xs) l = (let (r, l1) = f i x l; (rs, l2) = run_all f (i + 1) xs l1 in (r # rs, l2))"

fun first_error :: "'a eresult list \<Rightarrow> unit eresult" where
  "first_error [] = Inr ()"
| "first_error (Inl e # rs) = Inl e"
| "first_error (Inr x # rs) = first_error rs"

definition tombstone_all :: "(nat \<Rightarrow> u64) \<Rightarrow> bytes list \<Rightarrow> world \<Rightarrow> ns_log \<Rightarrow> u64 option eresult list eresult \<times> ns_log" where
  "tombstone_all clks ks w l = (let (rs, l') = run_all (\<lambda>i key. tombstone w (clks i) key) 0 ks l in (Inr rs, l'))"

fun mget_fill ::
  "('j, 's) store_env \<Rightarrow> u64 \<Rightarrow> nat \<Rightarrow> bytes \<Rightarrow> ((nat \<times> bytes \<times> bytes) \<times> (nat \<times> bytes \<times> index_entry \<times> u64 option)) list \<Rightarrow>
     'j entry option list \<Rightarrow> ('j entry option list, 'j, 's) action" where
  "mget_fill env now inst ns [] results = sret results"
| "mget_fill env now inst ns (((slot, value, meta_bytes), (i, key, e, ttl)) # ps) results =
     sbind (slift (metadata_from_bytes env meta_bytes)) (\<lambda>metadata.
     sbind (cache_fill ns key (value, ttl, metadata, ie_tstamp_ms e) (length meta_bytes)) (\<lambda>u.
       mget_fill env now inst ns ps (results[slot := Some (entry_of now inst (value, ttl, metadata, ie_tstamp_ms e))])))"

definition store_mget ::
  "('j, 's) store_env \<Rightarrow> u64 \<Rightarrow> nat \<Rightarrow> (nat \<Rightarrow> u64) \<Rightarrow> bytes \<Rightarrow> bytes list \<Rightarrow> ('j entry option list, 'j, 's) action" where
  "store_mget env now inst clks ns ks =
     sbind (ensure_ns env ns) (\<lambda>u.
     sbind (mget_scan env now inst ns 0 ks (replicate (length ks) None) [] []) (\<lambda>(results, misses, dead).
     sbind (on_log env ns (tombstone_all clks dead)) (\<lambda>rs.
     sbind (slift (first_error rs)) (\<lambda>u.
     sbind (log_view env ns (\<lambda>w l. bulk_read w l (map (\<lambda>(i, key, e, ttl). (i, e)) misses))) (\<lambda>read.
       mget_fill env now inst ns (zip read misses) results)))))"

definition store_exists :: "('j, 's) store_env \<Rightarrow> u64 \<Rightarrow> bytes \<Rightarrow> bytes list \<Rightarrow> (nat, 'j, 's) action" where
  "store_exists env now ns ks =
     sbind (ensure_ns env ns) (\<lambda>u.
       log_view env ns (\<lambda>w l.
         Inr (length (filter (\<lambda>key. ix_get (nl_index l) key \<noteq> None \<and> \<not> is_expired (nl_index l) key now) ks))))"

definition ttl_raw :: "('j, 's) store_env \<Rightarrow> u64 \<Rightarrow> u64 \<Rightarrow> bytes \<Rightarrow> bytes \<Rightarrow> (ttl_result, 'j, 's) action" where
  "ttl_raw env now clk ns key =
     sbind (ensure_ns env ns) (\<lambda>u.
     sbind (index_lookup env ns key) (\<lambda>r.
       case r of
         None \<Rightarrow> sret TtlNotFound
       | Some (e, None) \<Rightarrow> sret NoExpiry
       | Some (e, Some ms) \<Rightarrow>
           if ms \<le> now then sbind (drop_expired env clk ns key) (\<lambda>u. sret TtlNotFound)
           else sret (Remaining (saturating_sub64 ms now))))"

definition store_pttl :: "('j, 's) store_env \<Rightarrow> u64 \<Rightarrow> u64 \<Rightarrow> bytes \<Rightarrow> bytes \<Rightarrow> (ttl_result, 'j, 's) action" where
  "store_pttl = ttl_raw"

definition store_ttl :: "('j, 's) store_env \<Rightarrow> u64 \<Rightarrow> u64 \<Rightarrow> bytes \<Rightarrow> bytes \<Rightarrow> (ttl_result, 'j, 's) action" where
  "store_ttl env now clk ns key =
     sbind (ttl_raw env now clk ns key) (\<lambda>r.
       sret (case r of Remaining ms \<Rightarrow> Remaining (ms div 1000) | other \<Rightarrow> other))"

text \<open>
  The cursor \<^verbatim>\<open>0\<close> starts a scan, a byte 1 and a key continue it, anything else restarts it. The count is
  cast to \<^verbatim>\<open>usize\<close>, which is as wide.
\<close>

definition cursor_key :: "bytes \<Rightarrow> bytes option" where
  "cursor_key cursor = (case cursor of b # key \<Rightarrow> if b = 1 then Some key else None | [] \<Rightarrow> None)"

definition next_cursor :: "bytes option \<Rightarrow> bytes" where
  "next_cursor last_key = (case last_key of None \<Rightarrow> ascii ''0'' | Some k \<Rightarrow> 1 # k)"

definition store_scan ::
  "('j, 's) store_env \<Rightarrow> u64 \<Rightarrow> bytes \<Rightarrow> bytes \<Rightarrow> bytes option \<Rightarrow> u64 \<Rightarrow> (scan_page, 'j, 's) action" where
  "store_scan env now ns cursor pat count =
     sbind (ensure_ns env ns) (\<lambda>u.
       log_view env ns (\<lambda>w l.
         let (ks, last_key) = scan (nl_index l) (cursor_key cursor) (unat count) now
               (\<lambda>k. case pat of None \<Rightarrow> True | Some p \<Rightarrow> glob_match p k)
         in Inr \<lparr>sp_next_cursor = next_cursor last_key, sp_keys = ks\<rparr>))"

definition db_size :: "('j, 's) store_env \<Rightarrow> bytes \<Rightarrow> (nat, 'j, 's) action" where
  "db_size env ns =
     sbind (ensure_ns env ns) (\<lambda>u. log_view env ns (\<lambda>w l. Inr (ix_live_count (nl_index l))))"

section \<open>Writes\<close>

definition store_set ::
  "('j, 's) store_env \<Rightarrow> u64 \<Rightarrow> u64 \<Rightarrow> bytes \<Rightarrow> bytes \<Rightarrow> bytes \<Rightarrow> 'j set_options \<Rightarrow> (unit, 'j, 's) action" where
  "store_set env now clk ns key value opts =
     sbind (ensure_ns env ns) (\<lambda>u.
     sbind (expiry_of env ns key opts now) (\<lambda>expires_at_ms.
     sbind (slift (metadata_to_bytes env (so_metadata opts))) (\<lambda>meta_bytes.
     sbind (on_log env ns (\<lambda>w. put_full w clk key value meta_bytes expires_at_ms)) (\<lambda>revision.
       publish_set env ns key value expires_at_ms (so_metadata opts) (length meta_bytes) revision))))"

text \<open>The conditional write that \<^verbatim>\<open>set_conditional\<close> and \<^verbatim>\<open>setrev\<close> share after they have chosen the expiry.\<close>

definition put_conditional ::
  "('j, 's) store_env \<Rightarrow> u64 \<Rightarrow> u64 \<Rightarrow> bytes \<Rightarrow> bytes \<Rightarrow> bytes \<Rightarrow> 'j option \<Rightarrow> u64 option \<Rightarrow> write_condition \<Rightarrow>
     (u64 option, 'j, 's) action" where
  "put_conditional env now clk ns key value metadata expires_at_ms cond =
     sbind (slift (metadata_to_bytes env metadata)) (\<lambda>meta_bytes.
     sbind (on_log env ns (\<lambda>w. put_full_cond w clk key value meta_bytes expires_at_ms cond now)) (\<lambda>r.
       case r of
         None \<Rightarrow> sret None
       | Some revision \<Rightarrow>
           sbind (publish_set env ns key value expires_at_ms metadata (length meta_bytes) revision) (\<lambda>u.
             sret (Some revision))))"

definition set_conditional ::
  "('j, 's) store_env \<Rightarrow> u64 \<Rightarrow> u64 \<Rightarrow> bytes \<Rightarrow> bytes \<Rightarrow> bytes \<Rightarrow> 'j set_options \<Rightarrow> bool \<Rightarrow> (bool, 'j, 's) action" where
  "set_conditional env now clk ns key value opts require_live =
     sbind (ensure_ns env ns) (\<lambda>u.
     sbind (expiry_of env ns key opts now) (\<lambda>expires_at_ms.
     sbind (put_conditional env now clk ns key value (so_metadata opts) expires_at_ms
              (if require_live then KeyPresent else KeyAbsent)) (\<lambda>r.
       sret (r \<noteq> None))))"

definition store_setnx where
  "store_setnx env now clk ns key value opts = set_conditional env now clk ns key value opts False"

definition store_setxx where
  "store_setxx env now clk ns key value opts = set_conditional env now clk ns key value opts True"

definition store_setrev ::
  "('j, 's) store_env \<Rightarrow> u64 \<Rightarrow> u64 \<Rightarrow> bytes \<Rightarrow> bytes \<Rightarrow> bytes \<Rightarrow> 'j set_options \<Rightarrow> u64 \<Rightarrow> (u64 option, 'j, 's) action" where
  "store_setrev env now clk ns key value opts expected_rev =
     sbind (ensure_ns env ns) (\<lambda>u.
     sbind (slift (validate_ttl_opt (so_ttl opts) now)) (\<lambda>expires_at_ms.
       put_conditional env now clk ns key value (so_metadata opts) expires_at_ms (Revision expected_rev)))"

definition store_mset ::
  "('j, 's) store_env \<Rightarrow> u64 list \<Rightarrow> bytes \<Rightarrow> (bytes \<times> bytes) list \<Rightarrow> (unit, 'j, 's) action" where
  "store_mset env clks ns pairs =
     sbind (ensure_ns env ns) (\<lambda>u.
     sbind (on_log env ns (\<lambda>w. put_many w clks pairs)) (\<lambda>revisions.
     sbind (seach (\<lambda>((key, value), revision). upsert_cache ns key (value, None, None, revision) 0) (zip pairs revisions)) (\<lambda>u.
       seach (\<lambda>((key, value), revision). notify_watchers env ns key (WatchSet key value None None revision)) (zip pairs revisions))))"

text \<open>The last loop of \<^verbatim>\<open>del\<close>: it stops at the first failed tombstone.\<close>

fun count_deleted ::
  "('j, 's) store_env \<Rightarrow> bytes \<Rightarrow> (bytes \<times> u64 option eresult \<times> bool) list \<Rightarrow> nat \<Rightarrow> (nat, 'j, 's) action" where
  "count_deleted env ns [] n = sret n"
| "count_deleted env ns ((key, res, was_expired) # rest) n =
     sbind (slift res) (\<lambda>r.
       case r of
         Some revision \<Rightarrow>
           if was_expired then count_deleted env ns rest n
           else sbind (publish_del env ns key revision) (\<lambda>u. count_deleted env ns rest (n + 1))
       | None \<Rightarrow> count_deleted env ns rest n)"

definition store_del :: "('j, 's) store_env \<Rightarrow> u64 \<Rightarrow> (nat \<Rightarrow> u64) \<Rightarrow> bytes \<Rightarrow> bytes list \<Rightarrow> (nat, 'j, 's) action" where
  "store_del env now clks ns ks =
     sbind (ensure_ns env ns) (\<lambda>u.
     sbind (log_view env ns (\<lambda>w l. Inr (map (\<lambda>k. is_expired (nl_index l) k now) ks))) (\<lambda>was_expired.
     sbind (on_log env ns (tombstone_all clks ks)) (\<lambda>results.
     sbind (seach (cache_drop ns) ks) (\<lambda>u.
       count_deleted env ns (zip ks (zip results was_expired)) 0))))"

definition store_delrev :: "('j, 's) store_env \<Rightarrow> u64 \<Rightarrow> u64 \<Rightarrow> bytes \<Rightarrow> bytes \<Rightarrow> u64 \<Rightarrow> (unit option, 'j, 's) action" where
  "store_delrev env now clk ns key expected_rev =
     sbind (ensure_ns env ns) (\<lambda>u.
     sbind (on_log env ns (\<lambda>w. tombstone_cond w clk key expected_rev now)) (\<lambda>r.
       case r of
         None \<Rightarrow> sret None
       | Some revision \<Rightarrow>
           sbind (cache_drop ns key) (\<lambda>u.
           sbind (publish_del env ns key revision) (\<lambda>u. sret (Some ())))))"

text \<open>The common end of \<^verbatim>\<open>expire\<close> and \<^verbatim>\<open>persist\<close>: read the value for the watchers, then change the expiry.\<close>

definition change_ttl ::
  "('j, 's) store_env \<Rightarrow> u64 \<Rightarrow> nat \<Rightarrow> (nat \<Rightarrow> u64) \<Rightarrow> bytes \<Rightarrow> bytes \<Rightarrow> u64 option \<Rightarrow> (unit, 'j, 's) action" where
  "change_ttl env now inst clks ns key new_ms =
     sbind (get_inline env now inst (clks 0) ns key) (\<lambda>entry.
     sbind (on_log env ns (\<lambda>w. ttl_update w (clks 1) key new_ms)) (\<lambda>revision.
     sbind (cache_drop ns key) (\<lambda>u.
       case entry of
         None \<Rightarrow> sret ()
       | Some e \<Rightarrow> notify_watchers env ns key (WatchSet key (ent_value e) (ent_metadata e) new_ms revision))))"

definition store_expire ::
  "('j, 's) store_env \<Rightarrow> u64 \<Rightarrow> nat \<Rightarrow> (nat \<Rightarrow> u64) \<Rightarrow> bytes \<Rightarrow> bytes \<Rightarrow> nat \<Rightarrow> (bool, 'j, 's) action" where
  "store_expire env now inst clks ns key ttl =
     sbind (ensure_ns env ns) (\<lambda>u.
     sbind (log_view env ns (\<lambda>w l. Inr (ix_get (nl_index l) key \<noteq> None \<and> \<not> is_expired (nl_index l) key now))) (\<lambda>present_and_live.
       if \<not> present_and_live then sbind (cache_drop ns key) (\<lambda>u. sret False)
       else
         sbind (slift (validate_ttl ttl now)) (\<lambda>new_ms.
         sbind (change_ttl env now inst clks ns key (Some new_ms)) (\<lambda>u. sret True))))"

definition store_persist ::
  "('j, 's) store_env \<Rightarrow> u64 \<Rightarrow> nat \<Rightarrow> (nat \<Rightarrow> u64) \<Rightarrow> bytes \<Rightarrow> bytes \<Rightarrow> (bool, 'j, 's) action" where
  "store_persist env now inst clks ns key =
     sbind (ensure_ns env ns) (\<lambda>u.
     sbind (log_view env ns (\<lambda>w l.
              Inr (ix_get (nl_index l) key \<noteq> None \<and> ttl_of (nl_index l) key \<noteq> None \<and> \<not> is_expired (nl_index l) key now))) (\<lambda>has.
       if \<not> has then sret False
       else sbind (change_ttl env now inst clks ns key None) (\<lambda>u. sret True)))"

text \<open>The read of \<^verbatim>\<open>getex\<close>: it fills the cache, and drops an expired key from the log only.\<close>

definition getex_read ::
  "('j, 's) store_env \<Rightarrow> u64 \<Rightarrow> nat \<Rightarrow> u64 \<Rightarrow> bytes \<Rightarrow> bytes \<Rightarrow> ('j entry option, 'j, 's) action" where
  "getex_read env now inst clk ns key =
     sbind (cache_lookup ns key now) (\<lambda>h.
       case h of
         Some h \<Rightarrow> sret (Some (entry_of now inst h))
       | None \<Rightarrow>
           sbind (index_lookup env ns key) (\<lambda>r.
             case r of
               None \<Rightarrow> sret None
             | Some (e, expires_at_ms) \<Rightarrow>
                 if expired expires_at_ms now
                 then sbind (on_log env ns (\<lambda>w. tombstone w clk key)) (\<lambda>r. sret None)
                 else
                   sbind (read_hit env ns e expires_at_ms) (\<lambda>(h, n).
                   sbind (cache_fill ns key h n) (\<lambda>u. sret (Some (entry_of now inst h))))))"

definition getex_ttl_update ::
  "('j, 's) store_env \<Rightarrow> u64 \<Rightarrow> u64 \<Rightarrow> bytes \<Rightarrow> bytes \<Rightarrow> getex_op \<Rightarrow> (unit, 'j, 's) action" where
  "getex_ttl_update env now clk ns key op =
     sbind (slift (case op of GetExSetTtl ttl \<Rightarrow> validate_ttl_opt (Some ttl) now | GetExPersist \<Rightarrow> Inr None)) (\<lambda>new_ms.
     sbind (on_log env ns (\<lambda>w. ttl_update w clk key new_ms)) (\<lambda>r. cache_drop ns key))"

definition store_getex ::
  "('j, 's) store_env \<Rightarrow> u64 \<Rightarrow> nat \<Rightarrow> (nat \<Rightarrow> u64) \<Rightarrow> bytes \<Rightarrow> bytes \<Rightarrow> getex_op option \<Rightarrow> ('j entry option, 'j, 's) action" where
  "store_getex env now inst clks ns key op =
     (case op of
        None \<Rightarrow> store_get env now inst (clks 0) ns key
      | Some op \<Rightarrow>
          sbind (ensure_ns env ns) (\<lambda>u.
          sbind (getex_read env now inst (clks 0) ns key) (\<lambda>found.
            case found of
              None \<Rightarrow> sret None
            | Some e \<Rightarrow> sbind (getex_ttl_update env now (clks 1) ns key op) (\<lambda>u. sret (Some e)))))"

definition store_getset ::
  "('j, 's) store_env \<Rightarrow> u64 \<Rightarrow> nat \<Rightarrow> (nat \<Rightarrow> u64) \<Rightarrow> bytes \<Rightarrow> bytes \<Rightarrow> bytes \<Rightarrow> ('j entry option, 'j, 's) action" where
  "store_getset env now inst clks ns key value =
     sbind (ensure_ns env ns) (\<lambda>u.
     sbind (get_inline env now inst (clks 0) ns key) (\<lambda>old.
     sbind (on_log env ns (\<lambda>w. put_full w (clks 1) key value [] None)) (\<lambda>revision.
     sbind (publish_set env ns key value None None 0 revision) (\<lambda>u. sret old))))"

definition store_getdel ::
  "('j, 's) store_env \<Rightarrow> u64 \<Rightarrow> nat \<Rightarrow> (nat \<Rightarrow> u64) \<Rightarrow> bytes \<Rightarrow> bytes \<Rightarrow> ('j entry option, 'j, 's) action" where
  "store_getdel env now inst clks ns key =
     sbind (ensure_ns env ns) (\<lambda>u.
     sbind (get_inline env now inst (clks 0) ns key) (\<lambda>old.
     sbind (on_log env ns (\<lambda>w. tombstone w (clks 1) key)) (\<lambda>tomb_rev.
     sbind (cache_drop ns key) (\<lambda>u.
     sbind (case (old, tomb_rev) of (Some e, Some revision) \<Rightarrow> publish_del env ns key revision | _ \<Rightarrow> sret ()) (\<lambda>u.
       sret old)))))"

text \<open>
  One attempt of \<^verbatim>\<open>incr\<close>: the current value with its expiry and the condition under which the new one may
  be written. \<open>None\<close> when the condition no longer held, for the next attempt.
\<close>

definition incr_read ::
  "('j, 's) store_env \<Rightarrow> u64 \<Rightarrow> u64 \<Rightarrow> bytes \<Rightarrow> bytes \<Rightarrow> (bytes option \<times> u64 option \<times> write_condition, 'j, 's) action" where
  "incr_read env now clk ns key =
     sbind (cache_lookup ns key now) (\<lambda>h.
       case h of
         Some (value, ttl_ms, m, rv) \<Rightarrow> sret (Some value, ttl_ms, Revision rv)
       | None \<Rightarrow>
           sbind (index_lookup env ns key) (\<lambda>r.
             case r of
               None \<Rightarrow> sret (None, None, KeyAbsent)
             | Some (e, ttl_ms) \<Rightarrow>
                 if expired ttl_ms now then sbind (drop_expired env clk ns key) (\<lambda>u. sret (None, None, KeyAbsent))
                 else
                   sbind (log_view env ns (\<lambda>w l. read_value w l e)) (\<lambda>(value, m).
                     sret (Some value, ttl_ms, Revision (ie_tstamp_ms e)))))"

definition checked_add_i64 :: "i64 \<Rightarrow> i64 \<Rightarrow> i64 option" where
  "checked_add_i64 a b =
     (if - (2 ^ 63) \<le> sint a + sint b \<and> sint a + sint b < 2 ^ 63 then Some (a + b) else None)"

definition incr_value :: "bytes option \<Rightarrow> i64 \<Rightarrow> i64 eresult" where
  "incr_value current delta =
     rbind (case current of
              None \<Rightarrow> Inr 0
            | Some v \<Rightarrow> ok_or (str_parse_i64 v) (InvalidInput ''value is not an integer or out of range'')) (\<lambda>n.
       ok_or (checked_add_i64 n delta) (InvalidInput ''increment or decrement would overflow''))"

definition incr_attempt ::
  "('j, 's) store_env \<Rightarrow> u64 \<Rightarrow> u64 \<Rightarrow> u64 \<Rightarrow> bytes \<Rightarrow> bytes \<Rightarrow> i64 \<Rightarrow> (i64 option, 'j, 's) action" where
  "incr_attempt env now clk clk' ns key delta =
     sbind (incr_read env now clk ns key) (\<lambda>(current, expires_at_ms, cond).
     sbind (slift (incr_value current delta)) (\<lambda>new_val.
     sbind (on_log env ns (\<lambda>w. put_full_cond w clk' key (i64_to_string new_val) [] expires_at_ms cond now)) (\<lambda>r.
       case r of
         None \<Rightarrow> sret None
       | Some revision \<Rightarrow>
           sbind (publish_set env ns key (i64_to_string new_val) expires_at_ms None 0 revision) (\<lambda>u. sret (Some new_val)))))"

fun incr_loop ::
  "('j, 's) store_env \<Rightarrow> (u64 \<times> u64 \<times> u64) list \<Rightarrow> bytes \<Rightarrow> bytes \<Rightarrow> i64 \<Rightarrow> (i64, 'j, 's) action" where
  "incr_loop env [] ns key delta = slift (Inl (Conflict ''incr: too many concurrent modifications on the same key''))"
| "incr_loop env ((now, clk, clk') # rds) ns key delta =
     sbind (incr_attempt env now clk clk' ns key delta) (\<lambda>r.
       case r of Some new_val \<Rightarrow> sret new_val | None \<Rightarrow> incr_loop env rds ns key delta)"

text \<open>\<open>rds\<close> are the clock readings of the attempts; there are at most 64.\<close>

definition store_incr ::
  "('j, 's) store_env \<Rightarrow> (nat \<Rightarrow> u64 \<times> u64 \<times> u64) \<Rightarrow> bytes \<Rightarrow> bytes \<Rightarrow> i64 \<Rightarrow> (i64, 'j, 's) action" where
  "store_incr env rds ns key delta =
     sbind (ensure_ns env ns) (\<lambda>u. incr_loop env (map rds [0..<64]) ns key delta)"

section \<open>Watches\<close>

definition subscribe_filter :: "('j, 's) store_env \<Rightarrow> bytes \<Rightarrow> key_filter \<Rightarrow> ('s, 'j, 's) action" where
  "subscribe_filter env ns flt s =
     (let (r, reg) = (case flt of
                        FilterExact k \<Rightarrow> subscribe_key (se_is_closed env) (se_channel env) ns k (ss_watchers s)
                      | FilterPrefix p \<Rightarrow> subscribe_prefix (se_is_closed env) (se_channel env) ns p (ss_watchers s))
      in (r, s\<lparr>ss_watchers := reg\<rparr>))"

definition watch_subscribe ::
  "('j, 's) store_env \<Rightarrow> u64 \<Rightarrow> bytes \<Rightarrow> key_filter \<Rightarrow> u64 \<Rightarrow> ('j watch_event list \<times> 's, 'j, 's) action" where
  "watch_subscribe env now ns flt since =
     sbind (subscribe_filter env ns flt) (\<lambda>rx.
     sbind (ensure_ns env ns) (\<lambda>u.
     sbind (log_view env ns (\<lambda>w l.
              if since = 0 then current_entries (se_from_slice env) w flt now l
              else Inr (scan_since (se_from_slice env) w flt since l))) (\<lambda>initial.
       sret (initial, rx))))"

section \<open>Maintenance\<close>

definition sweep_cache :: "u64 \<Rightarrow> (nat, 'j, 's) action" where
  "sweep_cache now s = (let (n, c) = sweep_expired now (ss_cache s) in (Inr n, s\<lparr>ss_cache := c\<rparr>))"

text \<open>\<^verbatim>\<open>join_all\<close> over the open namespaces: a call on each of them, in the order of the map.\<close>

definition all_logs ::
  "('j, 's) store_env \<Rightarrow> (bytes \<Rightarrow> ns_log \<Rightarrow> bool) \<Rightarrow> (world \<Rightarrow> ns_log \<Rightarrow> 'a eresult \<times> ns_log) \<Rightarrow> ('a eresult list, 'j, 's) action" where
  "all_logs env P f s =
     (let (rs, m) = fold (\<lambda>(ns, l) (rs, m).
                           if P ns l then let (r, l') = f (se_world env ns) l in (rs @ [r], om_insert ns l' m) else (rs, m))
                      (entries (ss_namespaces s)) ([], ss_namespaces s)
      in (Inr rs, s\<lparr>ss_namespaces := m\<rparr>))"

definition sync_logs :: "('j, 's) store_env \<Rightarrow> (unit, 'j, 's) action" where
  "sync_logs env = sbind (all_logs env (\<lambda>ns l. True) sync_log) (\<lambda>rs. slift (first_error rs))"

definition freeze_and_drain :: "world \<Rightarrow> ns_log \<Rightarrow> unit eresult \<times> ns_log" where
  "freeze_and_drain w l = (Inr (), l\<lparr>nl_frozen := True\<rparr>)"

definition unfreeze :: "world \<Rightarrow> ns_log \<Rightarrow> unit eresult \<times> ns_log" where
  "unfreeze w l = (Inr (), l\<lparr>nl_frozen := False\<rparr>)"

definition seal_all_for_shutdown :: "('j, 's) store_env \<Rightarrow> (unit, 'j, 's) action" where
  "seal_all_for_shutdown env =
     sbind (all_logs env (\<lambda>ns l. True) freeze_and_drain) (\<lambda>rs.
     sbind (all_logs env (\<lambda>ns l. True) seal_active_for_shutdown) (\<lambda>rs. slift (first_error rs)))"

definition resume_after_abort :: "('j, 's) store_env \<Rightarrow> (unit, 'j, 's) action" where
  "resume_after_abort env =
     sbind (all_logs env (\<lambda>ns l. True) reopen_active_after_seal) (\<lambda>rs.
     sbind (slift (first_error rs)) (\<lambda>u.
     sbind (all_logs env (\<lambda>ns l. True) unfreeze) (\<lambda>rs. sret ())))"

definition last_revision_per_namespace :: "('j, 's) shard_store \<Rightarrow> u64 list" where
  "last_revision_per_namespace s = map (\<lambda>(ns, l). last_revision l) (entries (ss_namespaces s))"

definition store_reclaim :: "('j, 's) store_env \<Rightarrow> bytes \<Rightarrow> (unit, 'j, 's) action" where
  "store_reclaim env ns = sbind (ensure_ns env ns) (\<lambda>u. sbind (on_log env ns reclaim) (\<lambda>report. sret ()))"

record reclaim_summary =
  rs_namespaces_reclaimed :: nat
  rs_files_freed :: nat
  rs_live_bytes :: nat

fun sum_reports :: "reclaim_report eresult list \<Rightarrow> reclaim_summary \<Rightarrow> reclaim_summary eresult" where
  "sum_reports [] sm = Inr sm"
| "sum_reports (Inl e # rs) sm = Inl e"
| "sum_reports (Inr rp # rs) sm =
     sum_reports rs \<lparr>rs_namespaces_reclaimed = rs_namespaces_reclaimed sm + 1,
                    rs_files_freed = rs_files_freed sm + rr_dead_files_dropped rp,
                    rs_live_bytes = rr_live_bytes rp\<rparr>"

definition reclaim_if_needed :: "('j, 's) store_env \<Rightarrow> nat \<Rightarrow> (reclaim_summary, 'j, 's) action" where
  "reclaim_if_needed env threshold =
     (let none = \<lparr>rs_namespaces_reclaimed = 0, rs_files_freed = 0, rs_live_bytes = 0\<rparr>
      in if threshold = 0 then sret none
         else sbind (all_logs env (\<lambda>ns l. om_size (nl_sealed l) > threshold) reclaim) (\<lambda>rs. slift (sum_reports rs none)))"

definition flush_db :: "('j, 's) store_env \<Rightarrow> u64 \<Rightarrow> u64 \<Rightarrow> bytes \<Rightarrow> (unit, 'j, 's) action" where
  "flush_db env now clk ns =
     sbind (ensure_ns env ns) (\<lambda>u.
     sbind (on_cache (remove_by_prefix (ns @ [0]))) (\<lambda>u.
     sbind (log_view env ns (\<lambda>w l. Inr (filter (\<lambda>k. \<not> is_expired (nl_index l) k now) (om_keys (ix_map (nl_index l)))))) (\<lambda>live_keys.
     sbind (on_log env ns (\<lambda>w. flush w clk)) (\<lambda>revision.
     sbind (on_log env ns (\<lambda>w l. (Inr (), with_values (vs_clear (\<lambda>h. \<not> w_blob_rm w h)) l))) (\<lambda>u.
       seach (\<lambda>key. publish_del env ns key revision) live_keys)))))"

section \<open>Opening a shard\<close>

text \<open>
  \<open>fanout_var\<close> and \<open>threshold_var\<close> are the two environment variables, when they parse as numbers;
  \<open>listed\<close> says whether the directory could be listed. All the logs are opened, then the first failure
  is returned.
\<close>

definition store_config :: "nat option \<Rightarrow> nat option \<Rightarrow> log_config" where
  "store_config fanout_var threshold_var =
     (let c = (case fanout_var of Some n \<Rightarrow> if n \<ge> 2 then default_log_config\<lparr>fanout := n\<rparr> else default_log_config
               | None \<Rightarrow> default_log_config)
      in case threshold_var of Some n \<Rightarrow> c\<lparr>value_sep_threshold := n\<rparr> | None \<Rightarrow> c)"

definition open_disk_log :: "('j, 's) store_env \<Rightarrow> log_config \<Rightarrow> bytes \<Rightarrow> data_dir \<times> (bytes, bytes) omap \<Rightarrow> ns_log eresult" where
  "open_disk_log env cfg ns d = fst (open_log (se_world env ns) cfg (fst d) (snd d))"

fun collect_logs :: "(bytes \<times> ns_log eresult) list \<Rightarrow> (bytes, ns_log) omap \<Rightarrow> (bytes, ns_log) omap eresult" where
  "collect_logs [] m = Inr m"
| "collect_logs ((ns, Inl e) # rest) m = Inl e"
| "collect_logs ((ns, Inr l) # rest) m = collect_logs rest (om_insert ns l m)"

definition store_open ::
  "('j, 's) store_env \<Rightarrow> nat option \<Rightarrow> nat option \<Rightarrow> bool \<Rightarrow> nat \<Rightarrow> (bytes, data_dir \<times> (bytes, bytes) omap) omap \<Rightarrow>
     ('j, 's) shard_store eresult" where
  "store_open env fanout_var threshold_var listed memory_bytes disk =
     (let cfg = store_config fanout_var threshold_var;
          dirs = (if listed then filter (\<lambda>(ns, d). is_valid_ns_name ns) (entries disk) else [])
      in rbind (collect_logs (map (\<lambda>(ns, d). (ns, open_disk_log env cfg ns d)) dirs) om_empty) (\<lambda>m.
         rbind (if om_lookup m DEFAULT_NS \<noteq> None then Inr m
                else rbind (open_disk_log env cfg DEFAULT_NS
                              (case om_lookup disk DEFAULT_NS of Some d \<Rightarrow> d | None \<Rightarrow> (om_empty, om_empty)))
                       (\<lambda>l. Inr (om_insert DEFAULT_NS l m))) (\<lambda>m'.
           Inr \<lparr>ss_disk = disk, ss_config = cfg, ss_namespaces = m', ss_cache = cache_new memory_bytes,
                ss_watchers = wr_new, ss_cache_hit_count = 0, ss_cache_miss_count = 0\<rparr>)))"

end
