(* ===== verification/Store_Rel.thy ===== *)
theory Store_Rel
  imports Log_Fit Shard_Store
begin

text \<open>
  What the shard store stands for: a keyspace, one map per namespace. The relation ties every open log to
  its map and every cached entry to the map's entry for its key; the lemmas say what each part of an
  operation does to it. The cache and the log come in through their contracts, \<open>hit_cache\<close> and \<open>kv_log\<close>.
\<close>

section \<open>The cache's contract\<close>

locale hit_cache =
  fixes csound :: "'c \<Rightarrow> (bytes \<Rightarrow> 'h option) \<Rightarrow> bool" and fresh :: "'h \<Rightarrow> u64 \<Rightarrow> bool"
    and get :: "bytes \<Rightarrow> u64 \<Rightarrow> 'c \<Rightarrow> 'h option \<times> 'c" and ins :: "bytes \<Rightarrow> 'h \<Rightarrow> nat \<Rightarrow> 'c \<Rightarrow> 'c"
    and upd :: "bytes \<Rightarrow> 'h \<Rightarrow> nat \<Rightarrow> 'c \<Rightarrow> bool \<times> 'c" and rem :: "bytes \<Rightarrow> 'c \<Rightarrow> 'c"
  assumes get_hit: "csound c M \<Longrightarrow> get k now c = (Some h, c') \<Longrightarrow> M k = Some h \<and> fresh h now"
    and get_keeps: "csound c M \<Longrightarrow> get k now c = (r, c') \<Longrightarrow> csound c' M"
    and get_miss: "csound c M \<Longrightarrow> get k now c = (None, c') \<Longrightarrow> csound c' (M(k := x))"
    and ins_sound: "csound c M \<Longrightarrow> csound (ins k h n c) (M(k \<mapsto> h))"
    and upd_sound: "csound c M \<Longrightarrow> upd k h n c = (True, c') \<Longrightarrow> csound c' (M(k \<mapsto> h))"
    and upd_absent: "upd k h n c = (False, c') \<Longrightarrow> c' = c"
    and rem_sound: "csound c M \<Longrightarrow> csound (rem k c) (M(k := x))"
begin

lemma upsert_sound:
  "csound c M \<Longrightarrow> csound (case upd k h n c of (True, c') \<Rightarrow> c' | (False, c') \<Rightarrow> ins k h n c') (M(k \<mapsto> h))"
  using upd_sound[of c M k h n] upd_absent[of k h n c] ins_sound[of c M k h n] by (auto split: prod.split bool.split)

lemma fill_sound: "csound c M \<Longrightarrow> M k = Some h \<Longrightarrow> csound (ins k h n c) M"
  using ins_sound[of c M k h n] by (simp add: fun_upd_idem)

lemma rem_keeps: "csound c M \<Longrightarrow> csound (rem k c) M"
  using rem_sound[of c M k "M k"] by simp

end

definition csound :: "'j mem_cache \<Rightarrow> (bytes \<Rightarrow> 'j hit option) \<Rightarrow> bool" where
  "csound c M \<longleftrightarrow> cache_inv c \<and> sound c M"

definition fresh :: "'j hit \<Rightarrow> u64 \<Rightarrow> bool" where
  "fresh h now \<longleftrightarrow> \<not> expired (fst (snd h)) now"

interpretation mc: hit_cache csound fresh cache_get cache_insert try_update cache_remove
proof
  fix c :: "'j mem_cache" and M k now h c' and r :: "'j hit option" and x n
  show "csound c M \<Longrightarrow> cache_get k now c = (Some h, c') \<Longrightarrow> M k = Some h \<and> fresh h now"
    by (auto simp: csound_def sound_def fresh_def cache_get_def hit_of_def expired_at_def expired_def split: option.splits if_splits)
  show "csound c M \<Longrightarrow> cache_get k now c = (r, c') \<Longrightarrow> csound c' M"
    using get_inv[of c k now]
    by (auto simp: csound_def cache_get_def drop_entry_def set_freq_def hit_of_def intro!: sound_lookup[of c M]
        split: option.splits if_splits)
  show "csound c M \<Longrightarrow> cache_get k now c = (None, c') \<Longrightarrow> csound c' (M(k := x))"
    using get_inv[of c k now]
    by (auto simp: csound_def sound_def cache_get_def drop_entry_def split: option.splits if_splits)
  show "csound c M \<Longrightarrow> csound (cache_insert k h n c) (M(k \<mapsto> h))"
    using insert_inv(1)[of c k h n] insert_inv(2)[of c k h n] by (auto simp: csound_def intro: sound_upd)
  show "csound c M \<Longrightarrow> try_update k h n c = (True, c') \<Longrightarrow> csound c' (M(k \<mapsto> h))"
  proof -
    assume a: "csound c M" "try_update k h n c = (True, c')"
    then obtain e where e: "om_lookup (mc_entries c) k = Some e" "c' = cache_overwrite k h (entry_size k (fst h) n) e c"
      by (auto simp: try_update_def split: option.splits)
    have "sound c' (M(k \<mapsto> h))"
      unfolding e(2) by (rule sound_upd[OF _ overwrite_inv(2)[OF _ e(1)]]) (use a in \<open>auto simp: csound_def\<close>)
    then show ?thesis using a overwrite_inv(1)[OF _ e(1), of h "entry_size k (fst h) n"] e(2)
      by (auto simp: csound_def)
  qed
  show "try_update k h n c = (False, c') \<Longrightarrow> c' = c"
    by (auto simp: try_update_def split: option.splits)
  show "csound c M \<Longrightarrow> csound (cache_remove k c) (M(k := x))"
    using remove_inv[of c k]
    by (auto simp: csound_def sound_def cache_remove_def note_stale_inv(2) drop_entry_def split: option.splits if_splits)
qed

lemma csound_prefix:
  assumes "csound c M" "\<And>k. take (length pre) k \<noteq> pre \<Longrightarrow> M' k = M k"
  shows "csound (remove_by_prefix pre c) M'"
proof -
  have "M' k = Some (hit_of e)" if "om_lookup (mc_entries (remove_by_prefix pre c)) k = Some e" for k e
  proof -
    have "om_lookup (mc_entries c) k = Some e \<and> take (length pre) k \<noteq> pre"
      using that by (auto simp: remove_by_prefix_def Let_def drop_matching_def note_stale_inv(2) om_size_0_iff
          split: if_splits option.splits)
    then show ?thesis using assms by (auto simp: csound_def sound_def)
  qed
  then show ?thesis using remove_by_prefix_inv[of c pre] assms(1) by (auto simp: csound_def sound_def)
qed

lemma csound_sweep: "csound c M \<Longrightarrow> csound (snd (sweep_expired now c)) M"
  using sweep_inv[of c now]
  by (auto simp: csound_def sound_def sweep_expired_def Let_def note_stale_inv(2) drop_matching_def
      split: option.splits if_splits)

section \<open>Actions\<close>

lemma sbind_Inr: "sbind m f s = (Inr y, s') \<longleftrightarrow> (\<exists>x s1. m s = (Inr x, s1) \<and> f x s1 = (Inr y, s'))"
  by (auto simp: sbind_def split: prod.splits sum.splits)

lemma sret_Inr [simp]: "sret x s = (Inr y, s') \<longleftrightarrow> y = x \<and> s' = s"
  by (auto simp: sret_def)

lemma slift_Inr [simp]: "slift r s = (Inr y, s') \<longleftrightarrow> r = Inr y \<and> s' = s"
  by (auto simp: slift_def)

lemma smodify_Inr [simp]: "smodify g s = (Inr u, s') \<longleftrightarrow> s' = g s"
  by (auto simp: smodify_def)

lemma seach_fold:
  assumes "\<And>x s. f x s = (Inr (), g x s)"
  shows "seach f xs s = (Inr (), fold g xs s)"
  using assms by (induction xs arbitrary: s) (simp_all add: sret_def sbind_def)

section \<open>Keyspaces\<close>

type_synonym keyspace = "bytes \<Rightarrow> kv_map"

definition hit_view :: "('j, 's) store_env \<Rightarrow> kv \<Rightarrow> 'j hit option" where
  "hit_view env x =
     (case metadata_from_bytes env (kv_meta x) of
        Inr m \<Rightarrow> Some (kv_value x, kv_ttl x, m, kv_rev x)
      | Inl e \<Rightarrow> None)"

definition ns_of :: "bytes \<Rightarrow> bytes" where
  "ns_of ck = takeWhile (\<lambda>b. b \<noteq> 0) ck"

definition key_of :: "bytes \<Rightarrow> bytes" where
  "key_of ck = tl (dropWhile (\<lambda>b. b \<noteq> 0) ck)"

definition view :: "('j, 's) store_env \<Rightarrow> keyspace \<Rightarrow> bytes \<Rightarrow> 'j hit option" where
  "view env B ck = (if 0 \<in> set ck then Option.bind (B (ns_of ck) (key_of ck)) (hit_view env) else None)"

lemma valid_no_zero: "is_valid_ns_name ns \<Longrightarrow> 0 \<notin> set ns"
  by (auto simp: is_valid_ns_name_def list_all_iff is_ns_byte_def)

lemma split_cache_key:
  assumes "0 \<notin> set ns"
  shows "ns_of (cache_key ns key) = ns" "key_of (cache_key ns key) = key"
proof -
  have a: "\<And>b. b \<in> set ns \<Longrightarrow> b \<noteq> 0" using assms by metis
  show "ns_of (cache_key ns key) = ns" unfolding ns_of_def cache_key_def by (subst takeWhile_append2) (use a in auto)
  show "key_of (cache_key ns key) = key" unfolding key_of_def cache_key_def by (subst dropWhile_append2) (use a in auto)
qed

lemma join_cache_key: "0 \<in> set ck \<Longrightarrow> cache_key (ns_of ck) (key_of ck) = ck"
proof (induction ck)
  case (Cons b ck)
  then show ?case by (auto simp: ns_of_def key_of_def cache_key_def)
qed simp

lemma view_key: "is_valid_ns_name ns \<Longrightarrow> view env B (cache_key ns key) = Option.bind (B ns key) (hit_view env)"
  by (simp add: view_def split_cache_key valid_no_zero) (simp add: cache_key_def)

lemma view_upd:
  assumes "is_valid_ns_name ns"
  shows "view env (B(ns := (B ns)(key := y))) = (view env B)(cache_key ns key := Option.bind y (hit_view env))"
proof
  fix ck
  have z: "0 \<in> set (cache_key ns key)" by (simp add: cache_key_def)
  show "view env (B(ns := (B ns)(key := y))) ck = ((view env B)(cache_key ns key := Option.bind y (hit_view env))) ck"
    using join_cache_key[of ck] split_cache_key[OF valid_no_zero[OF assms]] z
    by (auto simp: view_def)
qed

section \<open>The relation\<close>

text \<open>
  A namespace that is not open has on disk what opening it will show. The bounds \<open>V\<close> and \<open>N\<close> are the room
  of the logs.
\<close>

definition on_disk_as :: "('j, 's) store_env \<Rightarrow> bytes set \<Rightarrow> nat \<Rightarrow> ('j, 's) shard_store \<Rightarrow> bytes \<Rightarrow> kv_map \<Rightarrow> bool" where
  "on_disk_as env V N s ns A \<longleftrightarrow>
     (case case om_lookup (ss_disk s) ns of Some d \<Rightarrow> d | None \<Rightarrow> (om_empty, om_empty) of
        (dir, blobs) \<Rightarrow>
          \<forall>l dir'. open_log (se_world env ns) (ss_config s) dir blobs = (Inr l, dir') \<longrightarrow>
            log_rel (se_world env ns) A l \<and> log_fit (se_world env ns) V N l)"

definition logs_rel :: "('j, 's) store_env \<Rightarrow> bytes set \<Rightarrow> nat \<Rightarrow> keyspace \<Rightarrow> ('j, 's) shard_store \<Rightarrow> bool" where
  "logs_rel env V N B s \<longleftrightarrow>
     (\<forall>ns. is_valid_ns_name ns \<longrightarrow>
        (case om_lookup (ss_namespaces s) ns of
           Some l \<Rightarrow> log_rel (se_world env ns) (B ns) l \<and> log_fit (se_world env ns) V N l
         | None \<Rightarrow> on_disk_as env V N s ns (B ns)))"

definition store_rel :: "('j, 's) store_env \<Rightarrow> bytes set \<Rightarrow> nat \<Rightarrow> keyspace \<Rightarrow> ('j, 's) shard_store \<Rightarrow> bool" where
  "store_rel env V N B s \<longleftrightarrow> logs_rel env V N B s \<and> csound (ss_cache s) (view env B)"

definition env_ok :: "('j, 's) store_env \<Rightarrow> bool" where
  "env_ok env \<longleftrightarrow>
     (\<forall>ns. hash_ok (se_world env ns)) \<and>
     (\<forall>j b. se_to_vec env j = Some b \<longrightarrow> b \<noteq> [] \<and> se_from_slice env b = Some j)"

lemma logs_rel_mono: "logs_rel env V N B s \<Longrightarrow> N \<le> M \<Longrightarrow> logs_rel env V M B s"
  by (fastforce simp: logs_rel_def on_disk_as_def split: option.splits intro: log_fit_mono)

lemma on_disk_cong:
  "ss_disk s' = ss_disk s \<Longrightarrow> ss_config s' = ss_config s \<Longrightarrow> on_disk_as env V N s' ns A = on_disk_as env V N s ns A"
  by (simp add: on_disk_as_def)

lemma logs_rel_cong:
  "ss_namespaces s' = ss_namespaces s \<Longrightarrow> ss_disk s' = ss_disk s \<Longrightarrow> ss_config s' = ss_config s \<Longrightarrow>
   logs_rel env V N B s' = logs_rel env V N B s"
  using on_disk_cong[of s' s env V N] by (simp add: logs_rel_def cong: option.case_cong)

lemma logs_rel_open:
  "logs_rel env V N B s \<Longrightarrow> is_valid_ns_name ns \<Longrightarrow> om_lookup (ss_namespaces s) ns = Some l \<Longrightarrow>
   log_rel (se_world env ns) (B ns) l \<and> log_fit (se_world env ns) V N l"
  by (auto simp: logs_rel_def split: option.splits)

lemma logs_rel_set_log:
  assumes "logs_rel env V N B s" "N \<le> M" "log_rel (se_world env ns) A l" "log_fit (se_world env ns) V M l"
  shows "logs_rel env V M (B(ns := A)) (set_log ns l s)"
  using logs_rel_mono[OF assms(1,2)] assms(3,4) on_disk_cong[of "set_log ns l s" s env V M]
  by (auto simp: logs_rel_def set_log_def split: option.split)

section \<open>The parts of an operation\<close>

lemma set_log_same: "om_lookup (ss_namespaces s) ns = Some l \<Longrightarrow> set_log ns l s = s"
  by (simp add: set_log_def om_insert_same)

lemma ensure_ns_rel:
  assumes "logs_rel env V N B s" "ensure_ns env ns s = (Inr u, s')"
  shows "logs_rel env V N B s'" "ss_cache s' = ss_cache s" "is_valid_ns_name ns"
    "\<exists>l. om_lookup (ss_namespaces s') ns = Some l"
proof -
  show v: "is_valid_ns_name ns" using assms(2) by (auto simp: ensure_ns_def split: if_splits)
  have "logs_rel env V N B s' \<and> ss_cache s' = ss_cache s \<and> (\<exists>l. om_lookup (ss_namespaces s') ns = Some l)"
  proof (cases "om_lookup (ss_namespaces s) ns")
    case (Some l)
    then show ?thesis using assms v by (auto simp: ensure_ns_def)
  next
    case None
    obtain dir blobs where d: "(case om_lookup (ss_disk s) ns of Some d \<Rightarrow> d | None \<Rightarrow> (om_empty, om_empty)) = (dir, blobs)" by force
    from assms(2) obtain l dir' where l: "open_log (se_world env ns) (ss_config s) dir blobs = (Inr l, dir')" "s' = set_log ns l s"
      by (auto simp: ensure_ns_def None v d split: if_splits prod.splits sum.splits)
    have "on_disk_as env V N s ns (B ns)" using assms(1) v None by (auto simp: logs_rel_def split: option.splits)
    then have "log_rel (se_world env ns) (B ns) l" "log_fit (se_world env ns) V N l"
      using l(1) by (auto simp: on_disk_as_def d)
    from logs_rel_set_log[OF assms(1) order_refl this] show ?thesis by (simp add: l(2) set_log_def)
  qed
  then show "logs_rel env V N B s'" "ss_cache s' = ss_cache s" "\<exists>l. om_lookup (ss_namespaces s') ns = Some l" by auto
qed

lemma log_view_Inr:
  "log_view env ns f s = (Inr x, s') \<longleftrightarrow> (\<exists>l. om_lookup (ss_namespaces s) ns = Some l \<and> f (se_world env ns) l = Inr x \<and> s' = s)"
  by (auto simp: log_view_def on_log_def set_log_same split: option.splits)

lemma on_log_Inr:
  "on_log env ns f s = (Inr x, s') \<longleftrightarrow>
   (\<exists>l l'. om_lookup (ss_namespaces s) ns = Some l \<and> f (se_world env ns) l = (Inr x, l') \<and> s' = set_log ns l' s)"
  by (auto simp: on_log_def split: option.splits prod.splits)

lemma set_log_simps [simp]: "ss_cache (set_log ns l s) = ss_cache s" "ss_watchers (set_log ns l s) = ss_watchers s"
  by (simp_all add: set_log_def)

text \<open>One call on the log, as the log operation \<open>c\<close>: it took place with revision \<open>r\<close>, or it did not.\<close>

lemma log_call_took:
  assumes rel: "logs_rel env V N B s" "N + 1 < 2 ^ 64" "is_valid_ns_name ns"
    and c: "om_lookup (ss_namespaces s) ns = Some l" "log_step (se_world env ns) c l = (Inr (Some r), l')"
    and b: "unat (clock_of c) \<le> N" "set (values_of c) \<subseteq> V"
  obtains A where "effect c r (B ns) = Some A" "newer r (B ns)" "logs_rel env V (N + 1) (B(ns := A)) (set_log ns l' s)"
proof -
  from logs_rel_open[OF rel(1,3) c(1)] have l: "log_rel (se_world env ns) (B ns) l" "log_fit (se_world env ns) V N l" by auto
  obtain A where "effect c r (B ns) = Some A" "newer r (B ns)" "log_rel (se_world env ns) A l'" "log_fit (se_world env ns) V (N + 1) l'"
    using lg.took[OF l rel(2) b c(2)] by blast
  then show thesis using that logs_rel_set_log[OF rel(1), of "N + 1" ns A l'] by auto
qed

lemma log_call_refused:
  assumes rel: "logs_rel env V N B s" "N + 1 < 2 ^ 64" "is_valid_ns_name ns"
    and c: "om_lookup (ss_namespaces s) ns = Some l" "log_step (se_world env ns) c l = (Inr None, l')"
    and b: "unat (clock_of c) \<le> N" "set (values_of c) \<subseteq> V"
  shows "effect c r (B ns) = None" "logs_rel env V (N + 1) B (set_log ns l' s)"
proof -
  from logs_rel_open[OF rel(1,3) c(1)] have l: "log_rel (se_world env ns) (B ns) l" "log_fit (se_world env ns) V N l" by auto
  note r = lg.refused[OF l rel(2) b c(2)]
  show "effect c r (B ns) = None" by (rule r(3))
  show "logs_rel env V (N + 1) B (set_log ns l' s)"
    using logs_rel_set_log[OF rel(1) _ r(1,2)] by simp
qed

lemma read_value_Inr:
  assumes "entry_holds w st k e x" "hash_ok w" "read_value w st e = Inr (v, m)"
  shows "v = kv_value x" "m = kv_meta x"
proof -
  from assms(3) have ra: "reads_at w st e"
    by (auto simp: read_value_def read_record_def reads_at_def rbind_eq_Inr ok_or_def read_exact_def Let_def
        split: option.splits if_splits)
  obtain r where r: "read_record st e = Inr (enc_rec (w_crc w) r)" "rec_fits r" "lr_meta r = kv_meta x"
    "value_in w (nl_values st) (valsep (nl_index st) k) r (kv_value x)"
    using read_record_holds[OF assms(1) ra] by metis
  from assms(3) have d: "deref w (nl_values st) (lr_val r) (lr_flags r) = Inr v" "m = lr_meta r"
    by (auto simp: read_value_def r(1) extract_enc_rec[OF r(2)] rbind_eq_Inr)
  show "m = kv_meta x" using d(2) r(3) by simp
  show "v = kv_value x" using d(1) r(4)
    by (auto simp: deref_def value_in_def vs_get_def rbind_eq_Inr ok_or_def split: if_splits option.splits)
qed

lemma store_rel_mono: "store_rel env V N B s \<Longrightarrow> N \<le> M \<Longrightarrow> store_rel env V M B s"
  by (auto simp: store_rel_def intro: logs_rel_mono)

lemma ensure_ns_store:
  assumes "store_rel env V N B s" "ensure_ns env ns s = (Inr u, s')"
  shows "store_rel env V N B s'" "is_valid_ns_name ns"
  using ensure_ns_rel[OF _ assms(2), of V N B] assms(1) by (auto simp: store_rel_def)

lemma hit_view_parts: "hit_view env x = Some (v, t, m, r) \<Longrightarrow> v = kv_value x \<and> t = kv_ttl x \<and> r = kv_rev x"
  by (auto simp: hit_view_def split: sum.splits)

lemma cache_lookup_rel:
  assumes "store_rel env V N B s" "is_valid_ns_name ns" "cache_lookup ns key now s = (Inr h, s')"
  shows "store_rel env V N B s'"
    and "h = Some x \<Longrightarrow> \<exists>y. B ns key = Some y \<and> hit_view env y = Some x \<and> \<not> expired (kv_ttl y) now"
    and "h = None \<Longrightarrow> csound (ss_cache s') (view env (B(ns := (B ns)(key := Y))))"
proof -
  obtain c where c: "cache_get (cache_key ns key) now (ss_cache s) = (h, c)" "s' = s\<lparr>ss_cache := c\<rparr>"
    using assms(3) by (auto simp: cache_lookup_def split: prod.splits)
  have cs: "csound (ss_cache s) (view env B)" using assms(1) by (simp add: store_rel_def)
  show "store_rel env V N B s'"
    using assms(1) mc.get_keeps[OF cs c(1)] logs_rel_cong[of s' s] by (simp add: store_rel_def c(2))
  show "\<exists>y. B ns key = Some y \<and> hit_view env y = Some x \<and> \<not> expired (kv_ttl y) now" if "h = Some x"
  proof -
    have "view env B (cache_key ns key) = Some x" "fresh x now"
      using mc.get_hit[OF cs, of "cache_key ns key" now x c] c(1) that by auto
    then obtain y where "B ns key = Some y" "hit_view env y = Some x" "\<not> expired (fst (snd x)) now"
      by (auto simp: view_key[OF assms(2)] fresh_def bind_eq_Some_conv)
    then show ?thesis using hit_view_parts[of env y] by (cases x) auto
  qed
  show "csound (ss_cache s') (view env (B(ns := (B ns)(key := Y))))" if "h = None"
    using mc.get_miss[OF cs, of "cache_key ns key" now c] c that by (simp add: view_upd[OF assms(2)])
qed

lemma index_lookup_rel:
  assumes "logs_rel env V N B s" "is_valid_ns_name ns" "index_lookup env ns key s = (Inr r, s')"
  shows "s' = s" and "r = None \<Longrightarrow> B ns key = None"
    and "r = Some (e, t) \<Longrightarrow> \<exists>l x. om_lookup (ss_namespaces s) ns = Some l \<and> B ns key = Some x \<and> kv_ttl x = t \<and>
      kv_rev x = ie_tstamp_ms e \<and> entry_holds (se_world env ns) l key e x"
proof -
  from assms(3) obtain l where l: "om_lookup (ss_namespaces s) ns = Some l" "s' = s"
    "r = map_option (\<lambda>e. (e, ttl_of (nl_index l) key)) (ix_get (nl_index l) key)"
    by (auto simp: index_lookup_def log_view_Inr)
  have rel: "log_rel (se_world env ns) (B ns) l" using logs_rel_open[OF assms(1,2) l(1)] by simp
  show "s' = s" by (rule l(2))
  show "r = None \<Longrightarrow> B ns key = None" using log_rel_None[OF rel, of key] l(3) by simp
  show "\<exists>l x. om_lookup (ss_namespaces s) ns = Some l \<and> B ns key = Some x \<and> kv_ttl x = t \<and>
      kv_rev x = ie_tstamp_ms e \<and> entry_holds (se_world env ns) l key e x" if "r = Some (e, t)"
  proof -
    have g: "ix_get (nl_index l) key = Some e" "t = ttl_of (nl_index l) key" using l(3) that by (cases "ix_get (nl_index l) key"; simp)+
    obtain x where x: "B ns key = Some x" "entry_holds (se_world env ns) l key e x" using log_rel_Some[OF rel g(1)] by blast
    then have "kv_ttl x = t" "kv_rev x = ie_tstamp_ms e" using g(2) by (simp_all add: entry_holds_def)
    then show ?thesis using x l(1) by blast
  qed
qed

lemma read_hit_rel:
  assumes "env_ok env" "om_lookup (ss_namespaces s) ns = Some l" "entry_holds (se_world env ns) l key e x" "kv_ttl x = t"
    and "read_hit env ns e t s = (Inr (h, n), s')"
  shows "s' = s" "hit_view env x = Some h" "n = length (kv_meta x)"
proof -
  from assms(5,2) obtain v m j where r: "read_value (se_world env ns) l e = Inr (v, m)" "metadata_from_bytes env m = Inr j"
      "h = (v, t, j, ie_tstamp_ms e)" "n = length m" "s' = s"
    by (auto simp: read_hit_def sbind_Inr log_view_Inr)
  have vm: "v = kv_value x" "m = kv_meta x"
    using read_value_Inr[OF assms(3) _ r(1)] assms(1) by (auto simp: env_ok_def)
  have "kv_rev x = ie_tstamp_ms e" using assms(3) by (simp add: entry_holds_def)
  then show "s' = s" "hit_view env x = Some h" "n = length (kv_meta x)"
    using r vm assms(4) by (auto simp: hit_view_def)
qed

section \<open>Changes of the keyspace\<close>

definition put_key :: "bytes \<Rightarrow> bytes \<Rightarrow> kv option \<Rightarrow> keyspace \<Rightarrow> keyspace" where
  "put_key ns key y B = B(ns := (B ns)(key := y))"

lemma put_key_simps [simp]:
  "put_key ns key y B ns = (B ns)(key := y)" "put_key ns key z (put_key ns key y B) = put_key ns key z B"
  by (simp_all add: put_key_def)

lemma put_key_same: "B ns key = y \<Longrightarrow> put_key ns key y B = B"
  by (auto simp: put_key_def)

text \<open>After the log has made a change, the cache follows: it forgets the key or takes the new entry.\<close>

lemma cache_drop_rel:
  assumes "logs_rel env V N (put_key ns key y B) s" "csound (ss_cache s) (view env B)" "is_valid_ns_name ns"
    and "cache_drop ns key s = (Inr u, s')"
  shows "store_rel env V N (put_key ns key y B) s'"
proof -
  have s: "s' = s\<lparr>ss_cache := cache_remove (cache_key ns key) (ss_cache s)\<rparr>"
    using assms(4) by (simp add: cache_drop_def on_cache_def)
  show ?thesis
    using assms(1) mc.rem_sound[OF assms(2)] logs_rel_cong[of s' s]
    by (simp add: store_rel_def s put_key_def view_upd[OF assms(3)])
qed

lemma cache_fill_rel:
  assumes "store_rel env V N B s" "is_valid_ns_name ns" "B ns key = Some x" "hit_view env x = Some h"
    and "cache_fill ns key h n s = (Inr u, s')"
  shows "store_rel env V N B s'"
proof -
  have s: "s' = s\<lparr>ss_cache := cache_insert (cache_key ns key) h n (ss_cache s)\<rparr>"
    using assms(5) by (simp add: cache_fill_def on_cache_def)
  have "view env B (cache_key ns key) = Some h" using assms(3,4) by (simp add: view_key[OF assms(2)])
  then show ?thesis
    using assms(1) mc.fill_sound[of "ss_cache s" "view env B"] logs_rel_cong[of s' s] by (simp add: store_rel_def s)
qed

lemma publish_set_rel:
  assumes "logs_rel env V N (put_key ns key (Some x) B) s" "csound (ss_cache s) (view env B)" "is_valid_ns_name ns"
    and "hit_view env x = Some (v, t, m, r)" "publish_set env ns key v t m n r s = (Inr u, s')"
  shows "store_rel env V N (put_key ns key (Some x) B) s'"
proof -
  from assms(5) obtain c where s: "ss_namespaces s' = ss_namespaces s" "ss_disk s' = ss_disk s" "ss_config s' = ss_config s"
      "ss_cache s' = (case try_update (cache_key ns key) (v, t, m, r) n (ss_cache s) of
         (True, c') \<Rightarrow> c' | (False, c') \<Rightarrow> cache_insert (cache_key ns key) (v, t, m, r) n c')"
    by (auto simp: publish_set_def sbind_Inr upsert_cache_def on_cache_def notify_watchers_def)
  have "view env (put_key ns key (Some x) B) = (view env B)(cache_key ns key \<mapsto> (v, t, m, r))"
    by (simp add: put_key_def view_upd[OF assms(3)] assms(4))
  then show ?thesis
    using assms(1) mc.upsert_sound[OF assms(2), of "cache_key ns key" "(v, t, m, r)" n] logs_rel_cong[OF s(1,2,3)]
    unfolding store_rel_def s(4) by simp
qed

end
