(* ===== verification/Store_Reads.thy ===== *)
theory Store_Reads
  imports Store_Rel
begin

text \<open>
  The reading half of the store operations against the keyspace: what a lookup answers, on a cache hit and
  on a read from the log alike, and that a lookup removes at most the key it found expired.
\<close>

section \<open>Specification of a read\<close>

definition look :: "keyspace \<Rightarrow> bytes \<Rightarrow> bytes \<Rightarrow> u64 \<Rightarrow> kv option" where
  "look B ns key now = (case B ns key of Some x \<Rightarrow> if expired (kv_ttl x) now then None else Some x | None \<Rightarrow> None)"

definition purge :: "bytes \<Rightarrow> bytes \<Rightarrow> u64 \<Rightarrow> keyspace \<Rightarrow> keyspace" where
  "purge ns key now B = put_key ns key (look B ns key now) B"

definition shown :: "('j, 's) store_env \<Rightarrow> u64 \<Rightarrow> nat \<Rightarrow> kv option \<Rightarrow> 'j entry option" where
  "shown env now inst xo = map_option (\<lambda>x. entry_of now inst (the (hit_view env x))) xo"

lemma purge_live: "look B ns key now = B ns key \<Longrightarrow> purge ns key now B = B"
  by (simp add: purge_def put_key_same)

lemma look_simps:
  "B ns key = None \<Longrightarrow> look B ns key now = None"
  "B ns key = Some x \<Longrightarrow> \<not> expired (kv_ttl x) now \<Longrightarrow> look B ns key now = Some x"
  "B ns key = Some x \<Longrightarrow> expired (kv_ttl x) now \<Longrightarrow> look B ns key now = None"
  by (simp_all add: look_def)

lemma look_purge [simp]: "look (purge ns key now B) ns key now = look B ns key now"
  by (auto simp: purge_def look_def split: option.splits if_splits)

section \<open>The lookups\<close>

lemma tombstone_call:
  assumes rel: "store_rel env V N B s" "N + 1 < 2 ^ 64" "is_valid_ns_name ns" "unat clk \<le> N"
    and r: "on_log env ns (\<lambda>w. tombstone w clk key) s = (Inr r, s')"
  shows "logs_rel env V (N + 1) (put_key ns key None B) s'" "ss_cache s' = ss_cache s"
    "r = None \<longleftrightarrow> B ns key = None" "r = Some rv \<Longrightarrow> newer rv (B ns)"
proof -
  have lr: "logs_rel env V N B s" using rel(1) by (simp add: store_rel_def)
  from r obtain l l' where l: "om_lookup (ss_namespaces s) ns = Some l" "tombstone (se_world env ns) clk key l = (Inr r, l')"
    "s' = set_log ns l' s" by (auto simp: on_log_Inr)
  show "ss_cache s' = ss_cache s" by (simp add: l(3))
  have st: "log_step (se_world env ns) (LDel clk key) l = (Inr r, l')" using l(2) by simp
  have "logs_rel env V (N + 1) (put_key ns key None B) s' \<and> (r = None \<longleftrightarrow> B ns key = None) \<and> (r = Some rv \<longrightarrow> newer rv (B ns))"
  proof (cases r)
    case None
    note c = log_call_refused[OF lr rel(2,3) l(1) st[unfolded None]]
    have n: "B ns key = None" using c(1) rel(4) by (simp split: if_splits)
    have "logs_rel env V (N + 1) B s'" using c(2) rel(4) l(3) by simp
    then show ?thesis using None n by (simp add: put_key_same)
  next
    case (Some q)
    obtain A where A: "effect (LDel clk key) q (B ns) = Some A" "newer q (B ns)" "logs_rel env V (N + 1) (B(ns := A)) (set_log ns l' s)"
      using log_call_took[OF lr rel(2,3) l(1) st[unfolded Some]] rel(4) by auto
    then have "B ns key \<noteq> None" "A = (B ns)(key := None)" by (auto simp: spec_del_def split: if_splits)
    then show ?thesis using A(2,3) Some l(3) by (auto simp: put_key_def)
  qed
  then show "logs_rel env V (N + 1) (put_key ns key None B) s'" "r = None \<longleftrightarrow> B ns key = None" "r = Some rv \<Longrightarrow> newer rv (B ns)"
    by auto
qed

lemma drop_expired_rel:
  assumes rel: "store_rel env V N B s" "N + 1 < 2 ^ 64" "is_valid_ns_name ns" "unat clk \<le> N"
    and r: "drop_expired env clk ns key s = (Inr u, s')"
  shows "store_rel env V (N + 1) (put_key ns key None B) s'"
proof -
  from r obtain x s1 where s1: "on_log env ns (\<lambda>w. tombstone w clk key) s = (Inr x, s1)" "cache_drop ns key s1 = (Inr u, s')"
    by (auto simp: drop_expired_def sbind_Inr)
  note t = tombstone_call[OF rel s1(1)]
  show ?thesis using cache_drop_rel[OF t(1) _ rel(3) s1(2)] t(2) rel(1) by (simp add: store_rel_def)
qed


text \<open>Actions that leave the logs and the cache alone.\<close>

definition keeps :: "('j, 's) shard_store \<Rightarrow> ('j, 's) shard_store \<Rightarrow> bool" where
  "keeps s s' \<longleftrightarrow> ss_namespaces s' = ss_namespaces s \<and> ss_disk s' = ss_disk s \<and> ss_config s' = ss_config s \<and>
     ss_cache s' = ss_cache s"

lemma keeps_refl [simp]: "keeps s s"
  by (simp add: keeps_def)

lemma store_rel_keeps: "store_rel env V N B s \<Longrightarrow> keeps s s' \<Longrightarrow> store_rel env V N B s'"
  using logs_rel_cong[of s' s env V N B] by (auto simp: keeps_def store_rel_def)

lemma quiet_actions:
  "count_hit s = (Inr u, s') \<Longrightarrow> keeps s s'" "count_miss s = (Inr u, s') \<Longrightarrow> keeps s s'"
  "notify_watchers env ns key ev s = (Inr u, s') \<Longrightarrow> keeps s s'"
  by (auto simp: keeps_def count_hit_def count_miss_def notify_watchers_def)

text \<open>
  The lookup in the cache and then in the index that every read starts with; \<open>mid\<close> is what it does between
  the two.
\<close>

lemma find_cases:
  assumes rel: "store_rel env V N B s" "is_valid_ns_name ns"
    and mid: "\<And>s u s'. mid s = (Inr (u :: unit), s') \<Longrightarrow> keeps s s'"
    and run: "sbind (cache_lookup ns key now) (\<lambda>h. case h of Some h \<Rightarrow> F h | None \<Rightarrow>
      sbind mid (\<lambda>u. sbind (index_lookup env ns key) (\<lambda>r. case r of None \<Rightarrow> G | Some (e, t) \<Rightarrow>
        if expired t now then D else E e t))) s = (Inr y, s')"
  obtains
    (hit) h x s1 where "store_rel env V N B s1" "B ns key = Some x" "\<not> expired (kv_ttl x) now" "hit_view env x = Some h"
      "F h s1 = (Inr y, s')"
  | (absent) s1 where "store_rel env V N B s1" "B ns key = None" "G s1 = (Inr y, s')"
  | (dead) x s1 where "store_rel env V N B s1" "B ns key = Some x" "expired (kv_ttl x) now"
      "\<And>Y. csound (ss_cache s1) (view env (put_key ns key Y B))" "D s1 = (Inr y, s')"
  | (live) x l e s1 where "store_rel env V N B s1" "B ns key = Some x" "\<not> expired (kv_ttl x) now"
      "om_lookup (ss_namespaces s1) ns = Some l" "entry_holds (se_world env ns) l key e x" "kv_rev x = ie_tstamp_ms e"
      "E e (kv_ttl x) s1 = (Inr y, s')"
proof -
  from run obtain h s0 where c: "cache_lookup ns key now s = (Inr h, s0)"
    and k: "(case h of Some h \<Rightarrow> F h | None \<Rightarrow> sbind mid (\<lambda>u. sbind (index_lookup env ns key)
        (\<lambda>r. case r of None \<Rightarrow> G | Some (e, t) \<Rightarrow> if expired t now then D else E e t))) s0 = (Inr y, s')"
    by (auto simp: sbind_Inr)
  note cl = cache_lookup_rel[OF rel c]
  show thesis
  proof (cases h)
    case (Some x)
    obtain y0 where "B ns key = Some y0" "hit_view env y0 = Some x" "\<not> expired (kv_ttl y0) now" using cl(2)[OF Some] by blast
    then show thesis using hit[OF cl(1), of y0 x] k Some by simp
  next
    case None
    with k obtain u s1 r s2 where m: "mid s0 = (Inr u, s1)" "index_lookup env ns key s1 = (Inr r, s2)"
      and k2: "(case r of None \<Rightarrow> G | Some (e, t) \<Rightarrow> if expired t now then D else E e t) s2 = (Inr y, s')"
      by (auto simp: sbind_Inr)
    have s1: "store_rel env V N B s1" "ss_cache s1 = ss_cache s0"
      using store_rel_keeps[OF cl(1) mid[OF m(1)]] mid[OF m(1)] by (auto simp: keeps_def)
    note il = index_lookup_rel[OF _ rel(2) m(2), of V N B]
    have lr: "logs_rel env V N B s1" using s1(1) by (simp add: store_rel_def)
    show thesis
    proof (cases r)
      case None
      then show thesis using absent[OF s1(1)] il(1,2)[OF lr] k2 by simp
    next
      case (Some p)
      obtain e t where p: "p = (e, t)" by force
      obtain l x where x: "om_lookup (ss_namespaces s1) ns = Some l" "B ns key = Some x" "kv_ttl x = t"
        "kv_rev x = ie_tstamp_ms e" "entry_holds (se_world env ns) l key e x" using il(3)[OF lr] Some p by auto
      show thesis
      proof (cases "expired t now")
        case True
        then show thesis using dead[OF s1(1) x(2)] x(3) cl(3)[OF None] s1(2) k2 Some p il(1)[OF lr] by (auto simp: put_key_def)
      next
        case False
        then show thesis using live[OF s1(1) x(2) _ x(1,5,4)] x(3) k2 Some p il(1)[OF lr] by auto
      qed
    qed
  qed
qed

lemma sbind_sret: "sbind (sret x) f = f x"
  by (auto simp: sbind_def sret_def)

lemma find_cases0:
  assumes rel: "store_rel env V N B s" "is_valid_ns_name ns"
    and run: "sbind (cache_lookup ns key now) (\<lambda>h. case h of Some h \<Rightarrow> F h | None \<Rightarrow>
      sbind (index_lookup env ns key) (\<lambda>r. case r of None \<Rightarrow> G | Some (e, t) \<Rightarrow>
        if expired t now then D else E e t)) s = (Inr y, s')"
  obtains
    (hit) h x s1 where "store_rel env V N B s1" "B ns key = Some x" "\<not> expired (kv_ttl x) now" "hit_view env x = Some h"
      "F h s1 = (Inr y, s')"
  | (absent) s1 where "store_rel env V N B s1" "B ns key = None" "G s1 = (Inr y, s')"
  | (dead) x s1 where "store_rel env V N B s1" "B ns key = Some x" "expired (kv_ttl x) now"
      "\<And>Y. csound (ss_cache s1) (view env (put_key ns key Y B))" "D s1 = (Inr y, s')"
  | (live) x l e s1 where "store_rel env V N B s1" "B ns key = Some x" "\<not> expired (kv_ttl x) now"
      "om_lookup (ss_namespaces s1) ns = Some l" "entry_holds (se_world env ns) l key e x" "kv_rev x = ie_tstamp_ms e"
      "E e (kv_ttl x) s1 = (Inr y, s')"
proof -
  have run': "sbind (cache_lookup ns key now) (\<lambda>h. case h of Some h \<Rightarrow> F h | None \<Rightarrow>
      sbind (sret ()) (\<lambda>u. sbind (index_lookup env ns key) (\<lambda>r. case r of None \<Rightarrow> G | Some (e, t) \<Rightarrow>
        if expired t now then D else E e t))) s = (Inr y, s')"
    using run unfolding sbind_sret .
  show thesis
  proof (rule find_cases[OF rel _ run'])
  qed (simp, fact hit, fact absent, fact dead, fact live)
qed

section \<open>Operations that read one key\<close>

text \<open>An expired key leaves the keyspace at the lookup; any other lookup leaves the keyspace alone.\<close>

lemma purge_cases:
  "B ns key = None \<Longrightarrow> purge ns key now B = B"
  "B ns key = Some x \<Longrightarrow> \<not> expired (kv_ttl x) now \<Longrightarrow> purge ns key now B = B"
  "B ns key = Some x \<Longrightarrow> expired (kv_ttl x) now \<Longrightarrow> purge ns key now B = put_key ns key None B"
  by (simp_all add: purge_def look_simps put_key_same)

lemma shown_simps [simp]:
  "shown env now inst None = None" "hit_view env x = Some h \<Longrightarrow> shown env now inst (Some x) = Some (entry_of now inst h)"
  by (simp_all add: shown_def)

lemmas look_facts = look_simps purge_cases

lemma get_inline_rel:
  assumes env: "env_ok env" and rel: "store_rel env V N B s" "N + 1 < 2 ^ 64" "is_valid_ns_name ns" "unat clk \<le> N"
    and r: "get_inline env now inst clk ns key s = (Inr y, s')"
  shows "store_rel env V (N + 1) (purge ns key now B) s' \<and> y = shown env now inst (look B ns key now)"
proof (rule find_cases0[OF rel(1,3) r[unfolded get_inline_def]])
  fix x s1 assume "store_rel env V N B s1" "B ns key = Some x" "expired (kv_ttl x) now"
    and "sbind (drop_expired env clk ns key) (\<lambda>u. sret None) s1 = (Inr y, s')"
  then show ?thesis using drop_expired_rel[OF _ rel(2-4)] by (auto simp: look_facts sbind_Inr)
next
  fix x l e s1 assume a: "store_rel env V N B s1" "B ns key = Some x" "\<not> expired (kv_ttl x) now"
    "om_lookup (ss_namespaces s1) ns = Some l" "entry_holds (se_world env ns) l key e x"
    and "sbind (read_hit env ns e (kv_ttl x)) (\<lambda>(h, n). sret (Some (entry_of now inst h))) s1 = (Inr y, s')"
  then obtain h n where h: "read_hit env ns e (kv_ttl x) s1 = (Inr (h, n), s')" "y = Some (entry_of now inst h)"
    by (auto simp: sbind_Inr)
  show ?thesis using read_hit_rel[OF env a(4,5) refl h(1)] h(2) a(1-3) store_rel_mono[of env V N B s1 "N + 1"]
    by (auto simp: look_facts)
qed (auto simp: look_facts intro: store_rel_mono)

lemma getex_read_rel:
  assumes env: "env_ok env" and rel: "store_rel env V N B s" "N + 1 < 2 ^ 64" "is_valid_ns_name ns" "unat clk \<le> N"
    and r: "getex_read env now inst clk ns key s = (Inr y, s')"
  shows "store_rel env V (N + 1) (purge ns key now B) s' \<and> y = shown env now inst (look B ns key now)"
proof (rule find_cases0[OF rel(1,3) r[unfolded getex_read_def]])
  fix x s1 assume a: "store_rel env V N B s1" "B ns key = Some x" "expired (kv_ttl x) now"
      "\<And>Y. csound (ss_cache s1) (view env (put_key ns key Y B))"
    and "sbind (on_log env ns (\<lambda>w. tombstone w clk key)) (\<lambda>r. sret None) s1 = (Inr y, s')"
  then obtain q where "on_log env ns (\<lambda>w. tombstone w clk key) s1 = (Inr q, s')" "y = None" by (auto simp: sbind_Inr)
  then show ?thesis using tombstone_call(1,2)[OF a(1) rel(2-4)] a(2-4) by (auto simp: look_facts store_rel_def)
next
  fix x l e s1 assume a: "store_rel env V N B s1" "B ns key = Some x" "\<not> expired (kv_ttl x) now"
    "om_lookup (ss_namespaces s1) ns = Some l" "entry_holds (se_world env ns) l key e x"
    and "sbind (read_hit env ns e (kv_ttl x)) (\<lambda>(h, n). sbind (cache_fill ns key h n) (\<lambda>u. sret (Some (entry_of now inst h)))) s1
      = (Inr y, s')"
  then obtain h n s2 where h: "read_hit env ns e (kv_ttl x) s1 = (Inr (h, n), s2)" "cache_fill ns key h n s2 = (Inr (), s')"
    "y = Some (entry_of now inst h)" by (auto simp: sbind_Inr)
  note rh = read_hit_rel[OF env a(4,5) refl h(1)]
  have "store_rel env V N B s'" using cache_fill_rel[of env V N B s2, OF _ rel(3) a(2) rh(2) h(2)] a(1) rh(1) by simp
  then show ?thesis using rh h(3) a(2,3) store_rel_mono[of env V N B s' "N + 1"] by (auto simp: look_facts)
qed (auto simp: look_facts intro: store_rel_mono)

lemma store_get_rel:
  assumes env: "env_ok env" and rel: "store_rel env V N B s" "N + 1 < 2 ^ 64" "unat clk \<le> N"
    and r: "store_get env now inst clk ns key s = (Inr y, s')"
  shows "store_rel env V (N + 1) (purge ns key now B) s' \<and> y = shown env now inst (look B ns key now)"
proof -
  from r obtain q sl where l: "get_lookup env now inst clk ns key s = (Inr q, sl)"
    and k: "(case q of Inl reply \<Rightarrow> sret reply | Inr p \<Rightarrow> get_fill env now inst ns key p) sl = (Inr y, s')"
    by (auto simp: store_get_def sbind_Inr)
  from l obtain u s0 where e: "ensure_ns env ns s = (Inr u, s0)"
    and run: "sbind (cache_lookup ns key now) (\<lambda>h. case h of Some h \<Rightarrow> sbind count_hit (\<lambda>u. sret (Inl (Some (entry_of now inst h))))
       | None \<Rightarrow> sbind count_miss (\<lambda>u. sbind (index_lookup env ns key) (\<lambda>r. case r of None \<Rightarrow> sret (Inl None)
         | Some (e, t) \<Rightarrow> if expired t now then sbind (drop_expired env clk ns key) (\<lambda>u. sret (Inl None))
           else sret (Inr (e, t))))) s0 = (Inr q, sl)"
    by (auto simp: get_lookup_def sbind_Inr[of "ensure_ns env ns"])
  note en = ensure_ns_store[OF rel(1) e]
  show ?thesis
  proof (rule find_cases[OF en _ run])
    fix s1 h x assume a: "store_rel env V N B s1" "B ns key = Some x" "\<not> expired (kv_ttl x) now" "hit_view env x = Some h"
      and "sbind count_hit (\<lambda>u. sret (Inl (Some (entry_of now inst h)))) s1 = (Inr q, sl)"
    then have "keeps s1 s'" "y = Some (entry_of now inst h)" using k by (auto simp: sbind_Inr intro: quiet_actions)
    then show ?thesis using a store_rel_mono[of env V N B s' "N + 1"] store_rel_keeps[of env V N B s1 s'] by (auto simp: look_facts)
  next
    fix x s1 assume "store_rel env V N B s1" "B ns key = Some x" "expired (kv_ttl x) now"
      and "sbind (drop_expired env clk ns key) (\<lambda>u. sret (Inl None)) s1 = (Inr q, sl)"
    then show ?thesis using drop_expired_rel[OF _ rel(2) en(2) rel(3)] k by (auto simp: look_facts sbind_Inr)
  next
    fix x l e s1 assume a: "store_rel env V N B s1" "B ns key = Some x" "\<not> expired (kv_ttl x) now"
      "om_lookup (ss_namespaces s1) ns = Some l" "entry_holds (se_world env ns) l key e x"
      and "sret (Inr (e, kv_ttl x)) s1 = (Inr q, sl)"
    then obtain h n s2 where h: "read_hit env ns e (kv_ttl x) s1 = (Inr (h, n), s2)" "cache_fill ns key h n s2 = (Inr (), s')"
      "y = Some (entry_of now inst h)" using k by (auto simp: sbind_Inr get_fill_def)
    note rh = read_hit_rel[OF env a(4,5) refl h(1)]
    have "store_rel env V N B s'" using cache_fill_rel[of env V N B s2, OF _ en(2) a(2) rh(2) h(2)] a(1) rh(1) by simp
    then show ?thesis using rh h(3) a(2,3) store_rel_mono[of env V N B s' "N + 1"] by (auto simp: look_facts)
  qed (use k in \<open>auto simp: look_facts intro: store_rel_mono quiet_actions\<close>)
qed

definition ttl_reply :: "u64 \<Rightarrow> kv option \<Rightarrow> ttl_result" where
  "ttl_reply now xo =
     (case xo of
        None \<Rightarrow> TtlNotFound
      | Some x \<Rightarrow> (case kv_ttl x of None \<Rightarrow> NoExpiry | Some ms \<Rightarrow> Remaining (ms - now)))"

lemma store_pttl_rel:
  assumes rel: "store_rel env V N B s" "N + 1 < 2 ^ 64" "unat clk \<le> N"
    and r: "store_pttl env now clk ns key s = (Inr y, s')"
  shows "store_rel env V (N + 1) (purge ns key now B) s' \<and> y = ttl_reply now (look B ns key now)"
proof -
  from r obtain u s0 q s1 where e: "ensure_ns env ns s = (Inr u, s0)" "index_lookup env ns key s0 = (Inr q, s1)"
    and k: "(case q of None \<Rightarrow> sret TtlNotFound | Some (e, None) \<Rightarrow> sret NoExpiry | Some (e, Some ms) \<Rightarrow>
       if ms \<le> now then sbind (drop_expired env clk ns key) (\<lambda>u. sret TtlNotFound) else sret (Remaining (saturating_sub64 ms now))) s1
       = (Inr y, s')" by (auto simp: store_pttl_def ttl_raw_def sbind_Inr)
  note en = ensure_ns_store[OF rel(1) e(1)]
  have lr: "logs_rel env V N B s0" using en(1) by (simp add: store_rel_def)
  note il = index_lookup_rel[OF lr en(2) e(2)]
  show ?thesis
  proof (cases q)
    case None
    then show ?thesis using il(1,2) k en(1) store_rel_mono[of env V N B s0 "N + 1"] by (auto simp: look_facts ttl_reply_def)
  next
    case (Some p)
    obtain e t where p: "q = Some (e, t)" using Some by (cases p) auto
    obtain x where x: "B ns key = Some x" "kv_ttl x = t" using il(3)[OF p] by blast
    show ?thesis
    proof (cases "expired t now")
      case True
      then have "sbind (drop_expired env clk ns key) (\<lambda>u. sret TtlNotFound) s0 = (Inr y, s')"
        using k p il(1) by (auto simp: expired_def split: option.splits)
      then show ?thesis using drop_expired_rel[OF en(1) rel(2) en(2) rel(3)] x True by (auto simp: look_facts sbind_Inr ttl_reply_def)
    next
      case False
      then have "s' = s0 \<and> y = ttl_reply now (Some x)" using k p il(1) x(2)
        by (auto simp: expired_def ttl_reply_def saturating_sub64_def split: option.splits if_splits)
      then show ?thesis using False x en(1) store_rel_mono[of env V N B s0 "N + 1"] by (auto simp: look_facts)
    qed
  qed
qed

lemma store_ttl_rel:
  assumes "store_rel env V N B s" "N + 1 < 2 ^ 64" "unat clk \<le> N" "store_ttl env now clk ns key s = (Inr y, s')"
  shows "store_rel env V (N + 1) (purge ns key now B) s' \<and>
    y = (case ttl_reply now (look B ns key now) of Remaining ms \<Rightarrow> Remaining (ms div 1000) | other \<Rightarrow> other)"
  using store_pttl_rel[OF assms(1-3), of now ns key] assms(4) by (auto simp: store_ttl_def store_pttl_def sbind_Inr)

end
