(* ===== verification/Store_Writes.thy ===== *)
theory Store_Writes
  imports Store_Reads
begin

text \<open>
  The writing operations of the store against the keyspace: what each of them answers and how it changes the
  map of its namespace. The revision of a write is the one the log gave it, later than every other in the
  namespace.
\<close>

section \<open>Calls on the log\<close>

lemma put_call:
  assumes rel: "logs_rel env V N B s" "N + 1 < 2 ^ 64" "is_valid_ns_name ns" "unat clk \<le> N" "v \<in> V"
    and r: "on_log env ns (\<lambda>w. put_full w clk key v m t) s = (Inr r, s')"
  shows "logs_rel env V (N + 1) (put_key ns key (Some \<lparr>kv_value = v, kv_meta = m, kv_ttl = t, kv_rev = r\<rparr>) B) s'"
    "ss_cache s' = ss_cache s" "newer r (B ns)"
proof -
  from r obtain l l' where l: "om_lookup (ss_namespaces s) ns = Some l" "put_full (se_world env ns) clk key v m t l = (Inr r, l')"
    "s' = set_log ns l' s" by (auto simp: on_log_Inr)
  have st: "log_step (se_world env ns) (LPut clk key v m t) l = (Inr (Some r), l')" using l(2) by (simp add: replied_def)
  obtain A where "effect (LPut clk key v m t) r (B ns) = Some A" "newer r (B ns)" "logs_rel env V (N + 1) (B(ns := A)) (set_log ns l' s)"
    using log_call_took[OF rel(1-3) l(1) st] rel(4,5) by auto
  then show "logs_rel env V (N + 1) (put_key ns key (Some \<lparr>kv_value = v, kv_meta = m, kv_ttl = t, kv_rev = r\<rparr>) B) s'"
    "ss_cache s' = ss_cache s" "newer r (B ns)"
    by (auto simp: l(3) put_key_def spec_put_def)
qed

definition look_rev :: "keyspace \<Rightarrow> bytes \<Rightarrow> bytes \<Rightarrow> u64 \<Rightarrow> u64 option" where
  "look_rev B ns key now = map_option kv_rev (look B ns key now)"

lemma spec_live_look: "spec_live (B ns) key now = look_rev B ns key now"
  by (auto simp: spec_live_def look_rev_def look_def expired_def split: option.splits)

lemma put_cond_call:
  assumes rel: "logs_rel env V N B s" "N + 1 < 2 ^ 64" "is_valid_ns_name ns" "unat clk \<le> N" "v \<in> V"
    and r: "on_log env ns (\<lambda>w. put_full_cond w clk key v m t c now) s = (Inr r, s')"
  shows "check_cond c (look_rev B ns key now) \<longleftrightarrow> r \<noteq> None" "ss_cache s' = ss_cache s"
    "r = None \<Longrightarrow> logs_rel env V (N + 1) B s'"
    "r = Some q \<Longrightarrow> newer q (B ns) \<and>
       logs_rel env V (N + 1) (put_key ns key (Some \<lparr>kv_value = v, kv_meta = m, kv_ttl = t, kv_rev = q\<rparr>) B) s'"
proof -
  let ?c = "LPutCond clk key v m t c now"
  from r obtain l l' where l: "om_lookup (ss_namespaces s) ns = Some l" "log_step (se_world env ns) ?c l = (Inr r, l')"
    "s' = set_log ns l' s" by (auto simp: on_log_Inr)
  show "ss_cache s' = ss_cache s" by (simp add: l(3))
  have "(check_cond c (look_rev B ns key now) \<longleftrightarrow> r \<noteq> None) \<and> (r = None \<longrightarrow> logs_rel env V (N + 1) B s') \<and>
    (r = Some q \<longrightarrow> newer q (B ns) \<and>
       logs_rel env V (N + 1) (put_key ns key (Some \<lparr>kv_value = v, kv_meta = m, kv_ttl = t, kv_rev = q\<rparr>) B) s')"
  proof (cases r)
    case None
    then show ?thesis using log_call_refused[OF rel(1-3) l(1), of ?c l'] l(2,3) rel(4,5) by (auto simp: spec_live_look split: if_splits)
  next
    case (Some q')
    obtain A where "effect ?c q' (B ns) = Some A" "newer q' (B ns)" "logs_rel env V (N + 1) (B(ns := A)) s'"
      using log_call_took[OF rel(1-3) l(1), of ?c q' l'] l(2,3) Some rel(4,5) by auto
    then show ?thesis using Some by (auto simp: spec_live_look put_key_def spec_put_def split: if_splits)
  qed
  then show "check_cond c (look_rev B ns key now) \<longleftrightarrow> r \<noteq> None" "r = None \<Longrightarrow> logs_rel env V (N + 1) B s'"
    "r = Some q \<Longrightarrow> newer q (B ns) \<and>
       logs_rel env V (N + 1) (put_key ns key (Some \<lparr>kv_value = v, kv_meta = m, kv_ttl = t, kv_rev = q\<rparr>) B) s'" by auto
qed

lemma expire_call:
  assumes rel: "logs_rel env V N B s" "N + 1 < 2 ^ 64" "is_valid_ns_name ns" "unat clk \<le> N"
    and r: "on_log env ns (\<lambda>w. ttl_update w clk key t) s = (Inr r, s')"
  shows "logs_rel env V (N + 1) (put_key ns key (map_option (kv_ttl_update (\<lambda>u. t)) (B ns key)) B) s'" "ss_cache s' = ss_cache s"
proof -
  from r obtain l l' where l: "om_lookup (ss_namespaces s) ns = Some l" "ttl_update (se_world env ns) clk key t l = (Inr r, l')"
    "s' = set_log ns l' s" by (auto simp: on_log_Inr)
  have st: "log_step (se_world env ns) (LExpire clk key t) l = (Inr (Some r), l')" using l(2) by (simp add: replied_def)
  obtain A where "effect (LExpire clk key t) r (B ns) = Some A" "logs_rel env V (N + 1) (B(ns := A)) (set_log ns l' s)"
    using log_call_took[OF rel(1-3) l(1) st] rel(4) by auto
  then show "logs_rel env V (N + 1) (put_key ns key (map_option (kv_ttl_update (\<lambda>u. t)) (B ns key)) B) s'" "ss_cache s' = ss_cache s"
    by (auto simp: l(3) put_key_def spec_expire_def)
qed

lemma del_cond_call:
  assumes rel: "logs_rel env V N B s" "N + 1 < 2 ^ 64" "is_valid_ns_name ns" "unat clk \<le> N"
    and r: "on_log env ns (\<lambda>w. tombstone_cond w clk key e now) s = (Inr r, s')"
  shows "look_rev B ns key now = Some e \<longleftrightarrow> r \<noteq> None" "ss_cache s' = ss_cache s"
    "r = None \<Longrightarrow> logs_rel env V (N + 1) B s'" "r \<noteq> None \<Longrightarrow> logs_rel env V (N + 1) (put_key ns key None B) s'"
proof -
  let ?c = "LDelCond clk key e now"
  from r obtain l l' where l: "om_lookup (ss_namespaces s) ns = Some l" "log_step (se_world env ns) ?c l = (Inr r, l')"
    "s' = set_log ns l' s" by (auto simp: on_log_Inr)
  show "ss_cache s' = ss_cache s" by (simp add: l(3))
  have "(look_rev B ns key now = Some e \<longleftrightarrow> r \<noteq> None) \<and> (r = None \<longrightarrow> logs_rel env V (N + 1) B s') \<and>
    (r \<noteq> None \<longrightarrow> logs_rel env V (N + 1) (put_key ns key None B) s')"
  proof (cases r)
    case None
    then show ?thesis using log_call_refused[OF rel(1-3) l(1), of ?c l'] l(2,3) rel(4) by (auto simp: spec_live_look split: if_splits)
  next
    case (Some q')
    obtain A where "effect ?c q' (B ns) = Some A" "logs_rel env V (N + 1) (B(ns := A)) s'"
      using log_call_took[OF rel(1-3) l(1), of ?c q' l'] l(2,3) Some rel(4) by auto
    then show ?thesis using Some by (auto simp: spec_live_look put_key_def spec_del_def split: if_splits)
  qed
  then show "look_rev B ns key now = Some e \<longleftrightarrow> r \<noteq> None"
    "r = None \<Longrightarrow> logs_rel env V (N + 1) B s'" "r \<noteq> None \<Longrightarrow> logs_rel env V (N + 1) (put_key ns key None B) s'" by auto
qed

section \<open>Writes of one key\<close>

text \<open>
  The expiry a write gets: the one asked for, as an absolute time, or the one the key had. Of a key that
  does not exist, the expiry that is kept is whatever the index holds.
\<close>

definition gets_expiry :: "keyspace \<Rightarrow> bytes \<Rightarrow> bytes \<Rightarrow> 'j set_options \<Rightarrow> u64 \<Rightarrow> u64 option \<Rightarrow> bool" where
  "gets_expiry B ns key opts now t \<longleftrightarrow>
     (if so_keep_ttl opts then (\<forall>x. B ns key = Some x \<longrightarrow> t = kv_ttl x)
      else (case so_ttl opts of None \<Rightarrow> t = None | Some d \<Rightarrow> unat now + d < 2 ^ 64 \<and> t = Some (now + of_nat d)))"

lemma validate_ttl_Inr: "validate_ttl d now = Inr ms \<longleftrightarrow> unat now + d < 2 ^ 64 \<and> ms = now + of_nat d"
proof (cases "d < 2 ^ 64")
  case True
  then show ?thesis
    by (auto simp: validate_ttl_def checked_add64_def ok_or_def  split: if_splits)
qed (auto simp: validate_ttl_def)

lemma expiry_of_rel:
  assumes "logs_rel env V N B s" "is_valid_ns_name ns" "expiry_of env ns key opts now s = (Inr t, s')"
  shows "s' = s" "gets_expiry B ns key opts now t"
proof -
  show "s' = s" using assms(3) by (auto simp: expiry_of_def log_view_Inr split: if_splits)
  show "gets_expiry B ns key opts now t"
  proof (cases "so_keep_ttl opts")
    case True
    then obtain l where l: "om_lookup (ss_namespaces s) ns = Some l" "t = ttl_of (nl_index l) key"
      using assms(3) by (auto simp: expiry_of_def log_view_Inr)
    have rel: "log_rel (se_world env ns) (B ns) l" using logs_rel_open[OF assms(1,2) l(1)] by simp
    have "t = kv_ttl x" if b: "B ns key = Some x" for x
    proof -
      obtain e where "ix_get (nl_index l) key = Some e" using log_rel_None[OF rel, of key] b by (cases "ix_get (nl_index l) key") auto
      then show ?thesis using log_rel_Some[OF rel, of key e] b l(2) by (auto simp: entry_holds_def)
    qed
    then show ?thesis using True by (simp add: gets_expiry_def)
  next
    case False
    then show ?thesis using assms(3)
      by (auto simp: expiry_of_def gets_expiry_def validate_ttl_opt_def rbind_eq_Inr validate_ttl_Inr split: option.splits)
  qed
qed

text \<open>
  The value \<open>v\<close> was written at a key with the expiry \<open>t\<close> and the metadata \<open>m\<close>, at revision \<open>q\<close>, which is later
  than those of the namespace in \<open>A\<close>.
\<close>

definition wrote ::
  "('j, 's) store_env \<Rightarrow> bytes \<Rightarrow> bytes \<Rightarrow> bytes \<Rightarrow> u64 option \<Rightarrow> 'j option \<Rightarrow> u64 \<Rightarrow> kv_map \<Rightarrow> keyspace \<Rightarrow> keyspace \<Rightarrow> bool" where
  "wrote env ns key v t m q A B B' \<longleftrightarrow>
     newer q A \<and> (\<exists>x. B' = put_key ns key (Some x) B \<and> hit_view env x = Some (v, t, m, q))"

lemma wroteI: "newer q A \<Longrightarrow> hit_view env x = Some (v, t, m, q) \<Longrightarrow> wrote env ns key v t m q A B (put_key ns key (Some x) B)"
  by (auto simp: wrote_def)

lemma metadata_holds:
  assumes "env_ok env" "metadata_to_bytes env m = Inr b"
  shows "hit_view env \<lparr>kv_value = v, kv_meta = b, kv_ttl = t, kv_rev = r\<rparr> = Some (v, t, m, r)"
  using assms by (auto simp: hit_view_def metadata_to_bytes_def metadata_from_bytes_def env_ok_def split: option.splits)

lemma store_set_rel:
  assumes env: "env_ok env" and rel: "store_rel env V N B s" "N + 1 < 2 ^ 64" "unat clk \<le> N" "v \<in> V"
    and r: "store_set env now clk ns key v opts s = (Inr u, s')"
  shows "\<exists>B' t q. store_rel env V (N + 1) B' s' \<and> gets_expiry B ns key opts now t \<and>
    wrote env ns key v t (so_metadata opts) q (B ns) B B'"
proof -
  from r obtain s0 t s1 b q s2 where e: "ensure_ns env ns s = (Inr (), s0)" "expiry_of env ns key opts now s0 = (Inr t, s1)"
    "metadata_to_bytes env (so_metadata opts) = Inr b" "on_log env ns (\<lambda>w. put_full w clk key v b t) s1 = (Inr q, s2)"
    "publish_set env ns key v t (so_metadata opts) (length b) q s2 = (Inr u, s')"
    by (auto simp: store_set_def sbind_Inr)
  note en = ensure_ns_store[OF rel(1) e(1)]
  have lr: "logs_rel env V N B s0" using en(1) by (simp add: store_rel_def)
  note ex = expiry_of_rel[OF lr en(2) e(2)]
  note p = put_call[OF lr rel(2) en(2) rel(3,4) e(4)[unfolded ex(1)]]
  note h = metadata_holds[OF env e(3)]
  have "csound (ss_cache s2) (view env B)" using p(2) en(1) by (simp add: store_rel_def)
  from publish_set_rel[OF p(1) this en(2) h e(5)] show ?thesis using ex(2) wroteI[OF p(3) h] by blast
qed

lemma put_conditional_rel:
  assumes env: "env_ok env" and rel: "store_rel env V N B s" "N + 1 < 2 ^ 64" "is_valid_ns_name ns" "unat clk \<le> N" "v \<in> V"
    and r: "put_conditional env now clk ns key v m t c s = (Inr y, s')"
  shows "(\<exists>B' q. y = Some q \<and> check_cond c (look_rev B ns key now) \<and> store_rel env V (N + 1) B' s' \<and>
       wrote env ns key v t m q (B ns) B B') \<or>
    (y = None \<and> \<not> check_cond c (look_rev B ns key now) \<and> store_rel env V (N + 1) B s')"
proof -
  from r obtain b q s1 where e: "metadata_to_bytes env m = Inr b" "on_log env ns (\<lambda>w. put_full_cond w clk key v b t c now) s = (Inr q, s1)"
    and k: "(case q of None \<Rightarrow> sret None | Some revision \<Rightarrow>
      sbind (publish_set env ns key v t m (length b) revision) (\<lambda>u. sret (Some revision))) s1 = (Inr y, s')"
    by (auto simp: put_conditional_def sbind_Inr)
  have lr: "logs_rel env V N B s" "csound (ss_cache s) (view env B)" using rel(1) by (simp_all add: store_rel_def)
  note p = put_cond_call[OF lr(1) rel(2-5) e(2)]
  show ?thesis
  proof (cases q)
    case None
    then show ?thesis using p(1-3) k lr(2) by (auto simp: store_rel_def)
  next
    case (Some q')
    then have y: "publish_set env ns key v t m (length b) q' s1 = (Inr (), s')" "y = Some q'" using k by (auto simp: sbind_Inr)
    have cs: "csound (ss_cache s1) (view env B)" using p(2) lr(2) by simp
    from publish_set_rel[OF conjunct2[OF p(4)[OF Some]] cs rel(3) metadata_holds[OF env e(1)] y(1)]
    show ?thesis using y(2) p(1) Some wroteI[OF conjunct1[OF p(4)[OF Some]] metadata_holds[OF env e(1)]] by blast
  qed
qed

lemma set_conditional_rel:
  assumes env: "env_ok env" and rel: "store_rel env V N B s" "N + 1 < 2 ^ 64" "unat clk \<le> N" "v \<in> V"
    and r: "set_conditional env now clk ns key v opts req s = (Inr y, s')"
  shows "if (look B ns key now \<noteq> None) = req
    then y \<and> (\<exists>B' t q. store_rel env V (N + 1) B' s' \<and> gets_expiry B ns key opts now t \<and>
      wrote env ns key v t (so_metadata opts) q (B ns) B B')
    else \<not> y \<and> store_rel env V (N + 1) B s'"
proof -
  let ?c = "if req then KeyPresent else KeyAbsent"
  from r obtain s0 t s1 z where e: "ensure_ns env ns s = (Inr (), s0)" "expiry_of env ns key opts now s0 = (Inr t, s1)"
    "put_conditional env now clk ns key v (so_metadata opts) t ?c s1 = (Inr z, s')" "y = (z \<noteq> None)"
    by (auto simp: set_conditional_def sbind_Inr)
  note en = ensure_ns_store[OF rel(1) e(1)]
  have lr: "logs_rel env V N B s0" using en(1) by (simp add: store_rel_def)
  note ex = expiry_of_rel[OF lr en(2) e(2)]
  have "check_cond ?c (look_rev B ns key now) \<longleftrightarrow> (look B ns key now \<noteq> None) = req"
    by (auto simp: look_rev_def)
  with put_conditional_rel[OF env en(1) rel(2) en(2) rel(3,4) e(3)[unfolded ex(1)]] ex(2) e(4)
  show ?thesis by (auto split: if_splits)
qed

lemma store_setrev_rel:
  assumes env: "env_ok env" and rel: "store_rel env V N B s" "N + 1 < 2 ^ 64" "unat clk \<le> N" "v \<in> V"
    and r: "store_setrev env now clk ns key v opts e s = (Inr y, s')"
  shows "if look_rev B ns key now = Some e
    then \<exists>B' t q. y = Some q \<and> store_rel env V (N + 1) B' s' \<and>
      gets_expiry B ns key (opts\<lparr>so_keep_ttl := False\<rparr>) now t \<and> wrote env ns key v t (so_metadata opts) q (B ns) B B'
    else y = None \<and> store_rel env V (N + 1) B s'"
proof -
  from r obtain s0 t where e: "ensure_ns env ns s = (Inr (), s0)" "validate_ttl_opt (so_ttl opts) now = Inr t"
    "put_conditional env now clk ns key v (so_metadata opts) t (Revision e) s0 = (Inr y, s')"
    by (auto simp: store_setrev_def sbind_Inr)
  note en = ensure_ns_store[OF rel(1) e(1)]
  have "gets_expiry B ns key (opts\<lparr>so_keep_ttl := False\<rparr>) now t"
    using e(2) by (auto simp: gets_expiry_def validate_ttl_opt_def rbind_eq_Inr validate_ttl_Inr split: option.splits)
  with put_conditional_rel[OF env en(1) rel(2) en(2) rel(3,4) e(3)] show ?thesis by (auto split: if_splits)
qed

lemma store_delrev_rel:
  assumes rel: "store_rel env V N B s" "N + 1 < 2 ^ 64" "unat clk \<le> N"
    and r: "store_delrev env now clk ns key e s = (Inr y, s')"
  shows "if look_rev B ns key now = Some e then y = Some () \<and> store_rel env V (N + 1) (put_key ns key None B) s'
    else y = None \<and> store_rel env V (N + 1) B s'"
proof -
  from r obtain s0 q s1 where e: "ensure_ns env ns s = (Inr (), s0)" "on_log env ns (\<lambda>w. tombstone_cond w clk key e now) s0 = (Inr q, s1)"
    and k: "(case q of None \<Rightarrow> sret None | Some revision \<Rightarrow>
      sbind (cache_drop ns key) (\<lambda>u. sbind (publish_del env ns key revision) (\<lambda>u. sret (Some ())))) s1 = (Inr y, s')"
    by (auto simp: store_delrev_def sbind_Inr)
  note en = ensure_ns_store[OF rel(1) e(1)]
  have lr: "logs_rel env V N B s0" "csound (ss_cache s0) (view env B)" using en(1) by (simp_all add: store_rel_def)
  note d = del_cond_call[OF lr(1) rel(2) en(2) rel(3) e(2)]
  show ?thesis
  proof (cases q)
    case None
    then show ?thesis using d(1-3) k lr(2) by (auto simp: store_rel_def)
  next
    case (Some q')
    then obtain s2 where y: "cache_drop ns key s1 = (Inr (), s2)" "keeps s2 s'" "y = Some ()"
      using k by (auto simp: sbind_Inr publish_del_def intro: quiet_actions)
    show ?thesis using store_rel_keeps[OF cache_drop_rel[OF d(4) _ en(2) y(1)] y(2)] Some d(1,2) lr(2) y(3) by simp
  qed
qed

section \<open>Changes of the expiry\<close>

lemma live_here:
  assumes "store_rel env V N B s" "is_valid_ns_name ns" "om_lookup (ss_namespaces s) ns = Some l"
  shows "ix_get (nl_index l) key \<noteq> None \<and> \<not> is_expired (nl_index l) key now \<longleftrightarrow> look B ns key now \<noteq> None"
    "look B ns key now = Some x \<Longrightarrow> ttl_of (nl_index l) key = kv_ttl x"
proof -
  have rel: "log_rel (se_world env ns) (B ns) l" using assms logs_rel_open[of env V N B s ns l] by (simp add: store_rel_def)
  have "(ix_get (nl_index l) key \<noteq> None \<and> \<not> is_expired (nl_index l) key now \<longleftrightarrow> look B ns key now \<noteq> None) \<and>
    (look B ns key now = Some x \<longrightarrow> ttl_of (nl_index l) key = kv_ttl x)"
  proof (cases "ix_get (nl_index l) key")
    case None
    then show ?thesis using log_rel_None[OF rel, of key] by (simp add: look_def)
  next
    case (Some e)
    then obtain y where "B ns key = Some y" "ttl_of (nl_index l) key = kv_ttl y"
      using log_rel_Some[OF rel Some] by (auto simp: entry_holds_def)
    then show ?thesis using Some by (auto simp: look_def expired_def is_expired_ttl split: option.splits)
  qed
  then show "ix_get (nl_index l) key \<noteq> None \<and> \<not> is_expired (nl_index l) key now \<longleftrightarrow> look B ns key now \<noteq> None"
    "look B ns key now = Some x \<Longrightarrow> ttl_of (nl_index l) key = kv_ttl x" by auto
qed

lemma look_Some: "look B ns key now = Some x \<Longrightarrow> B ns key = Some x \<and> purge ns key now B = B"
  by (auto simp: look_def purge_def put_key_same split: option.splits if_splits)

lemma drop_same: "store_rel env V N B s \<Longrightarrow> is_valid_ns_name ns \<Longrightarrow> cache_drop ns key s = (Inr u, s') \<Longrightarrow> store_rel env V N B s'"
  using cache_drop_rel[of env V N ns key "B ns key" B s u s'] by (simp add: store_rel_def put_key_same)

lemma change_ttl_rel:
  assumes env: "env_ok env" and rel: "store_rel env V N B s" "N + 2 < 2 ^ 64" "is_valid_ns_name ns" "\<And>i. unat (clks i) \<le> N"
    and x: "look B ns key now = Some x" and r: "change_ttl env now inst clks ns key t s = (Inr u, s')"
  shows "store_rel env V (N + 2) (put_key ns key (Some (x\<lparr>kv_ttl := t\<rparr>)) B) s'"
proof -
  from r obtain en s1 q s2 s3 where e: "get_inline env now inst (clks 0) ns key s = (Inr en, s1)"
    "on_log env ns (\<lambda>w. ttl_update w (clks 1) key t) s1 = (Inr q, s2)" "cache_drop ns key s2 = (Inr (), s3)"
    "(case en of None \<Rightarrow> sret () | Some e \<Rightarrow> notify_watchers env ns key (WatchSet key (ent_value e) (ent_metadata e) t q)) s3 = (Inr u, s')"
    by (auto simp: change_ttl_def sbind_Inr)
  have s1: "store_rel env V (N + 1) B s1"
    using get_inline_rel[OF env rel(1) _ rel(3,4) e(1)] rel(2) look_Some[OF x] by simp
  then have lr: "logs_rel env V (N + 1) B s1" "csound (ss_cache s1) (view env B)" by (simp_all add: store_rel_def)
  have b: "N + 1 + 1 < 2 ^ 64" "unat (clks 1) \<le> N + 1" using rel(2) rel(4)[of 1] by simp_all
  note p = expire_call[OF lr(1) b(1) rel(3) b(2) e(2)]
  have "store_rel env V (N + 2) (put_key ns key (Some (x\<lparr>kv_ttl := t\<rparr>)) B) s3"
    using cache_drop_rel[OF p(1) _ rel(3) e(3)] p(2) lr(2) look_Some[OF x] by simp
  moreover have "keeps s3 s'" using e(4) by (auto split: option.splits intro: quiet_actions)
  ultimately show ?thesis by (rule store_rel_keeps)
qed

lemma store_expire_rel:
  assumes env: "env_ok env" and rel: "store_rel env V N B s" "N + 2 < 2 ^ 64" "\<And>i. unat (clks i) \<le> N"
    and r: "store_expire env now inst clks ns key d s = (Inr y, s')"
  shows "case look B ns key now of
      None \<Rightarrow> \<not> y \<and> store_rel env V (N + 2) B s'
    | Some x \<Rightarrow> y \<and> unat now + d < 2 ^ 64 \<and> store_rel env V (N + 2) (put_key ns key (Some (x\<lparr>kv_ttl := Some (now + of_nat d)\<rparr>)) B) s'"
proof -
  from r obtain s0 l where e: "ensure_ns env ns s = (Inr (), s0)" "om_lookup (ss_namespaces s0) ns = Some l"
    and k: "(if \<not> (ix_get (nl_index l) key \<noteq> None \<and> \<not> is_expired (nl_index l) key now)
       then sbind (cache_drop ns key) (\<lambda>u. sret False)
       else sbind (slift (validate_ttl d now)) (\<lambda>new_ms. sbind (change_ttl env now inst clks ns key (Some new_ms)) (\<lambda>u. sret True))) s0
       = (Inr y, s')" by (auto simp: store_expire_def sbind_Inr log_view_Inr)
  note en = ensure_ns_store[OF rel(1) e(1)]
  note k' = k[unfolded live_here(1)[OF en e(2)]]
  show ?thesis
  proof (cases "look B ns key now")
    case None
    then show ?thesis using k' drop_same[OF en] store_rel_mono[of env V N B s' "N + 2"] by (auto simp: sbind_Inr)
  next
    case (Some x)
    then show ?thesis using k' change_ttl_rel[OF env en(1) rel(2) en(2) rel(3) Some] by (auto simp: sbind_Inr validate_ttl_Inr)
  qed
qed

lemma store_persist_rel:
  assumes env: "env_ok env" and rel: "store_rel env V N B s" "N + 2 < 2 ^ 64" "\<And>i. unat (clks i) \<le> N"
    and r: "store_persist env now inst clks ns key s = (Inr y, s')"
  shows "case look B ns key now of
      None \<Rightarrow> \<not> y \<and> store_rel env V (N + 2) B s'
    | Some x \<Rightarrow> y = (kv_ttl x \<noteq> None) \<and> store_rel env V (N + 2) (put_key ns key (Some (x\<lparr>kv_ttl := None\<rparr>)) B) s'"
proof -
  from r obtain s0 l where e: "ensure_ns env ns s = (Inr (), s0)" "om_lookup (ss_namespaces s0) ns = Some l"
    and k: "(if \<not> (ix_get (nl_index l) key \<noteq> None \<and> ttl_of (nl_index l) key \<noteq> None \<and> \<not> is_expired (nl_index l) key now)
       then sret False else sbind (change_ttl env now inst clks ns key None) (\<lambda>u. sret True)) s0 = (Inr y, s')"
    by (auto simp: store_persist_def sbind_Inr log_view_Inr)
  note en = ensure_ns_store[OF rel(1) e(1)]
  have "(ix_get (nl_index l) key \<noteq> None \<and> ttl_of (nl_index l) key \<noteq> None \<and> \<not> is_expired (nl_index l) key now) \<longleftrightarrow>
      look B ns key now \<noteq> None \<and> ttl_of (nl_index l) key \<noteq> None"
    using live_here(1)[OF en e(2), of key now] by blast
  note k' = k[unfolded this]
  have m: "store_rel env V (N + 2) B s0" using store_rel_mono[OF en(1)] by simp
  show ?thesis
  proof (cases "look B ns key now")
    case None
    then show ?thesis using k' m by (auto simp: sbind_Inr)
  next
    case lx: (Some x)
    note lk = live_here(2)[OF en e(2) lx]
    show ?thesis
    proof (cases "kv_ttl x")
      case None
      then have "x\<lparr>kv_ttl := None\<rparr> = x" by simp
      then show ?thesis using k' m lk lx None look_Some[OF lx] by (auto simp: put_key_same)
    next
      case (Some t)
      then show ?thesis using k' lk lx change_ttl_rel[OF env en(1) rel(2) en(2) rel(3) lx]
        by (auto simp: sbind_Inr)
    qed
  qed
qed

section \<open>Reads that write\<close>

lemma getex_ttl_update_rel:
  assumes rel: "store_rel env V N B s" "N + 1 < 2 ^ 64" "is_valid_ns_name ns" "unat clk \<le> N" "B ns key = Some x"
    and r: "getex_ttl_update env now clk ns key op s = (Inr u, s')"
  shows "\<exists>t. store_rel env V (N + 1) (put_key ns key (Some (x\<lparr>kv_ttl := t\<rparr>)) B) s' \<and>
    (case op of GetExSetTtl d \<Rightarrow> unat now + d < 2 ^ 64 \<and> t = Some (now + of_nat d) | GetExPersist \<Rightarrow> t = None)"
proof -
  from r obtain t q s1 where e: "(case op of GetExSetTtl ttl \<Rightarrow> validate_ttl_opt (Some ttl) now | GetExPersist \<Rightarrow> Inr None) = Inr t"
    "on_log env ns (\<lambda>w. ttl_update w clk key t) s = (Inr q, s1)" "cache_drop ns key s1 = (Inr u, s')"
    by (auto simp: getex_ttl_update_def sbind_Inr)
  have lr: "logs_rel env V N B s" "csound (ss_cache s) (view env B)" using rel(1) by (simp_all add: store_rel_def)
  note p = expire_call[OF lr(1) rel(2-4) e(2)]
  have "store_rel env V (N + 1) (put_key ns key (Some (x\<lparr>kv_ttl := t\<rparr>)) B) s'"
    using cache_drop_rel[OF p(1) _ rel(3) e(3)] p(2) lr(2) rel(5) by simp
  then show ?thesis using e(1)
    by (auto simp: validate_ttl_opt_def rbind_eq_Inr validate_ttl_Inr split: getex_op.splits)
qed

lemma store_getex_rel:
  assumes env: "env_ok env" and rel: "store_rel env V N B s" "N + 2 < 2 ^ 64" "\<And>i. unat (clks i) \<le> N"
    and r: "store_getex env now inst clks ns key (Some op) s = (Inr y, s')"
  shows "y = shown env now inst (look B ns key now)"
    and "case look B ns key now of
      None \<Rightarrow> store_rel env V (N + 2) (purge ns key now B) s'
    | Some x \<Rightarrow> (\<exists>t. store_rel env V (N + 2) (put_key ns key (Some (x\<lparr>kv_ttl := t\<rparr>)) B) s' \<and>
        (case op of GetExSetTtl d \<Rightarrow> unat now + d < 2 ^ 64 \<and> t = Some (now + of_nat d) | GetExPersist \<Rightarrow> t = None))"
proof -
  from r obtain s0 f s1 where e: "ensure_ns env ns s = (Inr (), s0)" "getex_read env now inst (clks 0) ns key s0 = (Inr f, s1)"
    and k: "(case f of None \<Rightarrow> sret None | Some e \<Rightarrow> sbind (getex_ttl_update env now (clks 1) ns key op) (\<lambda>u. sret (Some e))) s1 = (Inr y, s')"
    by (auto simp: store_getex_def sbind_Inr simp del: One_nat_def)
  note en = ensure_ns_store[OF rel(1) e(1)]
  have n1: "N + 1 < 2 ^ 64" using rel(2) by simp
  have g: "store_rel env V (N + 1) (purge ns key now B) s1" "f = shown env now inst (look B ns key now)"
    using getex_read_rel[OF env en(1) n1 en(2) rel(3) e(2)] by auto
  show "y = shown env now inst (look B ns key now)" using k g(2) by (auto simp: sbind_Inr split: option.splits)
  show "case look B ns key now of
      None \<Rightarrow> store_rel env V (N + 2) (purge ns key now B) s'
    | Some x \<Rightarrow> (\<exists>t. store_rel env V (N + 2) (put_key ns key (Some (x\<lparr>kv_ttl := t\<rparr>)) B) s' \<and>
        (case op of GetExSetTtl d \<Rightarrow> unat now + d < 2 ^ 64 \<and> t = Some (now + of_nat d) | GetExPersist \<Rightarrow> t = None))"
  proof (cases "look B ns key now")
    case None
    then show ?thesis using k g store_rel_mono[OF g(1), of "N + 2"] by (simp add: shown_def)
  next
    case (Some x)
    have b: "N + 1 + 1 < 2 ^ 64" "unat (clks 1) \<le> N + 1" using rel(2) rel(3)[of 1] by simp_all
    have "getex_ttl_update env now (clks 1) ns key op s1 = (Inr (), s')" using k g(2) Some by (auto simp: shown_def sbind_Inr)
    from getex_ttl_update_rel[OF _ b(1) en(2) b(2) _ this, of V B x] g(1) look_Some[OF Some] Some show ?thesis by simp
  qed
qed

lemma store_getset_rel:
  assumes env: "env_ok env" and rel: "store_rel env V N B s" "N + 2 < 2 ^ 64" "\<And>i. unat (clks i) \<le> N" "v \<in> V"
    and r: "store_getset env now inst clks ns key v s = (Inr y, s')"
  shows "y = shown env now inst (look B ns key now) \<and>
    (\<exists>B' q. store_rel env V (N + 2) B' s' \<and> wrote env ns key v None None q ((purge ns key now B) ns) B B')"
proof -
  from r obtain s0 s1 q s2 where e: "ensure_ns env ns s = (Inr (), s0)" "get_inline env now inst (clks 0) ns key s0 = (Inr y, s1)"
    "on_log env ns (\<lambda>w. put_full w (clks 1) key v [] None) s1 = (Inr q, s2)" "publish_set env ns key v None None 0 q s2 = (Inr (), s')"
    by (auto simp: store_getset_def sbind_Inr)
  note en = ensure_ns_store[OF rel(1) e(1)]
  have b: "N + 1 < 2 ^ 64" "N + 1 + 1 < 2 ^ 64" "unat (clks 1) \<le> N + 1" using rel(2) rel(3)[of 1] by simp_all
  have g: "store_rel env V (N + 1) (purge ns key now B) s1" "y = shown env now inst (look B ns key now)"
    using get_inline_rel[OF env en(1) b(1) en(2) rel(3) e(2)] by auto
  then have lr: "logs_rel env V (N + 1) (purge ns key now B) s1" "csound (ss_cache s1) (view env (purge ns key now B))"
    by (simp_all add: store_rel_def)
  note p = put_call[OF lr(1) b(2) en(2) b(3) rel(4) e(3)]
  have h: "hit_view env \<lparr>kv_value = v, kv_meta = [], kv_ttl = None, kv_rev = q\<rparr> = Some (v, None, None, q)"
    using metadata_holds[OF env, of None "[]"] by (simp add: metadata_to_bytes_def)
  have cs: "csound (ss_cache s2) (view env (purge ns key now B))" using p(2) lr(2) by simp
  have "store_rel env V (N + 2) (put_key ns key (Some \<lparr>kv_value = v, kv_meta = [], kv_ttl = None, kv_rev = q\<rparr>) B) s'"
    using publish_set_rel[OF p(1) cs en(2) h e(4)] by (simp add: purge_def)
  then show ?thesis using g(2) wroteI[OF p(3) h] by blast
qed

lemma store_getdel_rel:
  assumes env: "env_ok env" and rel: "store_rel env V N B s" "N + 2 < 2 ^ 64" "\<And>i. unat (clks i) \<le> N"
    and r: "store_getdel env now inst clks ns key s = (Inr y, s')"
  shows "y = shown env now inst (look B ns key now) \<and> store_rel env V (N + 2) (put_key ns key None B) s'"
proof -
  from r obtain s0 s1 q s2 s3 where e: "ensure_ns env ns s = (Inr (), s0)" "get_inline env now inst (clks 0) ns key s0 = (Inr y, s1)"
    "on_log env ns (\<lambda>w. tombstone w (clks 1) key) s1 = (Inr q, s2)" "cache_drop ns key s2 = (Inr (), s3)"
    "(case (y, q) of (Some e, Some revision) \<Rightarrow> publish_del env ns key revision | _ \<Rightarrow> sret ()) s3 = (Inr (), s')"
    by (auto simp: store_getdel_def sbind_Inr)
  note en = ensure_ns_store[OF rel(1) e(1)]
  have b: "N + 1 < 2 ^ 64" "N + 1 + 1 < 2 ^ 64" "unat (clks 1) \<le> N + 1" using rel(2) rel(3)[of 1] by simp_all
  have g: "store_rel env V (N + 1) (purge ns key now B) s1" "y = shown env now inst (look B ns key now)"
    using get_inline_rel[OF env en(1) b(1) en(2) rel(3) e(2)] by auto
  note t = tombstone_call[OF g(1) b(2) en(2) b(3) e(3)]
  have "csound (ss_cache s2) (view env (purge ns key now B))" using t(2) g(1) by (simp add: store_rel_def)
  from cache_drop_rel[OF t(1) this en(2) e(4)] have "store_rel env V (N + 2) (put_key ns key None B) s3" by (simp add: purge_def)
  moreover have "keeps s3 s'" using e(5) by (auto simp: publish_del_def split: option.splits intro: quiet_actions)
  ultimately show ?thesis using g(2) store_rel_keeps by blast
qed

section \<open>Increments\<close>

lemma incr_read_rel:
  assumes env: "env_ok env" and rel: "store_rel env V N B s" "N + 1 < 2 ^ 64" "is_valid_ns_name ns" "unat clk \<le> N"
    and r: "incr_read env now clk ns key s = (Inr (v, t, c), s')"
  shows "store_rel env V (N + 1) (purge ns key now B) s' \<and> v = map_option kv_value (look B ns key now) \<and>
    t = Option.bind (look B ns key now) kv_ttl \<and> c = (case look B ns key now of None \<Rightarrow> KeyAbsent | Some x \<Rightarrow> Revision (kv_rev x))"
proof (rule find_cases0[OF rel(1,3) r[unfolded incr_read_def]])
  fix h x s1 assume a: "store_rel env V N B s1" "B ns key = Some x" "\<not> expired (kv_ttl x) now" "hit_view env x = Some h"
    and "(case h of (value, ttl_ms, m, rv) \<Rightarrow> sret (Some value, ttl_ms, Revision rv)) s1 = (Inr (v, t, c), s')"
  then show ?thesis using store_rel_mono[of env V N B s1 "N + 1"] by (cases h) (auto simp: look_facts dest: hit_view_parts)
next
  fix x s1 assume "store_rel env V N B s1" "B ns key = Some x" "expired (kv_ttl x) now"
    and "sbind (drop_expired env clk ns key) (\<lambda>u. sret (None, None, KeyAbsent)) s1 = (Inr (v, t, c), s')"
  then show ?thesis using drop_expired_rel[OF _ rel(2-4)] by (auto simp: look_facts sbind_Inr)
next
  fix x l e s1 assume a: "store_rel env V N B s1" "B ns key = Some x" "\<not> expired (kv_ttl x) now"
    "om_lookup (ss_namespaces s1) ns = Some l" "entry_holds (se_world env ns) l key e x" "kv_rev x = ie_tstamp_ms e"
    and "sbind (log_view env ns (\<lambda>w l. read_value w l e)) (\<lambda>(value, m). sret (Some value, kv_ttl x, Revision (ie_tstamp_ms e))) s1
      = (Inr (v, t, c), s')"
  then obtain m where h: "read_value (se_world env ns) l e = Inr (the v, m)" "v \<noteq> None" "t = kv_ttl x" "c = Revision (kv_rev x)" "s' = s1"
    by (auto simp: sbind_Inr log_view_Inr)
  have "the v = kv_value x" using read_value_Inr(1)[OF a(5) _ h(1)] env by (simp add: env_ok_def)
  then show ?thesis using h a(1-3) store_rel_mono[of env V N B s1 "N + 1"] by (auto simp: look_facts)
qed (auto simp: look_facts intro: store_rel_mono)

text \<open>With no one else at the key, the first attempt of an increment takes place.\<close>

lemma incr_attempt_rel:
  assumes env: "env_ok env" and rel: "store_rel env V N B s" "N + 2 < 2 ^ 64" "is_valid_ns_name ns" "unat clk \<le> N" "unat clk' \<le> N"
    and r: "incr_attempt env now clk clk' ns key d s = (Inr yo, s')" and V: "\<And>n. incr_value (map_option kv_value (look B ns key now)) d = Inr n \<Longrightarrow> i64_to_string n \<in> V"
  shows "\<exists>y B' q. yo = Some y \<and> incr_value (map_option kv_value (look B ns key now)) d = Inr y \<and> store_rel env V (N + 2) B' s' \<and>
    wrote env ns key (i64_to_string y) (Option.bind (look B ns key now) kv_ttl) None q ((purge ns key now B) ns) B B'"
proof -
  from r obtain v t c s1 n q s2 where e: "incr_read env now clk ns key s = (Inr (v, t, c), s1)" "incr_value v d = Inr n"
    "on_log env ns (\<lambda>w. put_full_cond w clk' key (i64_to_string n) [] t c now) s1 = (Inr q, s2)"
    and k: "(case q of None \<Rightarrow> sret None | Some revision \<Rightarrow>
      sbind (publish_set env ns key (i64_to_string n) t None 0 revision) (\<lambda>u. sret (Some n))) s2 = (Inr yo, s')"
    by (auto simp: incr_attempt_def sbind_Inr)
  let ?P = "purge ns key now B"
  have b: "N + 1 < 2 ^ 64" "N + 1 + 1 < 2 ^ 64" "unat clk' \<le> N + 1" using rel(2,5) by simp_all
  note i = incr_read_rel[OF env rel(1) b(1) rel(3,4) e(1)]
  then have lr: "logs_rel env V (N + 1) ?P s1" "csound (ss_cache s1) (view env ?P)" by (simp_all add: store_rel_def)
  have n: "incr_value (map_option kv_value (look B ns key now)) d = Inr n" using e(2) i by simp
  note p = put_cond_call[OF lr(1) b(2) rel(3) b(3) V[OF n] e(3)]
  have "check_cond c (look_rev ?P ns key now)" using i by (auto simp: look_rev_def split: option.splits)
  then obtain q' where q: "q = Some q'" using p(1) by auto
  then have y: "publish_set env ns key (i64_to_string n) t None 0 q' s2 = (Inr (), s')" "yo = Some n" using k by (auto simp: sbind_Inr)
  have h: "hit_view env \<lparr>kv_value = i64_to_string n, kv_meta = [], kv_ttl = t, kv_rev = q'\<rparr> = Some (i64_to_string n, t, None, q')"
    using metadata_holds[OF env, of None "[]"] by (simp add: metadata_to_bytes_def)
  have cs: "csound (ss_cache s2) (view env ?P)" using p(2) lr(2) by simp
  have "store_rel env V (N + 2) (put_key ns key (Some \<lparr>kv_value = i64_to_string n, kv_meta = [], kv_ttl = t, kv_rev = q'\<rparr>) B) s'"
    using publish_set_rel[OF conjunct2[OF p(4)[OF q]] cs rel(3) h y(1)] by (simp add: purge_def)
  then show ?thesis using n y(2) wroteI[OF conjunct1[OF p(4)[OF q]] h] i by blast
qed

lemma store_incr_rel:
  assumes env: "env_ok env" and rel: "store_rel env V N B s" "N + 2 < 2 ^ 64"
    and clk: "rds 0 = (now, clk, clk')" "unat clk \<le> N" "unat clk' \<le> N"
    and r: "store_incr env rds ns key d s = (Inr y, s')" and V: "\<And>n. incr_value (map_option kv_value (look B ns key now)) d = Inr n \<Longrightarrow> i64_to_string n \<in> V"
  shows "\<exists>B' q. incr_value (map_option kv_value (look B ns key now)) d = Inr y \<and> store_rel env V (N + 2) B' s' \<and>
    wrote env ns key (i64_to_string y) (Option.bind (look B ns key now) kv_ttl) None q ((purge ns key now B) ns) B B'"
proof -
  have m: "map rds [0..<64] = (now, clk, clk') # map rds [1..<64]" by (simp add: upt_conv_Cons clk(1))
  from r[unfolded store_incr_def m] obtain s0 yo s1 where e: "ensure_ns env ns s = (Inr (), s0)" "incr_attempt env now clk clk' ns key d s0 = (Inr yo, s1)"
    and k: "(case yo of Some new_val \<Rightarrow> sret new_val | None \<Rightarrow> incr_loop env (map rds [1..<64]) ns key d) s1 = (Inr y, s')"
    by (auto simp: sbind_Inr simp del: upt_Suc upt_rec_numeral One_nat_def)
  note en = ensure_ns_store[OF rel(1) e(1)]
  obtain n B' q where "yo = Some n" "incr_value (map_option kv_value (look B ns key now)) d = Inr n" "store_rel env V (N + 2) B' s1"
    "wrote env ns key (i64_to_string n) (Option.bind (look B ns key now) kv_ttl) None q ((purge ns key now B) ns) B B'"
    using incr_attempt_rel[OF env en(1) rel(2) en(2) clk(2,3) e(2) V] by blast
  then show ?thesis using k by (simp, blast)
qed

end
