(* ===== verification/Store_Bulk.thy ===== *)
theory Store_Bulk
  imports Store_Writes
begin

text \<open>
  The operations on several keys and on whole namespaces, and the maintenance of a shard. Deleting reports
  how many of the keys were there; flushing empties one namespace; reclaiming, syncing, sweeping the cache
  and an aborted shutdown change nothing a client can read.
\<close>

section \<open>Deleting several keys\<close>

fun hits :: "bytes list \<Rightarrow> kv_map \<Rightarrow> bool list" where
  "hits [] A = []"
| "hits (k # ks) A = (A k \<noteq> None) # hits ks (A(k := None))"

definition without :: "bytes set \<Rightarrow> kv_map \<Rightarrow> kv_map" where
  "without K A = (\<lambda>k. if k \<in> K then None else A k)"

lemma count_hits:
  "length (filter (\<lambda>(k, h, e). h \<and> \<not> e) (zip ks (zip (hits ks A) (map ex ks)))) = card {k \<in> set ks. A k \<noteq> None \<and> \<not> ex k}"
proof (induction ks arbitrary: A)
  case (Cons k ks)
  let ?S = "{k' \<in> set ks. (A(k := None)) k' \<noteq> None \<and> \<not> ex k'}"
  have "{k' \<in> set (k # ks). A k' \<noteq> None \<and> \<not> ex k'} = (if A k \<noteq> None \<and> \<not> ex k then insert k ?S else ?S)" by auto
  moreover have "finite ?S" "k \<notin> ?S" by auto
  ultimately show ?case using Cons.IH[of "A(k := None)"] by (auto simp del: fun_upd_apply)
qed simp

definition hit_reply :: "u64 option eresult \<Rightarrow> bool" where
  "hit_reply r \<longleftrightarrow> (case r of Inr (Some q) \<Rightarrow> True | _ \<Rightarrow> False)"

lemma tombstones_rel:
  assumes "run_all (\<lambda>i key. tombstone w (clks i) key) i ks l = (rs, l')" "\<forall>r\<in>set rs. \<not> isl r"
    and "log_rel w A l" "log_fit w V N l" "N + length ks < 2 ^ 64" "\<And>i. unat (clks i) \<le> N"
  shows "log_rel w (without (set ks) A) l' \<and> log_fit w V (N + length ks) l' \<and> map hit_reply rs = hits ks A"
  using assms
proof (induction ks arbitrary: i l rs A N)
  case (Cons k ks)
  from Cons.prems(1) obtain r l1 rs1 where r: "tombstone w (clks i) k l = (r, l1)" "rs = r # rs1"
    "run_all (\<lambda>i key. tombstone w (clks i) key) (i + 1) ks l1 = (rs1, l')"
    by (auto simp: Let_def split: prod.splits)
  obtain q where q: "r = Inr q" using Cons.prems(2) r(2) by (cases r) auto
  have st: "log_step w (LDel (clks i) k) l = (Inr q, l1)" using r(1) q by simp
  have b: "N + 1 < 2 ^ 64" "unat (clock_of (LDel (clks i) k)) \<le> N" "set (values_of (LDel (clks i) k)) \<subseteq> V"
    using Cons.prems(5,6) by auto
  have "log_rel w (A(k := None)) l1 \<and> log_fit w V (N + 1) l1 \<and> hit_reply r = (A k \<noteq> None)"
  proof (cases q)
    case None
    note f = lg.refused[OF Cons.prems(3,4) b st[unfolded None]]
    have "A k = None" using f(3) by (simp split: if_splits)
    then show ?thesis using f(1,2) None q by (simp add: hit_reply_def fun_upd_idem)
  next
    case (Some p)
    from lg.took[OF Cons.prems(3,4) b st[unfolded Some]] obtain A' where
      "effect (LDel (clks i) k) p A = Some A'" "log_rel w A' l1" "log_fit w V (N + 1) l1" by blast
    then show ?thesis using Some q by (auto simp: hit_reply_def spec_del_def split: if_splits)
  qed
  then have one: "log_rel w (A(k := None)) l1" "log_fit w V (N + 1) l1" "hit_reply r = (A k \<noteq> None)" by auto
  have c: "unat (clks i) \<le> N + 1" for i using Cons.prems(6)[of i] by simp
  have w: "without (set (k # ks)) A = without (set ks) (A(k := None))" by (auto simp: without_def)
  have "\<forall>r\<in>set rs1. \<not> isl r" "N + 1 + length ks < 2 ^ 64" using Cons.prems(2,5) r(2) by auto
  from Cons.IH[OF r(3) this(1) one(1,2) this(2) c] have ih: "log_rel w (without (set ks) (A(k := None))) l'"
    "log_fit w V (N + 1 + length ks) l'" "map hit_reply rs1 = hits ks (A(k := None))" by blast+
  have n: "N + length (k # ks) = N + 1 + length ks" by simp
  show ?case unfolding w n r(2) list.map hits.simps one(3) using ih by blast
qed (auto simp: without_def)

lemma count_deleted_Inr:
  assumes "count_deleted env ns (zip ks (zip rs ex)) n s = (Inr y, s')" "length rs = length ks" "length ex = length ks"
  shows "keeps s s' \<and> (\<forall>r\<in>set rs. \<not> isl r) \<and>
    y = n + length (filter (\<lambda>(k, h, e). h \<and> \<not> e) (zip ks (zip (map hit_reply rs) ex)))"
  using assms
proof (induction ks arbitrary: rs ex n s)
  case (Cons k ks)
  obtain r rs1 e ex1 where x: "rs = r # rs1" "ex = e # ex1" "length rs1 = length ks" "length ex1 = length ks"
    using Cons.prems(2,3) by (cases rs; cases ex) auto
  from Cons.prems(1) obtain q where q: "r = Inr q" by (auto simp: x sbind_Inr)
  show ?case
  proof (cases "q \<noteq> None \<and> \<not> e")
    case True
    then obtain q' s1 where s1: "q = Some q'" "publish_del env ns k q' s = (Inr (), s1)"
      "count_deleted env ns (zip ks (zip rs1 ex1)) (n + 1) s1 = (Inr y, s')"
      using Cons.prems(1) by (auto simp: x q sbind_Inr)
    have "keeps s s1" using s1(2) by (auto simp: publish_del_def intro: quiet_actions)
    then show ?thesis using Cons.IH[OF s1(3) x(3,4)] True s1(1) by (auto simp: x q hit_reply_def keeps_def)
  next
    case False
    then have "count_deleted env ns (zip ks (zip rs1 ex1)) n s = (Inr y, s')"
      using Cons.prems(1) by (auto simp: x q sbind_Inr split: option.splits if_splits)
    from Cons.IH[OF this x(3,4)] show ?thesis using False by (auto simp: x q hit_reply_def split: option.splits)
  qed
qed auto

lemma run_all_length: "run_all f i xs l = (rs, l') \<Longrightarrow> length rs = length xs"
  by (induction xs arbitrary: i l rs) (auto simp: Let_def split: prod.splits)

lemma drop_each:
  assumes "csound (ss_cache s) (view env B)" "is_valid_ns_name ns" "seach (cache_drop ns) ks s = (Inr u, s')"
  shows "csound (ss_cache s') (view env (B(ns := without (set ks) (B ns)))) \<and> ss_namespaces s' = ss_namespaces s \<and>
    ss_disk s' = ss_disk s \<and> ss_config s' = ss_config s"
  using assms
proof (induction ks arbitrary: s B)
  case Nil
  then show ?case by (simp add: without_def)
next
  case (Cons k ks)
  let ?s = "s\<lparr>ss_cache := cache_remove (cache_key ns k) (ss_cache s)\<rparr>" and ?B = "put_key ns k None B"
  have "cache_drop ns k s = (Inr (), ?s)" by (simp add: cache_drop_def on_cache_def)
  then have k: "seach (cache_drop ns) ks ?s = (Inr u, s')" using Cons.prems(3) by (auto simp: sbind_Inr)
  have "csound (ss_cache ?s) (view env ?B)"
    using mc.rem_sound[OF Cons.prems(1)] by (simp add: put_key_def view_upd[OF Cons.prems(2)])
  from Cons.IH[OF this Cons.prems(2) k]
  have "csound (ss_cache s') (view env (?B(ns := without (set ks) (?B ns))))" "ss_namespaces s' = ss_namespaces ?s"
    "ss_disk s' = ss_disk ?s" "ss_config s' = ss_config ?s" by blast+
  moreover have "?B(ns := without (set ks) (?B ns)) = B(ns := without (set (k # ks)) (B ns))"
    by (intro ext) (simp add: put_key_def without_def)
  ultimately show ?case by (simp add: fun_upd_def)
qed

lemma tombstone_all_Inr:
  "tombstone_all clks ks w l = (Inr rs, l') \<longleftrightarrow> run_all (\<lambda>i key. tombstone w (clks i) key) 0 ks l = (rs, l')"
  by (auto simp: tombstone_all_def Let_def split: prod.splits)

lemma store_del_rel:
  assumes rel: "store_rel env V N B s" "N + length ks < 2 ^ 64" "\<And>i. unat (clks i) \<le> N"
    and r: "store_del env now clks ns ks s = (Inr y, s')"
  shows "store_rel env V (N + length ks) (B(ns := without (set ks) (B ns))) s' \<and>
    y = card {k \<in> set ks. look B ns k now \<noteq> None}"
proof -
  from r obtain s0 l rs l' s2 where e: "ensure_ns env ns s = (Inr (), s0)" "om_lookup (ss_namespaces s0) ns = Some l"
    "run_all (\<lambda>i key. tombstone (se_world env ns) (clks i) key) 0 ks l = (rs, l')"
    "seach (cache_drop ns) ks (set_log ns l' s0) = (Inr (), s2)"
    "count_deleted env ns (zip ks (zip rs (map (\<lambda>k. is_expired (nl_index l) k now) ks))) 0 s2 = (Inr y, s')"
    by (auto simp: store_del_def sbind_Inr log_view_Inr on_log_Inr tombstone_all_Inr)
  note en = ensure_ns_store[OF rel(1) e(1)]
  have lr: "logs_rel env V N B s0" "csound (ss_cache s0) (view env B)" using en(1) by (simp_all add: store_rel_def)
  note lo = logs_rel_open[OF lr(1) en(2) e(2)]
  note c = count_deleted_Inr[OF e(5) run_all_length[OF e(3)]]
  have t: "log_rel (se_world env ns) (without (set ks) (B ns)) l'" "log_fit (se_world env ns) V (N + length ks) l'"
      "map hit_reply rs = hits ks (B ns)"
    using tombstones_rel[OF e(3) _ _ _ rel(2,3)] lo c by auto
  have "csound (ss_cache (set_log ns l' s0)) (view env B)" using lr(2) by simp
  note d = drop_each[OF this en(2) e(4)]
  have "logs_rel env V (N + length ks) (B(ns := without (set ks) (B ns))) s2"
    using logs_rel_set_log[OF lr(1) _ t(1,2)] logs_rel_cong[of s2 "set_log ns l' s0"] d by simp
  then have "store_rel env V (N + length ks) (B(ns := without (set ks) (B ns))) s2" using d by (simp add: store_rel_def)
  moreover have "B ns k \<noteq> None \<and> \<not> is_expired (nl_index l) k now \<longleftrightarrow> look B ns k now \<noteq> None" for k
    using live_here(1)[OF en e(2), of k now] log_rel_None[of "se_world env ns" "B ns" l k] lo by auto
  ultimately show ?thesis using c t(3) count_hits[of ks "B ns" "\<lambda>k. is_expired (nl_index l) k now"] store_rel_keeps by auto
qed

lemma store_exists_rel:
  assumes rel: "store_rel env V N B s" and r: "store_exists env now ns ks s = (Inr y, s')"
  shows "store_rel env V N B s' \<and> y = length (filter (\<lambda>k. look B ns k now \<noteq> None) ks)"
proof -
  from r obtain l where e: "ensure_ns env ns s = (Inr (), s')" "om_lookup (ss_namespaces s') ns = Some l"
    "y = length (filter (\<lambda>k. ix_get (nl_index l) k \<noteq> None \<and> \<not> is_expired (nl_index l) k now) ks)"
    by (auto simp: store_exists_def sbind_Inr log_view_Inr)
  note en = ensure_ns_store[OF rel e(1)]
  show ?thesis using en(1) e(3) unfolding live_here(1)[OF en e(2)] by simp
qed

lemma db_size_rel:
  assumes rel: "store_rel env V N B s" and r: "db_size env ns s = (Inr y, s')"
  shows "store_rel env V N B s' \<and> y = card (dom (B ns))"
proof -
  from r obtain l where e: "ensure_ns env ns s = (Inr (), s')" "om_lookup (ss_namespaces s') ns = Some l"
    "y = ix_live_count (nl_index l)" by (auto simp: db_size_def sbind_Inr log_view_Inr)
  note en = ensure_ns_store[OF rel e(1)]
  have lo: "log_rel (se_world env ns) (B ns) l" using en(1) logs_rel_open[OF _ en(2) e(2)] by (auto simp: store_rel_def)
  have "dom (B ns) = set (om_keys (ix_map (nl_index l)))"
    using log_rel_None[OF lo] by (auto simp: ix_get_def set_om_keys)
  moreover have "ix_inv (nl_index l)" using lo by (simp add: log_rel_def log_inv_def)
  ultimately show ?thesis using en(1) e(3) using distinct_card[OF distinct_om_keys, of "ix_map (nl_index l)"]
    by (simp add: ix_inv_def om_size_def om_keys_def)
qed

section \<open>Flushing\<close>

lemma clear_values_rel:
  assumes "log_rel w (\<lambda>k. None) l" "log_fit w V N l"
  shows "log_rel w (\<lambda>k. None) (with_values (vs_clear keep) l)" "log_fit w V N (with_values (vs_clear keep) l)"
proof -
  have g: "ix_get (nl_index l) k = None" for k using log_rel_None[OF assms(1), of k] by simp
  have v: "valsep (nl_index l) k = None" for k using assms(1) g[of k] by (auto simp: log_rel_def log_inv_def)
  have "log_inv w (with_values (vs_clear keep) l)"
    using assms(1) v by (auto simp: log_rel_def log_inv_def with_values_def vs_clear_def vs_inv_def vs_pos_def refcount_def nrefs_def)
  then show "log_rel w (\<lambda>k. None) (with_values (vs_clear keep) l)" using g by (auto simp: log_rel_def with_values_def)
  show "log_fit w V N (with_values (vs_clear keep) l)"
    using assms(2) by (auto simp: log_fit_def with_values_def vs_clear_def split: option.splits if_splits)
qed

lemma view_flush:
  assumes "is_valid_ns_name ns" "take (length (ns @ [0])) ck \<noteq> ns @ [0]"
  shows "view env (B(ns := A)) ck = view env B ck"
proof -
  have "ns_of ck \<noteq> ns" if "0 \<in> set ck"
  proof
    assume "ns_of ck = ns"
    then have "ck = ns @ [0] @ key_of ck" using join_cache_key[OF that] by (simp add: cache_key_def)
    then show False using assms(2) by (metis append.assoc append_eq_conv_conj)
  qed
  then show ?thesis by (simp add: view_def)
qed

lemma publish_each:
  "seach (\<lambda>key. publish_del env ns key q) ks s = (Inr u, s') \<Longrightarrow> keeps s s'"
proof (induction ks arbitrary: s)
  case (Cons k ks)
  then obtain s1 where "publish_del env ns k q s = (Inr (), s1)" "keeps s1 s'" by (auto simp: sbind_Inr)
  moreover from this(1) have "keeps s s1" by (auto simp: publish_del_def intro: quiet_actions)
  ultimately show ?case by (simp add: keeps_def)
qed simp

lemma flush_db_rel:
  assumes rel: "store_rel env V N B s" "N + 1 < 2 ^ 64" "unat clk \<le> N"
    and r: "flush_db env now clk ns s = (Inr u, s')"
  shows "store_rel env V (N + 1) (B(ns := \<lambda>k. None)) s'"
proof -
  let ?B = "B(ns := \<lambda>k. None)" and ?c = "remove_by_prefix (ns @ [0])"
  from r obtain s0 s1 l q l1 ks where e: "ensure_ns env ns s = (Inr (), s0)" "s1 = s0\<lparr>ss_cache := ?c (ss_cache s0)\<rparr>"
    "om_lookup (ss_namespaces s1) ns = Some l" "flush (se_world env ns) clk l = (Inr q, l1)"
    "seach (\<lambda>key. publish_del env ns key q) ks
       (set_log ns (with_values (vs_clear (\<lambda>h. \<not> w_blob_rm (se_world env ns) h)) l1) (set_log ns l1 s1)) = (Inr u, s')"
    by (auto simp: flush_db_def sbind_Inr log_view_Inr on_log_Inr on_cache_def set_log_def)
  note en = ensure_ns_store[OF rel(1) e(1)]
  have lr: "logs_rel env V N B s1" using en(1) logs_rel_cong[of s1 s0] by (simp add: store_rel_def e(2))
  have st: "log_step (se_world env ns) (LFlush clk) l = (Inr (Some q), l1)" using e(4) by (simp add: replied_def)
  have f: "logs_rel env V (N + 1) ?B (set_log ns l1 s1)"
    using log_call_took[OF lr rel(2) en(2) e(3) st] rel(3) by auto
  have l1: "om_lookup (ss_namespaces (set_log ns l1 s1)) ns = Some l1" by (simp add: set_log_def)
  have "log_rel (se_world env ns) (\<lambda>k. None) l1 \<and> log_fit (se_world env ns) V (N + 1) l1"
    using logs_rel_open[OF f en(2) l1] by simp
  then have "logs_rel env V (N + 1) (?B(ns := \<lambda>k. None))
      (set_log ns (with_values (vs_clear (\<lambda>h. \<not> w_blob_rm (se_world env ns) h)) l1) (set_log ns l1 s1))"
    by (intro logs_rel_set_log[OF f order_refl] clear_values_rel) auto
  moreover have "csound (?c (ss_cache s0)) (view env ?B)"
    by (rule csound_prefix[where M = "view env B"]) (use en(1) view_flush[OF en(2)] in \<open>simp_all add: store_rel_def\<close>)
  ultimately have "store_rel env V (N + 1) ?B
      (set_log ns (with_values (vs_clear (\<lambda>h. \<not> w_blob_rm (se_world env ns) h)) l1) (set_log ns l1 s1))"
    by (simp add: store_rel_def e(2))
  then show ?thesis using publish_each[OF e(5)] store_rel_keeps by blast
qed

section \<open>Maintenance\<close>

lemma sweep_cache_rel: "store_rel env V N B s \<Longrightarrow> sweep_cache now s = (Inr y, s') \<Longrightarrow> store_rel env V N B s'"
  using csound_sweep[of "ss_cache s" "view env B" now] logs_rel_cong[of s' s env V N B]
  by (auto simp: store_rel_def sweep_cache_def split: prod.splits)

definition harmless :: "('j, 's) store_env \<Rightarrow> (world \<Rightarrow> ns_log \<Rightarrow> 'a eresult \<times> ns_log) \<Rightarrow> bool" where
  "harmless env f \<longleftrightarrow> (\<forall>ns A V N l x l'. log_rel (se_world env ns) A l \<longrightarrow> log_fit (se_world env ns) V N l \<longrightarrow> N + 1 < 2 ^ 64 \<longrightarrow>
     f (se_world env ns) l = (Inr x, l') \<longrightarrow> log_rel (se_world env ns) A l' \<and> log_fit (se_world env ns) V (N + 1) l')"

lemma maintenance_harmless:
  "harmless env sync_log" "harmless env reclaim" "harmless env seal_active_for_shutdown" "harmless env reopen_active_after_seal"
proof -
  have "log_rel w A l' \<and> log_fit w V (N + 1) l'"
    if "log_rel w A l" "log_fit w V N l" "N + 1 < 2 ^ 64" "maintenance c" "log_step w c l = (Inr None, l')" for w A l V N c l'
    using lg.refused[OF that(1-3) _ _ that(5)] that(4) by (cases c) auto
  note m = this
  show "harmless env sync_log" unfolding harmless_def by (intro allI impI m[where c = LSync]) (auto simp: replied_def)
  show "harmless env reclaim" unfolding harmless_def by (intro allI impI m[where c = LReclaim]) (auto simp: replied_def)
  show "harmless env seal_active_for_shutdown" unfolding harmless_def by (intro allI impI m[where c = LSeal]) (auto simp: replied_def)
  show "harmless env reopen_active_after_seal" unfolding harmless_def by (intro allI impI m[where c = LReopen]) (auto simp: replied_def)
qed

lemma freeze_harmless: "harmless env freeze_and_drain" "harmless env unfreeze"
  unfolding harmless_def freeze_and_drain_def unfreeze_def
  by (auto simp: log_fit_def log_rel_flags)

definition each_log ::
  "('j, 's) store_env \<Rightarrow> (bytes \<Rightarrow> ns_log \<Rightarrow> bool) \<Rightarrow> (world \<Rightarrow> ns_log \<Rightarrow> 'a eresult \<times> ns_log) \<Rightarrow> bytes \<times> ns_log \<Rightarrow>
     'a eresult list \<times> (bytes, ns_log) omap \<Rightarrow> 'a eresult list \<times> (bytes, ns_log) omap" where
  "each_log env P f = (\<lambda>(ns, l) (rs, m).
     if P ns l then let (r, l') = f (se_world env ns) l in (rs @ [r], om_insert ns l' m) else (rs, m))"

definition logs_as :: "('j, 's) store_env \<Rightarrow> bytes set \<Rightarrow> nat \<Rightarrow> keyspace \<Rightarrow> (bytes, ns_log) omap \<Rightarrow> (bytes, ns_log) omap \<Rightarrow> bool" where
  "logs_as env V N B m0 m \<longleftrightarrow> (\<forall>ns. om_lookup m ns = None \<longleftrightarrow> om_lookup m0 ns = None) \<and>
    (\<forall>ns l. is_valid_ns_name ns \<longrightarrow> om_lookup m ns = Some l \<longrightarrow> log_rel (se_world env ns) (B ns) l \<and> log_fit (se_world env ns) V N l)"

lemma all_logs_fold:
  "all_logs env P f s = (Inr rs, s') \<longleftrightarrow>
   (\<exists>m. fold (each_log env P f) (entries (ss_namespaces s)) ([], ss_namespaces s) = (rs, m) \<and> s' = s\<lparr>ss_namespaces := m\<rparr>)"
  by (simp add: all_logs_def each_log_def Let_def split: prod.split) auto

lemma each_log_results: "fold (each_log env P f) xs (rs, m) = (rs', m') \<Longrightarrow> set rs \<subseteq> set rs'"
  by (induction xs arbitrary: rs m) (fastforce simp: each_log_def Let_def split: prod.splits if_splits)+

lemma each_log_rel:
  assumes "fold (each_log env P f) xs (rs, m) = (rs', m')" "\<forall>r\<in>set rs'. \<not> isl r" "logs_as env V (N + 1) B m0 m"
    and "set xs \<subseteq> set (entries m0)" "logs_as env V N B m0 m0" "N + 1 < 2 ^ 64" "harmless env f"
  shows "logs_as env V (N + 1) B m0 m'"
  using assms(1-4)
proof (induction xs arbitrary: rs m)
  case (Cons p xs)
  obtain ns l where p: "p = (ns, l)" by force
  have l: "om_lookup m0 ns = Some l" using Cons.prems(4) by (simp add: p in_entries_iff)
  show ?case
  proof (cases "P ns l")
    case False
    then show ?thesis using Cons.IH[of rs m] Cons.prems by (simp add: p each_log_def)
  next
    case True
    obtain r l' where fl: "f (se_world env ns) l = (r, l')" by force
    have fo: "fold (each_log env P f) xs (rs @ [r], om_insert ns l' m) = (rs', m')"
      using Cons.prems(1) True by (simp add: p fl each_log_def)
    obtain x where x: "r = Inr x" using each_log_results[OF fo] Cons.prems(2) by (cases r) auto
    have "log_rel (se_world env ns) (B ns) l' \<and> log_fit (se_world env ns) V (N + 1) l'" if "is_valid_ns_name ns"
      using assms(5-7) that l fl x unfolding harmless_def logs_as_def by blast
    then have "logs_as env V (N + 1) B m0 (om_insert ns l' m)" using Cons.prems(3) l by (auto simp: logs_as_def)
    then show ?thesis using Cons.IH[OF fo Cons.prems(2)] Cons.prems(4) by auto
  qed
qed simp

lemma logs_as_rel:
  "logs_rel env V N B s \<Longrightarrow> logs_as env V N B (ss_namespaces s) (ss_namespaces s)"
  "logs_rel env V N B s \<Longrightarrow> N \<le> M \<Longrightarrow> logs_as env V M B (ss_namespaces s) m \<Longrightarrow> logs_rel env V M B (s\<lparr>ss_namespaces := m\<rparr>)"
proof -
  show "logs_rel env V N B s \<Longrightarrow> logs_as env V N B (ss_namespaces s) (ss_namespaces s)"
    using logs_rel_open[of env V N B s] by (auto simp: logs_as_def)
  assume a: "logs_rel env V N B s" "N \<le> M" "logs_as env V M B (ss_namespaces s) m"
  have "on_disk_as env V M s ns (B ns)" if "is_valid_ns_name ns" "om_lookup m ns = None" for ns
    using logs_rel_mono[OF a(1,2)] that a(3) unfolding logs_rel_def logs_as_def by (metis option.simps(4))
  then show "logs_rel env V M B (s\<lparr>ss_namespaces := m\<rparr>)"
    using a(3) on_disk_cong[of "s\<lparr>ss_namespaces := m\<rparr>" s env V M]
    by (auto simp: logs_rel_def logs_as_def split: option.split)
qed

lemma all_logs_rel:
  assumes rel: "store_rel env V N B s" "N + 1 < 2 ^ 64" and f: "harmless env f"
    and r: "all_logs env P f s = (Inr rs, s')" and good: "\<forall>r\<in>set rs. \<not> isl r"
  shows "store_rel env V (N + 1) B s'"
proof -
  from r obtain m where m: "fold (each_log env P f) (entries (ss_namespaces s)) ([], ss_namespaces s) = (rs, m)"
    "s' = s\<lparr>ss_namespaces := m\<rparr>"
    by (auto simp: all_logs_fold)
  have lr: "logs_rel env V N B s" "csound (ss_cache s) (view env B)" using rel(1) by (simp_all add: store_rel_def)
  have a: "logs_as env V N B (ss_namespaces s) (ss_namespaces s)" "logs_as env V (N + 1) B (ss_namespaces s) (ss_namespaces s)"
    using logs_as_rel(1)[OF lr(1)] logs_as_rel(1)[OF logs_rel_mono[OF lr(1)], of "N + 1"] by simp_all
  show ?thesis using logs_as_rel(2)[OF lr(1) _ each_log_rel[OF m(1) good a(2) order_refl a(1) rel(2) f]] lr(2)
    by (simp add: store_rel_def m(2))
qed

lemma first_error_ok: "first_error rs = Inr u \<Longrightarrow> \<forall>r\<in>set rs. \<not> isl r"
  by (induction rs rule: first_error.induct) auto

lemma sum_reports_ok: "sum_reports rs sm = Inr y \<Longrightarrow> \<forall>r\<in>set rs. \<not> isl r"
  by (induction rs sm rule: sum_reports.induct) auto

lemma each_log_total:
  assumes "fold (each_log env P f) xs (rs, m) = (rs', m')" "\<forall>r\<in>set rs. \<not> isl r" "\<And>w l. \<not> isl (fst (f w l))"
  shows "\<forall>r\<in>set rs'. \<not> isl r"
  using assms(1,2)
proof (induction xs arbitrary: rs m)
  case (Cons p xs)
  obtain rs1 m1 where p: "each_log env P f p (rs, m) = (rs1, m1)" by force
  have "\<forall>r\<in>set rs1. \<not> isl r"
    using p Cons.prems(2) assms(3)[of "se_world env (fst p)" "snd p"] by (force simp: each_log_def split: prod.splits if_splits)
  then show ?case using Cons.IH[of rs1 m1] Cons.prems(1) p by simp
qed simp

lemma quiet_results: "all_logs env P freeze_and_drain s = (Inr rs, s') \<Longrightarrow> \<forall>r\<in>set rs. \<not> isl r"
    "all_logs env P unfreeze s = (Inr rs, s') \<Longrightarrow> \<forall>r\<in>set rs. \<not> isl r"
  unfolding all_logs_fold by (elim exE conjE, erule each_log_total; simp add: freeze_and_drain_def unfreeze_def)+

lemma maintenance_keeps:
  assumes rel: "store_rel env V N B s" "N + 2 < 2 ^ 64"
  shows "sync_logs env s = (Inr u, s') \<Longrightarrow> store_rel env V (N + 2) B s'"
    "reclaim_if_needed env thr s = (Inr y, s') \<Longrightarrow> store_rel env V (N + 2) B s'"
    "seal_all_for_shutdown env s = (Inr u, s') \<Longrightarrow> store_rel env V (N + 2) B s'"
    "resume_after_abort env s = (Inr u, s') \<Longrightarrow> store_rel env V (N + 2) B s'"
    "store_reclaim env ns s = (Inr u, s') \<Longrightarrow> store_rel env V (N + 2) B s'"
proof -
  have b: "N + 1 < 2 ^ 64" "N + 1 + 1 < 2 ^ 64" "N + 1 \<le> N + 2" using rel(2) by simp_all
  note mono = store_rel_mono[OF _ b(3)]
  note two = all_logs_rel[OF all_logs_rel[OF rel(1) b(1)] b(2)]
  show "store_rel env V (N + 2) B s'" if "sync_logs env s = (Inr u, s')"
  proof -
    from that obtain rs where "all_logs env (\<lambda>ns l. True) sync_log s = (Inr rs, s')" "first_error rs = Inr u"
      by (auto simp: sync_logs_def sbind_Inr)
    then show ?thesis by (intro mono all_logs_rel[OF rel(1) b(1) maintenance_harmless(1)] first_error_ok)
  qed
  show "store_rel env V (N + 2) B s'" if r: "reclaim_if_needed env thr s = (Inr y, s')"
  proof (cases "thr = 0")
    case True
    then show ?thesis using r store_rel_mono[OF rel(1), of "N + 2"] by (simp add: reclaim_if_needed_def Let_def)
  next
    case False
    then obtain rs sm where "all_logs env (\<lambda>ns l. om_size (nl_sealed l) > thr) reclaim s = (Inr rs, s')" "sum_reports rs sm = Inr y"
      using r by (auto simp: reclaim_if_needed_def Let_def sbind_Inr)
    then show ?thesis by (intro mono all_logs_rel[OF rel(1) b(1) maintenance_harmless(2)] sum_reports_ok)
  qed
  have n2: "N + 1 + 1 = N + 2" by simp
  show "store_rel env V (N + 2) B s'" if "seal_all_for_shutdown env s = (Inr u, s')"
  proof -
    from that obtain rs s1 rs' where a: "all_logs env (\<lambda>ns l. True) freeze_and_drain s = (Inr rs, s1)"
      "all_logs env (\<lambda>ns l. True) seal_active_for_shutdown s1 = (Inr rs', s')" "first_error rs' = Inr u"
      by (auto simp: seal_all_for_shutdown_def sbind_Inr)
    show ?thesis
      using two[OF freeze_harmless(1) a(1) quiet_results(1)[OF a(1)] maintenance_harmless(3) a(2) first_error_ok[OF a(3)]]
      by (simp only: n2)
  qed
  show "store_rel env V (N + 2) B s'" if "resume_after_abort env s = (Inr u, s')"
  proof -
    from that obtain rs s1 rs' where a: "all_logs env (\<lambda>ns l. True) reopen_active_after_seal s = (Inr rs, s1)"
      "all_logs env (\<lambda>ns l. True) unfreeze s1 = (Inr rs', s')" "first_error rs = Inr ()"
      by (auto simp: resume_after_abort_def sbind_Inr)
    show ?thesis
      using two[OF maintenance_harmless(4) a(1) first_error_ok[OF a(3)] freeze_harmless(2) a(2) quiet_results(2)[OF a(2)]]
      by (simp only: n2)
  qed
  show "store_reclaim env ns s = (Inr u, s') \<Longrightarrow> store_rel env V (N + 2) B s'"
  proof -
    assume "store_reclaim env ns s = (Inr u, s')"
    then obtain s0 l x l' where e: "ensure_ns env ns s = (Inr (), s0)" "om_lookup (ss_namespaces s0) ns = Some l"
      "reclaim (se_world env ns) l = (Inr x, l')" "s' = set_log ns l' s0"
      by (auto simp: store_reclaim_def sbind_Inr on_log_Inr)
    note en = ensure_ns_store[OF rel(1) e(1)]
    have lr: "logs_rel env V N B s0" "csound (ss_cache s0) (view env B)" using en(1) by (simp_all add: store_rel_def)
    have "log_step (se_world env ns) LReclaim l = (Inr None, l')" using e(3) by (simp add: replied_def)
    from log_call_refused(2)[OF lr(1) b(1) en(2) e(2) this] have "logs_rel env V (N + 1) B s'" by (simp add: e(4))
    then have "store_rel env V (N + 1) B s'" using lr(2) by (simp add: store_rel_def e(4))
    then show ?thesis by (rule mono)
  qed
qed

end
