(* ===== verification/Store_History.thy ===== *)
theory Store_History
  imports Store_Bulk
begin

text \<open>
  Histories of a shard: any sequence of the operations of \<^verbatim>\<open>ShardStore\<close>, with the maintenance that runs beside
  them, on a shard that was opened on an empty directory. \<open>store_spec\<close> says what each operation answers and
  does to the keyspace; the theorem says that the store does that. The clock readings of a step are its
  argument. A history here ends at the first error.
\<close>

section \<open>Operations and replies\<close>

datatype 'j key_op =
    KGet | KTtl | KPttl
  | KSet bytes "'j set_options" | KSetNx bytes "'j set_options" | KSetXx bytes "'j set_options"
  | KSetRev bytes "'j set_options" u64 | KDelRev u64
  | KExpire nat | KPersist | KGetEx getex_op | KGetSet bytes | KGetDel | KIncr i64

datatype 'j store_op =
    OpKey bytes bytes "'j key_op"
  | OpDel bytes "bytes list" | OpExists bytes "bytes list" | OpDbSize bytes | OpFlush bytes
  | OpReclaim bytes | OpReclaimIfNeeded nat | OpSync | OpSweep | OpSeal | OpResume

datatype 'j store_reply =
    REntry "'j entry option" | RTtl ttl_result | RUnit | RBool bool | RRev "u64 option" | RCount nat | RInt i64

record readings =
  rd_now :: u64
  rd_inst :: nat
  rd_clk :: "nat \<Rightarrow> u64"

definition answer :: "('a \<Rightarrow> 'b) \<Rightarrow> ('a, 'j, 's) action \<Rightarrow> ('b, 'j, 's) action" where
  "answer g m = sbind m (\<lambda>x. sret (g x))"

fun key_step :: "('j, 's) store_env \<Rightarrow> readings \<Rightarrow> bytes \<Rightarrow> bytes \<Rightarrow> 'j key_op \<Rightarrow> ('j store_reply, 'j, 's) action" where
  "key_step env rd ns key KGet = answer REntry (store_get env (rd_now rd) (rd_inst rd) (rd_clk rd 0) ns key)"
| "key_step env rd ns key KTtl = answer RTtl (store_ttl env (rd_now rd) (rd_clk rd 0) ns key)"
| "key_step env rd ns key KPttl = answer RTtl (store_pttl env (rd_now rd) (rd_clk rd 0) ns key)"
| "key_step env rd ns key (KSet v opts) = answer (\<lambda>u. RUnit) (store_set env (rd_now rd) (rd_clk rd 0) ns key v opts)"
| "key_step env rd ns key (KSetNx v opts) = answer RBool (store_setnx env (rd_now rd) (rd_clk rd 0) ns key v opts)"
| "key_step env rd ns key (KSetXx v opts) = answer RBool (store_setxx env (rd_now rd) (rd_clk rd 0) ns key v opts)"
| "key_step env rd ns key (KSetRev v opts e) = answer RRev (store_setrev env (rd_now rd) (rd_clk rd 0) ns key v opts e)"
| "key_step env rd ns key (KDelRev e) = answer (\<lambda>r. RBool (r \<noteq> None)) (store_delrev env (rd_now rd) (rd_clk rd 0) ns key e)"
| "key_step env rd ns key (KExpire d) = answer RBool (store_expire env (rd_now rd) (rd_inst rd) (rd_clk rd) ns key d)"
| "key_step env rd ns key KPersist = answer RBool (store_persist env (rd_now rd) (rd_inst rd) (rd_clk rd) ns key)"
| "key_step env rd ns key (KGetEx op) = answer REntry (store_getex env (rd_now rd) (rd_inst rd) (rd_clk rd) ns key (Some op))"
| "key_step env rd ns key (KGetSet v) = answer REntry (store_getset env (rd_now rd) (rd_inst rd) (rd_clk rd) ns key v)"
| "key_step env rd ns key KGetDel = answer REntry (store_getdel env (rd_now rd) (rd_inst rd) (rd_clk rd) ns key)"
| "key_step env rd ns key (KIncr d) =
     answer RInt (store_incr env (\<lambda>i. (rd_now rd, rd_clk rd (2 * i), rd_clk rd (2 * i + 1))) ns key d)"

fun store_step :: "('j, 's) store_env \<Rightarrow> readings \<Rightarrow> 'j store_op \<Rightarrow> ('j store_reply, 'j, 's) action" where
  "store_step env rd (OpKey ns key op) = key_step env rd ns key op"
| "store_step env rd (OpDel ns ks) = answer RCount (store_del env (rd_now rd) (rd_clk rd) ns ks)"
| "store_step env rd (OpExists ns ks) = answer RCount (store_exists env (rd_now rd) ns ks)"
| "store_step env rd (OpDbSize ns) = answer RCount (db_size env ns)"
| "store_step env rd (OpFlush ns) = answer (\<lambda>u. RUnit) (flush_db env (rd_now rd) (rd_clk rd 0) ns)"
| "store_step env rd (OpReclaim ns) = answer (\<lambda>u. RUnit) (store_reclaim env ns)"
| "store_step env rd (OpReclaimIfNeeded n) = answer (\<lambda>u. RUnit) (reclaim_if_needed env n)"
| "store_step env rd OpSync = answer (\<lambda>u. RUnit) (sync_logs env)"
| "store_step env rd OpSweep = answer (\<lambda>u. RUnit) (sweep_cache (rd_now rd))"
| "store_step env rd OpSeal = answer (\<lambda>u. RUnit) (seal_all_for_shutdown env)"
| "store_step env rd OpResume = answer (\<lambda>u. RUnit) (resume_after_abort env)"

fun store_run :: "('j, 's) store_env \<Rightarrow> (readings \<times> 'j store_op) list \<Rightarrow> ('j store_reply list, 'j, 's) action" where
  "store_run env [] = sret []"
| "store_run env ((rd, op) # ops) =
     sbind (store_step env rd op) (\<lambda>y. sbind (store_run env ops) (\<lambda>ys. sret (y # ys)))"

section \<open>Specification\<close>

definition in_seconds :: "ttl_result \<Rightarrow> ttl_result" where
  "in_seconds r = (case r of Remaining ms \<Rightarrow> Remaining (ms div 1000) | other \<Rightarrow> other)"

fun key_spec :: "('j, 's) store_env \<Rightarrow> u64 \<Rightarrow> nat \<Rightarrow> bytes \<Rightarrow> bytes \<Rightarrow> 'j key_op \<Rightarrow> keyspace \<Rightarrow> 'j store_reply \<Rightarrow> keyspace \<Rightarrow> bool" where
  "key_spec env now inst ns key KGet B y B' \<longleftrightarrow>
     y = REntry (shown env now inst (look B ns key now)) \<and> B' = purge ns key now B"
| "key_spec env now inst ns key KTtl B y B' \<longleftrightarrow>
     y = RTtl (in_seconds (ttl_reply now (look B ns key now))) \<and> B' = purge ns key now B"
| "key_spec env now inst ns key KPttl B y B' \<longleftrightarrow>
     y = RTtl (ttl_reply now (look B ns key now)) \<and> B' = purge ns key now B"
| "key_spec env now inst ns key (KSet v opts) B y B' \<longleftrightarrow>
     y = RUnit \<and> (\<exists>t q. gets_expiry B ns key opts now t \<and> wrote env ns key v t (so_metadata opts) q (B ns) B B')"
| "key_spec env now inst ns key (KSetNx v opts) B y B' \<longleftrightarrow>
     (if look B ns key now = None
      then y = RBool True \<and> (\<exists>t q. gets_expiry B ns key opts now t \<and> wrote env ns key v t (so_metadata opts) q (B ns) B B')
      else y = RBool False \<and> B' = B)"
| "key_spec env now inst ns key (KSetXx v opts) B y B' \<longleftrightarrow>
     (if look B ns key now \<noteq> None
      then y = RBool True \<and> (\<exists>t q. gets_expiry B ns key opts now t \<and> wrote env ns key v t (so_metadata opts) q (B ns) B B')
      else y = RBool False \<and> B' = B)"
| "key_spec env now inst ns key (KSetRev v opts e) B y B' \<longleftrightarrow>
     (if look_rev B ns key now = Some e
      then \<exists>t q. y = RRev (Some q) \<and> gets_expiry B ns key (opts\<lparr>so_keep_ttl := False\<rparr>) now t \<and>
        wrote env ns key v t (so_metadata opts) q (B ns) B B'
      else y = RRev None \<and> B' = B)"
| "key_spec env now inst ns key (KDelRev e) B y B' \<longleftrightarrow>
     (if look_rev B ns key now = Some e then y = RBool True \<and> B' = put_key ns key None B else y = RBool False \<and> B' = B)"
| "key_spec env now inst ns key (KExpire d) B y B' \<longleftrightarrow>
     (case look B ns key now of
        None \<Rightarrow> y = RBool False \<and> B' = B
      | Some x \<Rightarrow> y = RBool True \<and> unat now + d < 2 ^ 64 \<and> B' = put_key ns key (Some (x\<lparr>kv_ttl := Some (now + of_nat d)\<rparr>)) B)"
| "key_spec env now inst ns key KPersist B y B' \<longleftrightarrow>
     (case look B ns key now of
        None \<Rightarrow> y = RBool False \<and> B' = B
      | Some x \<Rightarrow> y = RBool (kv_ttl x \<noteq> None) \<and> B' = put_key ns key (Some (x\<lparr>kv_ttl := None\<rparr>)) B)"
| "key_spec env now inst ns key (KGetEx op) B y B' \<longleftrightarrow>
     y = REntry (shown env now inst (look B ns key now)) \<and>
     (case look B ns key now of
        None \<Rightarrow> B' = purge ns key now B
      | Some x \<Rightarrow> (\<exists>t. B' = put_key ns key (Some (x\<lparr>kv_ttl := t\<rparr>)) B \<and>
          (case op of GetExSetTtl d \<Rightarrow> unat now + d < 2 ^ 64 \<and> t = Some (now + of_nat d) | GetExPersist \<Rightarrow> t = None)))"
| "key_spec env now inst ns key (KGetSet v) B y B' \<longleftrightarrow>
     y = REntry (shown env now inst (look B ns key now)) \<and> (\<exists>q. wrote env ns key v None None q ((purge ns key now B) ns) B B')"
| "key_spec env now inst ns key KGetDel B y B' \<longleftrightarrow>
     y = REntry (shown env now inst (look B ns key now)) \<and> B' = put_key ns key None B"
| "key_spec env now inst ns key (KIncr d) B y B' \<longleftrightarrow>
     (\<exists>n q. y = RInt n \<and> incr_value (map_option kv_value (look B ns key now)) d = Inr n \<and>
        wrote env ns key (i64_to_string n) (Option.bind (look B ns key now) kv_ttl) None q ((purge ns key now B) ns) B B')"

fun store_spec :: "('j, 's) store_env \<Rightarrow> readings \<Rightarrow> 'j store_op \<Rightarrow> keyspace \<Rightarrow> 'j store_reply \<Rightarrow> keyspace \<Rightarrow> bool" where
  "store_spec env rd (OpKey ns key op) B y B' \<longleftrightarrow> key_spec env (rd_now rd) (rd_inst rd) ns key op B y B'"
| "store_spec env rd (OpDel ns ks) B y B' \<longleftrightarrow>
     y = RCount (card {k \<in> set ks. look B ns k (rd_now rd) \<noteq> None}) \<and> B' = B(ns := without (set ks) (B ns))"
| "store_spec env rd (OpExists ns ks) B y B' \<longleftrightarrow>
     y = RCount (length (filter (\<lambda>k. look B ns k (rd_now rd) \<noteq> None) ks)) \<and> B' = B"
| "store_spec env rd (OpDbSize ns) B y B' \<longleftrightarrow> y = RCount (card (dom (B ns))) \<and> B' = B"
| "store_spec env rd (OpFlush ns) B y B' \<longleftrightarrow> y = RUnit \<and> B' = B(ns := \<lambda>k. None)"
| "store_spec env rd op B y B' \<longleftrightarrow> y = RUnit \<and> B' = B"

fun store_spec_run :: "('j, 's) store_env \<Rightarrow> (readings \<times> 'j store_op) list \<Rightarrow> 'j store_reply list \<Rightarrow> keyspace \<Rightarrow> keyspace \<Rightarrow> bool" where
  "store_spec_run env [] ys B B' \<longleftrightarrow> ys = [] \<and> B' = B"
| "store_spec_run env ((rd, op) # ops) ys B B' \<longleftrightarrow>
     (\<exists>y ys' B1. ys = y # ys' \<and> store_spec env rd op B y B1 \<and> store_spec_run env ops ys' B1 B')"

section \<open>Refinement\<close>

fun written :: "'j store_op \<Rightarrow> bytes set" where
  "written (OpKey ns key (KSet v opts)) = {v}"
| "written (OpKey ns key (KSetNx v opts)) = {v}"
| "written (OpKey ns key (KSetXx v opts)) = {v}"
| "written (OpKey ns key (KSetRev v opts e)) = {v}"
| "written (OpKey ns key (KGetSet v)) = {v}"
| "written (OpKey ns key (KIncr d)) = range i64_to_string"
| "written op = {}"

fun cost :: "'j store_op \<Rightarrow> nat" where
  "cost (OpDel ns ks) = length ks"
| "cost op = 2"

lemma answer_Inr: "answer g m s = (Inr y, s') \<longleftrightarrow> (\<exists>x. m s = (Inr x, s') \<and> y = g x)"
  by (auto simp: answer_def sbind_Inr)

lemma key_step_refines:
  assumes env: "env_ok env" and rel: "store_rel env V N B s" "N + 2 < 2 ^ 64" "\<And>i. unat (rd_clk rd i) \<le> N"
    and v: "written (OpKey ns key op) \<subseteq> V" and r: "key_step env rd ns key op s = (Inr y, s')"
  shows "\<exists>B'. key_spec env (rd_now rd) (rd_inst rd) ns key op B y B' \<and> store_rel env V (N + 2) B' s'"
proof -
  have b: "N + 1 < 2 ^ 64" using rel(2) by simp
  have mono: "store_rel env V (N + 1) B' s' \<Longrightarrow> store_rel env V (N + 2) B' s'" for B' by (erule store_rel_mono) simp
  show ?thesis
  proof (cases op)
    case KGet
    then show ?thesis using store_get_rel[OF env rel(1) b rel(3)] mono r by (auto simp: answer_Inr)
  next
    case KTtl
    then show ?thesis using store_ttl_rel[OF rel(1) b rel(3)] mono r by (auto simp: answer_Inr in_seconds_def)
  next
    case KPttl
    then show ?thesis using store_pttl_rel[OF rel(1) b rel(3)] mono r by (auto simp: answer_Inr)
  next
    case (KSet v opts)
    then have z: "store_set env (rd_now rd) (rd_clk rd 0) ns key v opts s = (Inr (), s')" "y = RUnit" "v \<in> V"
      using r v by (auto simp: answer_Inr)
    from store_set_rel[OF env rel(1) b rel(3) z(3,1)] mono z(2) show ?thesis unfolding KSet key_spec.simps by blast
  next
    case (KSetNx v opts)
    then obtain z where z: "set_conditional env (rd_now rd) (rd_clk rd 0) ns key v opts False s = (Inr z, s')" "y = RBool z" "v \<in> V"
      using r v by (auto simp: answer_Inr store_setnx_def)
    from set_conditional_rel[OF env rel(1) b rel(3) z(3,1)] mono z(2) show ?thesis
      unfolding KSetNx key_spec.simps by (cases "look B ns key (rd_now rd)"; simp; blast)
  next
    case (KSetXx v opts)
    then obtain z where z: "set_conditional env (rd_now rd) (rd_clk rd 0) ns key v opts True s = (Inr z, s')" "y = RBool z" "v \<in> V"
      using r v by (auto simp: answer_Inr store_setxx_def)
    from set_conditional_rel[OF env rel(1) b rel(3) z(3,1)] mono z(2) show ?thesis
      unfolding KSetXx key_spec.simps by (cases "look B ns key (rd_now rd)"; simp; blast)
  next
    case (KSetRev v opts e)
    then obtain z where z: "store_setrev env (rd_now rd) (rd_clk rd 0) ns key v opts e s = (Inr z, s')" "y = RRev z" "v \<in> V"
      using r v by (auto simp: answer_Inr)
    from store_setrev_rel[OF env rel(1) b rel(3) z(3,1)] mono z(2) show ?thesis
      unfolding KSetRev key_spec.simps by (cases "look_rev B ns key (rd_now rd) = Some e"; simp; blast)
  next
    case (KDelRev e)
    then obtain z where z: "store_delrev env (rd_now rd) (rd_clk rd 0) ns key e s = (Inr z, s')" "y = RBool (z \<noteq> None)"
      using r by (auto simp: answer_Inr)
    show ?thesis using store_delrev_rel[OF rel(1) b rel(3) z(1)] mono z(2) KDelRev by (auto split: if_splits)
  next
    case (KExpire d)
    then obtain z where z: "store_expire env (rd_now rd) (rd_inst rd) (rd_clk rd) ns key d s = (Inr z, s')" "y = RBool z"
      using r by (auto simp: answer_Inr)
    show ?thesis using store_expire_rel[OF env rel(1,2,3) z(1)] z(2) KExpire by (auto split: option.splits)
  next
    case KPersist
    then obtain z where z: "store_persist env (rd_now rd) (rd_inst rd) (rd_clk rd) ns key s = (Inr z, s')" "y = RBool z"
      using r by (auto simp: answer_Inr)
    show ?thesis using store_persist_rel[OF env rel(1,2,3) z(1)] z(2) KPersist by (auto split: option.splits)
  next
    case (KGetEx op')
    then obtain z where z: "store_getex env (rd_now rd) (rd_inst rd) (rd_clk rd) ns key (Some op') s = (Inr z, s')" "y = REntry z"
      using r by (auto simp: answer_Inr)
    show ?thesis using store_getex_rel[OF env rel(1,2,3) z(1)] z(2) KGetEx by (auto split: option.splits)
  next
    case (KGetSet v)
    then obtain z where z: "store_getset env (rd_now rd) (rd_inst rd) (rd_clk rd) ns key v s = (Inr z, s')" "y = REntry z" "v \<in> V"
      using r v by (auto simp: answer_Inr)
    show ?thesis using store_getset_rel[OF env rel(1,2,3) z(3,1)] z(2) unfolding KGetSet key_spec.simps by blast
  next
    case KGetDel
    then show ?thesis using store_getdel_rel[OF env rel(1,2,3)] r by (auto simp: answer_Inr)
  next
    case (KIncr d)
    let ?rds = "\<lambda>i. (rd_now rd, rd_clk rd (2 * i), rd_clk rd (2 * i + 1))"
    obtain z where z: "store_incr env ?rds ns key d s = (Inr z, s')" "y = RInt z"
      using r KIncr by (auto simp: answer_Inr)
    have rd: "?rds 0 = (rd_now rd, rd_clk rd 0, rd_clk rd 1)" by simp
    have V: "i64_to_string n \<in> V" for n using v KIncr by auto
    show ?thesis using store_incr_rel[OF env rel(1,2) rd rel(3,3) z(1) V] z(2) unfolding KIncr key_spec.simps by blast
  qed
qed

lemma store_step_refines:
  assumes env: "env_ok env" and rel: "store_rel env V N B s" "N + cost op < 2 ^ 64" "\<And>i. unat (rd_clk rd i) \<le> N"
    and v: "written op \<subseteq> V" and r: "store_step env rd op s = (Inr y, s')"
  shows "\<exists>B'. store_spec env rd op B y B' \<and> store_rel env V (N + cost op) B' s'"
proof (cases op)
  case (OpKey ns key o1)
  then show ?thesis using key_step_refines[OF env rel(1) _ rel(3)] rel(2) v r by auto
next
  case (OpDel ns ks)
  then obtain z where z: "store_del env (rd_now rd) (rd_clk rd) ns ks s = (Inr z, s')" "y = RCount z" using r by (auto simp: answer_Inr)
  show ?thesis using store_del_rel[OF rel(1) _ rel(3) z(1)] rel(2) OpDel z(2) by auto
next
  case (OpExists ns ks)
  then show ?thesis using store_exists_rel[OF rel(1)] r store_rel_mono[of env V N B s' "N + 2"] by (auto simp: answer_Inr)
next
  case (OpDbSize ns)
  then show ?thesis using db_size_rel[OF rel(1)] r store_rel_mono[of env V N B s' "N + 2"] by (auto simp: answer_Inr)
next
  case (OpFlush ns)
  then show ?thesis using flush_db_rel[OF rel(1) _ rel(3)] rel(2) r store_rel_mono[of env V "N + 1" "B(ns := \<lambda>k. None)" s' "N + 2"]
    by (auto simp: answer_Inr)
next
  case OpSweep
  then show ?thesis using sweep_cache_rel[OF rel(1)] r store_rel_mono[of env V N B s' "N + 2"] by (auto simp: answer_Inr)
qed (use maintenance_keeps[OF rel(1)] rel(2) r in \<open>auto simp: answer_Inr\<close>)

definition ops_cost :: "(readings \<times> 'j store_op) list \<Rightarrow> nat" where
  "ops_cost ops = sum_list (map (cost \<circ> snd) ops)"

lemma store_run_refines:
  assumes env: "env_ok env" and rel: "store_rel env V N B s" "N + ops_cost ops < 2 ^ 64"
    and ok: "\<forall>(rd, op) \<in> set ops. (\<forall>i. unat (rd_clk rd i) \<le> N) \<and> written op \<subseteq> V" and r: "store_run env ops s = (Inr ys, s')"
  shows "\<exists>B'. store_spec_run env ops ys B B' \<and> store_rel env V (N + ops_cost ops) B' s'"
  using rel ok r
proof (induction ops arbitrary: N B s ys)
  case Nil
  then show ?case by (simp add: ops_cost_def)
next
  case (Cons p ops)
  obtain rd op where p: "p = (rd, op)" by force
  from Cons.prems(4) obtain y s1 ys' where y: "store_step env rd op s = (Inr y, s1)" "store_run env ops s1 = (Inr ys', s')" "ys = y # ys'"
    by (auto simp: p sbind_Inr)
  have c: "ops_cost (p # ops) = cost op + ops_cost ops" by (simp add: ops_cost_def p)
  obtain B1 where B1: "store_spec env rd op B y B1" "store_rel env V (N + cost op) B1 s1"
    using store_step_refines[OF env Cons.prems(1) _ _ _ y(1)] Cons.prems(2,3) c by (auto simp: p)
  have "\<forall>(rd, op') \<in> set ops. (\<forall>i. unat (rd_clk rd i) \<le> N + cost op) \<and> written op' \<subseteq> V"
    using Cons.prems(3) by (fastforce intro: trans_le_add1)
  from Cons.IH[OF B1(2) _ this y(2)] Cons.prems(2) c obtain B' where
    "store_spec_run env ops ys' B1 B'" "store_rel env V (N + (cost op + ops_cost ops)) B' s'" by (auto simp: add.assoc)
  then show ?case using B1(1) y(3) c by (auto simp: p)
qed

section \<open>A fresh shard\<close>

lemma open_empty_fit:
  assumes "open_log w cfg om_empty om_empty = (Inr st, dir)" "inj_on (content_hash (w_blake w)) V"
  shows "log_fit w V N st"
proof -
  have e: "om_keys (om_empty :: data_dir) = []" "entries (ix_valsep ix_new) = []"
    by (simp_all add: om_keys_def ix_new_def)
  have "nl_values st = snd (sweep_orphans (w_blob_list w) (w_blob_rm w) (vs_new om_empty))" "nl_last_tstamp st = max_tstamp ix_new"
    using assms(1) by (auto simp: open_log_def open_namespace_def open_rw_def e Let_def split: option.splits sum.splits)
  moreover have "max_tstamp ix_new = 0" by code_simp
  ultimately show ?thesis using assms(2) by (auto simp: log_fit_def sweep_orphans_def vs_new_def Let_def om_keys_def)
qed

lemma store_open_rel:
  assumes "store_open env fo thr listed mem om_empty = Inr s" "\<And>ns. inj_on (content_hash (w_blake (se_world env ns))) V"
  shows "store_rel env V N (\<lambda>ns k. None) s"
proof -
  obtain l cfg dir where l: "open_log (se_world env DEFAULT_NS) cfg om_empty om_empty = (Inr l, dir)" "ss_namespaces s = om_insert DEFAULT_NS l om_empty"
    "ss_disk s = om_empty" "ss_cache s = cache_new mem"
    using assms(1) by (auto simp: store_open_def open_disk_log_def Let_def rbind_eq_Inr split: if_splits)
      (metis eq_fst_iff)+
  have "on_disk_as env V N s ns (\<lambda>k. None)" for ns
    using open_empty_rel[of "se_world env ns" "ss_config s" om_empty] open_empty_fit[of "se_world env ns" "ss_config s", OF _ assms(2)]
    by (auto simp: on_disk_as_def l(3))
  then have "logs_rel env V N (\<lambda>ns k. None) s"
    using open_empty_rel[OF l(1)] open_empty_fit[OF l(1) assms(2)] by (auto simp: logs_rel_def l(2) split: option.split)
  moreover have "csound (cache_new mem) (view env (\<lambda>ns k. None))"
    by (simp add: csound_def sound_def) (simp add: cache_new_def)
  ultimately show ?thesis by (simp add: store_rel_def l(4))
qed

section \<open>A concrete shard\<close>

definition demo_env :: "(unit, nat) store_env" where
  "demo_env =
     \<lparr>se_world = (\<lambda>ns. demo_world), se_to_vec = (\<lambda>j. Some [1]), se_from_slice = (\<lambda>b. if b = [1] then Some () else None),
      se_is_closed = (\<lambda>s. False), se_channel = (\<lambda>i. i), se_try_send = (\<lambda>e s. Some s)\<rparr>"

definition demo_rd :: "u64 \<Rightarrow> readings" where
  "demo_rd t = \<lparr>rd_now = t, rd_inst = 0, rd_clk = (\<lambda>i. t)\<rparr>"

definition demo_opts :: "nat option \<Rightarrow> bool \<Rightarrow> unit set_options" where
  "demo_opts d keep = \<lparr>so_ttl = d, so_metadata = Some (), so_keep_ttl = keep\<rparr>"

definition demo_ops :: "(readings \<times> unit store_op) list" where
  "demo_ops =
     [(demo_rd 5, OpKey [97] [1] (KSet [55] (demo_opts (Some 10) False))),
      (demo_rd 6, OpKey [97] [1] KGet),
      (demo_rd 20, OpKey [97] [1] KGet),
      (demo_rd 21, OpKey [97] [1] (KSetNx [55] (demo_opts None False))),
      (demo_rd 23, OpDel [97] [[1], [2], [1]])]"

definition demo_shard :: "(unit, nat) shard_store" where
  "demo_shard = (case store_open demo_env None None True 1000 om_empty of Inr s \<Rightarrow> s)"

lemma demo_env_ok: "env_ok demo_env"
  by (auto simp: env_ok_def demo_env_def)

lemma demo_shard_open: "store_open demo_env None None True 1000 om_empty = Inr demo_shard"
proof -
  have "(case store_open demo_env None None True 1000 om_empty of Inl e \<Rightarrow> False | Inr s \<Rightarrow> True)" by code_simp
  then show ?thesis by (auto simp: demo_shard_def split: sum.splits)
qed

lemma demo_replies:
  "fst (store_run demo_env demo_ops demo_shard) =
     Inr [RUnit, REntry (Some \<lparr>ent_value = [55], ent_expires_at = Some 9, ent_metadata = Some (), ent_revision = 5\<rparr>), REntry None,
          RBool True, RCount 1]"
  by code_simp

section \<open>Properties\<close>

text \<open>
  C0. Every history of a shard opened on an empty directory, through the cache, the logs and the value store,
  is a history of plain maps: each operation (reads, conditional and unconditional writes, compare-and-set,
  expiry, GETEX, GETSET, GETDEL, INCR, DEL, EXISTS, DBSIZE, FLUSHDB) answers and changes its namespace as
  \<open>store_spec\<close> says, a write gets a later revision than every key of its namespace has, and reclaiming, syncing,
  sweeping, sealing and resuming change nothing. Needed are JSON metadata that reads back as it was written, a
  content hash without collisions among the values written, and clocks with room below \<open>2\<^sup>6\<^sup>4\<close>.
\<close>

theorem store_history_refines:
  assumes "env_ok env" "\<And>ns. inj_on (content_hash (w_blake (se_world env ns))) V"
    and "store_open env fanout_var threshold_var listed memory_bytes om_empty = Inr s"
    and "\<forall>(rd, op) \<in> set ops. (\<forall>i. unat (rd_clk rd i) \<le> N) \<and> written op \<subseteq> V" "N + ops_cost ops < 2 ^ 64"
    and "store_run env ops s = (Inr replies, s')"
  shows "\<exists>B. store_spec_run env ops replies (\<lambda>ns k. None) B"
  using store_run_refines[OF assms(1) store_open_rel[OF assms(3,2)] assms(5,4,6)] by blast

theorem store_history_refines_witness:
  "\<exists>B. store_spec_run demo_env demo_ops
     [RUnit, REntry (Some \<lparr>ent_value = [55], ent_expires_at = Some 9, ent_metadata = Some (), ent_revision = 5\<rparr>), REntry None,
      RBool True, RCount 1] (\<lambda>ns k. None) B"
proof -
  have "\<forall>(rd, op) \<in> set demo_ops. (\<forall>i. unat (rd_clk rd i) \<le> 23) \<and> written op \<subseteq> {[55]}" "23 + ops_cost demo_ops < 2 ^ 64"
    by (simp_all add: demo_ops_def demo_rd_def ops_cost_def)
  from store_history_refines[OF demo_env_ok _ demo_shard_open this] demo_replies
  show ?thesis by (simp add: prod_eq_iff)
qed

end
