(* ===== verification/Store_Defects.thy ===== *)
theory Store_Defects
  imports Store_History
begin

text \<open>
  Two behaviours of the shard store that lose or hide an acknowledged write: \<^verbatim>\<open>KEEPTTL\<close> on a key that has
  expired but has not been removed yet, and a read from disk that is overtaken by a write.
\<close>

text \<open>
  C0. A write with \<^verbatim>\<open>KEEPTTL\<close> at a key whose expiry has passed, but that no read has removed yet, is
  acknowledged and gets the expiry that has passed: the value is gone for the next read.
\<close>

theorem keepttl_write_is_lost:
  "fst (store_run demo_env
      [(demo_rd 5, OpKey [97] [1] (KSet [55] (demo_opts (Some 10) False))),
       (demo_rd 20, OpKey [97] [1] (KSet [56] (demo_opts None True))),
       (demo_rd 21, OpKey [97] [1] KGet)] demo_shard) = Inr [RUnit, RUnit, REntry None]"
  by code_simp

text \<open>
  A read that found its key in the log only, and writes at the same key before the value has been read. The
  parts of \<^verbatim>\<open>get\<close> are those its \<^verbatim>\<open>await\<close> separates.
\<close>

definition overtaken_get :: "('j, 's) store_env \<Rightarrow> readings \<Rightarrow> bytes \<Rightarrow> bytes \<Rightarrow> ('j store_reply list, 'j, 's) action \<Rightarrow>
    ('j entry option, 'j, 's) action" where
  "overtaken_get env rd ns key others =
     sbind (get_lookup env (rd_now rd) (rd_inst rd) (rd_clk rd 0) ns key) (\<lambda>r.
     sbind others (\<lambda>ys.
       case r of Inl reply \<Rightarrow> sret reply | Inr p \<Rightarrow> get_fill env (rd_now rd) (rd_inst rd) ns key p))"

text \<open>
  C0. A read from disk that a \<^verbatim>\<open>SET\<close> overtakes puts the old value into the cache when it resumes. Later
  reads answer with the old value, although the write was acknowledged before they began.
\<close>

theorem overtaken_read_revives_old_value:
  "fst (sbind (store_run demo_env
         [(demo_rd 5, OpKey [97] [1] (KSet [55] (demo_opts None False))), (demo_rd 6, OpKey [97] [1] (KExpire 100))]) (\<lambda>ys.
      sbind (overtaken_get demo_env (demo_rd 7) [97] [1]
         (store_run demo_env [(demo_rd 8, OpKey [97] [1] (KSet [56] (demo_opts None False)))])) (\<lambda>e.
        store_run demo_env [(demo_rd 9, OpKey [97] [1] KGet)])) demo_shard) =
   Inr [REntry (Some \<lparr>ent_value = [55], ent_expires_at = Some 97, ent_metadata = Some (), ent_revision = 5\<rparr>)]"
  by code_simp

end
