(* ===== verification/Spec2Isabelle.thy ===== *)
theory Spec2Isabelle
  imports Log_Defects Mem_Cache Glob Proto_Accept Write_Gate Store_Defects
begin

text \<open>
  Verification of the key-value store \<^verbatim>\<open>beyondoss/kv\<close> (a log-structured, Redis-compatible server).
\<close>

end
